(* ===== verification/Prelude.thy ===== *)
theory Prelude
  imports
    Main
    "HOL-Library.Char_ord"
    "HOL-Library.List_Lexorder"
    "HOL-Library.Sublist"
    "HOL-Library.Multiset"
begin

text \<open>
  The vocabulary every component shares. A Go string is a sequence of bytes, so it is a HOL
  \<open>string\<close> whose characters are bytes: \<open>length\<close> is Go's \<open>len\<close>, \<open>take\<close> and \<open>drop\<close> are Go's
  slices, and the order on strings (List_Lexorder over Char_ord) is Go's bytewise \<open><\<close>.

  The theory models the part of Go's \<open>strings\<close>, \<open>strconv\<close>, \<open>encoding/hex\<close> and
  \<open>unicode/utf8\<close> packages that the source calls. Runes (code points) and byte values are integers.
  Unicode whitespace is written out as its UTF-8 byte sequences. None of them begins with a
  continuation byte, so reading a string byte by byte finds exactly the spaces that Go's
  rune-wise loops find, on invalid UTF-8 too.
\<close>

section \<open>Collections and types\<close>

named_theorems go_str \<open>facts about the string operations of the Go standard library\<close>
named_theorems go_resp \<open>unfolding of response and constant abbreviations\<close>

type_synonym rune = int

abbreviation byte_val :: "char \<Rightarrow> int" where
  "byte_val c \<equiv> of_char c"

abbreviation byte_of :: "int \<Rightarrow> char" where
  "byte_of n \<equiv> char_of n"

section \<open>Prefix, containment, joining\<close>

text \<open>\<open>strings.HasPrefix(s, p)\<close>, \<open>strings.Contains(s, t)\<close> and \<open>strings.Join(xs, sep)\<close>.\<close>

definition has_prefix :: "string \<Rightarrow> string \<Rightarrow> bool" where
  "has_prefix s p = prefix p s"

definition str_contains :: "string \<Rightarrow> string \<Rightarrow> bool" where
  "str_contains s t = sublist t s"

fun join :: "string \<Rightarrow> string list \<Rightarrow> string" where
  "join sep [] = []"
| "join sep [x] = x"
| "join sep (x # y # xs) = x @ sep @ join sep (y # xs)"

text \<open>\<open>strings.Split(s, sep)\<close> for a one-byte separator: always at least one piece.\<close>

fun split_on :: "char \<Rightarrow> string \<Rightarrow> string list" where
  "split_on sep [] = [[]]"
| "split_on sep (c # s) =
     (if c = sep then [] # split_on sep s
      else (case split_on sep s of [] \<Rightarrow> [[c]] | w # ws \<Rightarrow> (c # w) # ws))"

lemma split_on_nonempty [simp]: "split_on sep s \<noteq> []"
  by (induction s) (auto split: list.splits)

lemma join_split_on: "join [sep] (split_on sep s) = s"
proof (induction s)
  case Nil
  then show ?case by simp
next
  case (Cons c s)
  obtain w ws where w: "split_on sep s = w # ws"
    by (cases "split_on sep s") auto
  with Cons show ?case by (cases ws) auto
qed

lemma split_on_no_sep: "\<forall>w \<in> set (split_on sep s). sep \<notin> set w"
  by (induction s) (auto split: list.splits)

lemma str_contains_refl [go_str, simp]: "str_contains s s"
  by (simp add: str_contains_def)

lemma str_contains_empty [go_str, simp]: "str_contains s []"
  by (simp add: str_contains_def)

lemma str_contains_append [go_str]:
  "str_contains s t \<Longrightarrow> str_contains (a @ s @ b) t"
  unfolding str_contains_def sublist_def by (metis append.assoc)

lemma str_contains_trans [go_str]:
  "str_contains s t \<Longrightarrow> str_contains t u \<Longrightarrow> str_contains s u"
  unfolding str_contains_def using sublist_order.order.trans by blast

lemma str_contains_length: "str_contains s t \<Longrightarrow> length t \<le> length s"
  unfolding str_contains_def by (rule sublist_length_le)

lemma str_contains_join: "x \<in> set xs \<Longrightarrow> str_contains (join sep xs) x"
proof (induction sep xs rule: join.induct)
  case (1 sep)
  then show ?case by simp
next
  case (2 sep y)
  then show ?case by simp
next
  case (3 sep a b xs)
  then show ?case
    using str_contains_append [of "a" x "[]"] str_contains_append [of _ x "a @ sep" "[]"]
    by (auto simp: str_contains_def sublist_append)
qed

lemma join_eq_empty: "join sep xs = [] \<longleftrightarrow> (\<forall>x \<in> set xs. x = []) \<and> (sep = [] \<or> length xs \<le> 1)"
  by (induction sep xs rule: join.induct) auto

section \<open>Whitespace: TrimSpace, Trim and Fields\<close>

text \<open>
  The UTF-8 encodings of the runes for which Go's \<open>unicode.IsSpace\<close> holds: the six ASCII
  spaces, U+0085, U+00A0, U+1680, U+2000..U+200A, U+2028, U+2029, U+202F, U+205F, U+3000.
\<close>

definition ascii_spaces :: "char list" where
  "ascii_spaces = [CHR 0x09, CHR 0x0A, CHR 0x0B, CHR 0x0C, CHR 0x0D, CHR 0x20]"

definition space_seqs :: "string list" where
  "space_seqs =
     map (\<lambda>c. [c]) ascii_spaces @
     [[CHR 0xC2, CHR 0x85], [CHR 0xC2, CHR 0xA0], [CHR 0xE1, CHR 0x9A, CHR 0x80]] @
     map (\<lambda>c. [CHR 0xE2, CHR 0x80, c])
       [CHR 0x80, CHR 0x81, CHR 0x82, CHR 0x83, CHR 0x84, CHR 0x85, CHR 0x86, CHR 0x87,
        CHR 0x88, CHR 0x89, CHR 0x8A, CHR 0xA8, CHR 0xA9, CHR 0xAF] @
     [[CHR 0xE2, CHR 0x81, CHR 0x9F], [CHR 0xE3, CHR 0x80, CHR 0x80]]"

definition lead_seq :: "string list \<Rightarrow> string \<Rightarrow> string option" where
  "lead_seq ws s = List.find (\<lambda>w. w \<noteq> [] \<and> prefix w s) ws"

lemma lead_seq_Some:
  assumes "lead_seq ws s = Some w"
  shows "w \<noteq> []" and "prefix w s" and "length w \<le> length s" and "0 < length w"
  using assms by (auto simp: lead_seq_def find_Some_iff dest: prefix_length_le)

lemma lead_seq_drop: "lead_seq ws s = Some w \<Longrightarrow> length (drop (length w) s) < length s"
  using lead_seq_Some [of ws s w] by (cases s) auto

text \<open>Dropping leading members of a set of byte sequences, one at a time.\<close>

function strip_left :: "string list \<Rightarrow> string \<Rightarrow> string" where
  "strip_left ws s =
     (case lead_seq ws s of None \<Rightarrow> s | Some w \<Rightarrow> strip_left ws (drop (length w) s))"
  by pat_completeness auto
termination
proof (relation "measure (\<lambda>(ws, s). length s)")
  show "wf (measure (\<lambda>(ws, s). length s))" by simp
next
  fix ws :: "string list" and s w :: string
  assume "lead_seq ws s = Some w"
  from lead_seq_drop [OF this] show "((ws, drop (length w) s), ws, s) \<in> measure (\<lambda>(ws, s). length s)"
    by simp
qed

declare strip_left.simps [simp del]

definition trim_space :: "string \<Rightarrow> string" where
  "trim_space s = rev (strip_left (map rev space_seqs) (rev (strip_left space_seqs s)))"

lemma strip_left_suffix: "suffix (strip_left ws s) s"
proof (induction ws s rule: strip_left.induct)
  case (1 ws s)
  show ?case
  proof (cases "lead_seq ws s")
    case None
    then show ?thesis by (simp add: strip_left.simps [of ws s])
  next
    case (Some w)
    from "1.IH" [OF Some] have "suffix (strip_left ws (drop (length w) s)) (drop (length w) s)" .
    then have "suffix (strip_left ws (drop (length w) s)) s"
      using suffix_drop suffix_order.trans by blast
    with Some show ?thesis by (simp add: strip_left.simps [of ws s])
  qed
qed

lemma trim_space_sublist: "sublist (trim_space s) s"
proof -
  let ?l = "strip_left space_seqs s"
  have "prefix (trim_space s) ?l"
    using strip_left_suffix [of "map rev space_seqs" "rev ?l"]
    by (simp add: trim_space_def suffix_to_prefix)
  moreover have "suffix ?l s" by (rule strip_left_suffix)
  ultimately show ?thesis by (metis prefix_imp_sublist suffix_imp_sublist sublist_order.order.trans)
qed

text \<open>\<open>strings.Trim(s, cutset)\<close> for an ASCII cutset.\<close>

definition trim_set :: "char list \<Rightarrow> string \<Rightarrow> string" where
  "trim_set cs s =
     rev (dropWhile (\<lambda>c. c \<in> set cs) (rev (dropWhile (\<lambda>c. c \<in> set cs) s)))"

text \<open>\<open>strings.Fields(s)\<close>: the maximal runs of non-space bytes, left to right.\<close>

definition emit_field :: "string \<Rightarrow> string list" where
  "emit_field cur = (if cur = [] then [] else [rev cur])"

function fields_go :: "string \<Rightarrow> string \<Rightarrow> string list" where
  "fields_go cur s =
     (case s of
        [] \<Rightarrow> emit_field cur
      | c # s' \<Rightarrow>
          (case lead_seq space_seqs s of
             Some w \<Rightarrow> emit_field cur @ fields_go [] (drop (length w) s)
           | None \<Rightarrow> fields_go (c # cur) s'))"
  by pat_completeness auto
termination
proof (relation "measure (\<lambda>(cur, s). length s)")
  show "wf (measure (\<lambda>(cur, s). length s))" by simp
next
  fix cur s s' w :: string and c :: char
  assume "s = c # s'" and "lead_seq space_seqs s = Some w"
  from lead_seq_drop [OF this(2)]
  show "(([], drop (length w) s), cur, s) \<in> measure (\<lambda>(cur, s). length s)"
    by simp
next
  fix cur s s' :: string and c :: char
  assume "s = c # s'"
  then show "((c # cur, s'), cur, s) \<in> measure (\<lambda>(cur, s). length s)" by simp
qed

declare fields_go.simps [simp del]

definition Fields :: "string \<Rightarrow> string list" where
  "Fields s = fields_go [] s"

lemma fields_go_nonempty: "[] \<notin> set (fields_go cur s)"
proof (induction cur s rule: fields_go.induct)
  case (1 cur s)
  then show ?case
    by (subst fields_go.simps) (auto simp: emit_field_def split: list.splits option.splits)
qed

lemma Fields_nonempty: "[] \<notin> set (Fields s)"
  unfolding Fields_def by (rule fields_go_nonempty)

text \<open>Words without space bytes, joined by single spaces, are their own fields.\<close>

definition plain_char :: "char \<Rightarrow> bool" where
  "plain_char c = list_all (\<lambda>w. hd w \<noteq> c) space_seqs"

lemma lead_seq_plain: "plain_char c \<Longrightarrow> lead_seq space_seqs (c # s) = None"
  by (auto simp: lead_seq_def find_None_iff plain_char_def list_all_iff prefix_def neq_Nil_conv)

lemma lead_seq_space: "lead_seq space_seqs (CHR 0x20 # s) = Some [CHR 0x20]"
  by (simp add: lead_seq_def space_seqs_def ascii_spaces_def)

lemma fields_go_plain:
  "list_all plain_char w \<Longrightarrow> fields_go cur (w @ rest) = fields_go (rev w @ cur) rest"
proof (induction w arbitrary: cur)
  case (Cons c w)
  then have "fields_go cur ((c # w) @ rest) = fields_go (c # cur) (w @ rest)"
    by (subst fields_go.simps) (simp add: lead_seq_plain)
  with Cons show ?case by simp
qed simp

lemma fields_go_space: "fields_go cur (CHR 0x20 # rest) = emit_field cur @ fields_go [] rest"
  by (subst fields_go.simps) (simp add: lead_seq_space)

lemma fields_go_end: "fields_go cur [] = emit_field cur"
  by (subst fields_go.simps) simp

lemma Fields_join:
  "list_all (\<lambda>w. w \<noteq> [] \<and> list_all plain_char w) ws \<Longrightarrow> Fields (join '' '' ws) = ws"
proof (induction "'' ''" ws rule: join.induct)
  case 1
  then show ?case by (simp add: Fields_def fields_go_end emit_field_def)
next
  case (2 x)
  then show ?case
    using fields_go_plain [of x "[]" "[]"] by (simp add: Fields_def fields_go_end emit_field_def)
next
  case (3 x y xs)
  then have "Fields (join '' '' (y # xs)) = y # xs" and "x \<noteq> []" by simp_all
  with 3 show ?case
    using fields_go_plain [of x "[]" "CHR 0x20 # join '' '' (y # xs)"]
    by (simp add: Fields_def fields_go_space emit_field_def)
qed

section \<open>Runes: UTF-8 decoding and encoding\<close>

text \<open>
  \<open>utf8.DecodeRuneInString\<close> on a non-empty string: the rune and its width. Overlong
  encodings, surrogates, values past U+10FFFF and truncated sequences give the replacement
  rune U+FFFD with width 1.
\<close>

definition rune_error :: rune where
  "rune_error = 0xFFFD"

definition cont_byte :: "int \<Rightarrow> bool" where
  "cont_byte b \<longleftrightarrow> 0x80 \<le> b \<and> b \<le> 0xBF"

definition decode2 :: "int \<Rightarrow> int list \<Rightarrow> rune \<times> nat" where
  "decode2 b0 bs =
     (case bs of
        b1 # _ \<Rightarrow> if cont_byte b1 then ((b0 - 0xC0) * 64 + (b1 - 0x80), 2) else (rune_error, 1)
      | [] \<Rightarrow> (rune_error, 1))"

definition decode3 :: "int \<Rightarrow> int list \<Rightarrow> rune \<times> nat" where
  "decode3 b0 bs =
     (case bs of
        b1 # b2 # _ \<Rightarrow>
          if (if b0 = 0xE0 then 0xA0 else 0x80) \<le> b1 \<and> b1 \<le> (if b0 = 0xED then 0x9F else 0xBF)
             \<and> cont_byte b2
          then ((b0 - 0xE0) * 4096 + (b1 - 0x80) * 64 + (b2 - 0x80), 3) else (rune_error, 1)
      | _ \<Rightarrow> (rune_error, 1))"

definition decode4 :: "int \<Rightarrow> int list \<Rightarrow> rune \<times> nat" where
  "decode4 b0 bs =
     (case bs of
        b1 # b2 # b3 # _ \<Rightarrow>
          if (if b0 = 0xF0 then 0x90 else 0x80) \<le> b1 \<and> b1 \<le> (if b0 = 0xF4 then 0x8F else 0xBF)
             \<and> cont_byte b2 \<and> cont_byte b3
          then ((b0 - 0xF0) * 262144 + (b1 - 0x80) * 4096 + (b2 - 0x80) * 64 + (b3 - 0x80), 4)
          else (rune_error, 1)
      | _ \<Rightarrow> (rune_error, 1))"

definition decode_rune :: "char \<Rightarrow> string \<Rightarrow> rune \<times> nat" where
  "decode_rune c s =
     (let b0 = byte_val c; bs = map byte_val (take 3 s) in
      if b0 < 0x80 then (b0, 1)
      else if 0xC2 \<le> b0 \<and> b0 \<le> 0xDF then decode2 b0 bs
      else if 0xE0 \<le> b0 \<and> b0 \<le> 0xEF then decode3 b0 bs
      else if 0xF0 \<le> b0 \<and> b0 \<le> 0xF4 then decode4 b0 bs
      else (rune_error, 1))"

lemma decode_rune_width_pos: "0 < snd (decode_rune c s)"
  by (auto simp: decode_rune_def decode2_def decode3_def decode4_def Let_def split: list.splits)

lemma decode_rune_ascii: "byte_val c < 128 \<Longrightarrow> decode_rune c s = (byte_val c, 1)"
  by (simp add: decode_rune_def)

text \<open>The runes of a string, as Go's \<open>for _, r := range s\<close> delivers them.\<close>

function runes :: "string \<Rightarrow> rune list" where
  "runes [] = []"
| "runes (c # s) = (let (r, n) = decode_rune c s in r # runes (drop (n - 1) s))"
  by pat_completeness auto
termination
  by (relation "measure length") auto

declare runes.simps(2) [simp del]

text \<open>\<open>utf8.AppendRune\<close>: the encoding of one rune; surrogates and out-of-range values give
  the encoding of U+FFFD.\<close>

definition encode_rune :: "rune \<Rightarrow> string" where
  "encode_rune r0 =
     (let r = (if 0x10FFFF < r0 \<or> 0xD800 \<le> r0 \<and> r0 \<le> 0xDFFF then rune_error else r0) in
      if r < 0x80 then [byte_of r]
      else if r < 0x800 then [byte_of (0xC0 + r div 64), byte_of (0x80 + r mod 64)]
      else if r < 0x10000 then
        [byte_of (0xE0 + r div 4096), byte_of (0x80 + r div 64 mod 64), byte_of (0x80 + r mod 64)]
      else
        [byte_of (0xF0 + r div 262144), byte_of (0x80 + r div 4096 mod 64),
         byte_of (0x80 + r div 64 mod 64), byte_of (0x80 + r mod 64)])"

section \<open>Case folding\<close>

text \<open>
  \<open>strings.ToLower\<close>. The ASCII branch is written out. A string with a non-ASCII byte goes
  through \<open>strings.Map(unicode.ToLower, s)\<close>: the rune table \<open>unicode.ToLower\<close> is the
  parameter \<open>ul\<close>, the decoding and re-encoding around it is Go's.
\<close>

definition is_ascii :: "string \<Rightarrow> bool" where
  "is_ascii s = list_all (\<lambda>c. c < CHR 0x80) s"

definition lower_char :: "char \<Rightarrow> char" where
  "lower_char c = (if CHR ''A'' \<le> c \<and> c \<le> CHR ''Z'' then byte_of (byte_val c + 32) else c)"

definition to_lower :: "(rune \<Rightarrow> rune) \<Rightarrow> string \<Rightarrow> string" where
  "to_lower ul s =
     (if is_ascii s then map lower_char s else concat (map (encode_rune \<circ> ul) (runes s)))"

section \<open>Numbers and hex\<close>

text \<open>\<open>strconv.FormatInt(n, 10)\<close> and \<open>hex.EncodeToString\<close>.\<close>

definition digit_char :: "int \<Rightarrow> char" where
  "digit_char d = byte_of (48 + d)"

function nat_dec :: "int \<Rightarrow> string" where
  "nat_dec n = (if n < 10 then [digit_char n] else nat_dec (n div 10) @ [digit_char (n mod 10)])"
  by pat_completeness auto
termination
  by (relation "measure nat") auto

declare nat_dec.simps [simp del]

definition int_dec :: "int \<Rightarrow> string" where
  "int_dec i = (if i < 0 then CHR ''-'' # nat_dec (- i) else nat_dec i)"

definition hex_digit :: "int \<Rightarrow> char" where
  "hex_digit d = (if d < 10 then byte_of (48 + d) else byte_of (87 + d))"

definition hex_byte :: "char \<Rightarrow> string" where
  "hex_byte c = [hex_digit (byte_val c div 16), hex_digit (byte_val c mod 16)]"

definition hex_encode :: "string \<Rightarrow> string" where
  "hex_encode s = concat (map hex_byte s)"

lemma byte_val_range: "0 \<le> byte_val c \<and> byte_val c < 256"
  by (metis of_char_mod_256 pos_mod_bound pos_mod_sign zero_less_numeral)

lemma hex_encode_length [simp]: "length (hex_encode s) = 2 * length s"
  by (induction s) (auto simp: hex_encode_def hex_byte_def)

lemma nat_dec_nonempty [simp]: "nat_dec n \<noteq> []"
  by (subst nat_dec.simps) simp

section \<open>Lists and orders\<close>

lemma find_None_ball: "List.find P xs = None \<longleftrightarrow> (\<forall>x \<in> set xs. \<not> P x)"
  by (induction xs) auto

lemma find_SomeD: "List.find P xs = Some x \<Longrightarrow> x \<in> set xs \<and> P x"
  by (induction xs) (auto split: if_splits)

text \<open>Equal multisets sort to the same list: the fact behind every claim that a result does
  not depend on Go's random map iteration order.\<close>

lemma sort_perm_eq:
  fixes xs :: "'a::linorder list"
  shows "mset xs = mset ys \<Longrightarrow> sort xs = sort ys"
  by (metis mset_sort properties_for_sort sorted_sort)

lemma mset_map_cong: "mset xs = mset ys \<Longrightarrow> mset (map f xs) = mset (map f ys)"
  by simp

end
