(* ===== verification/Principal.thy ===== *)
theory Principal
  imports Prelude
begin

text \<open>
  The Principal seam (\<open>principal.go\<close>): the identity claim carried by a request, the key an
  entry is bound to at write, the keys a reader may see, and the write's provenance class.

  A decoded JSON value of Go's type \<open>any\<close> is a \<open>json\<close>; a number keeps its literal, since no
  component reads numbers out of a request. The \<open>identity\<close> argument, a \<open>map[string]any\<close> that
  may be nil, is a map; reading a nil Go map finds nothing, as the empty map does.
\<close>

section \<open>Identity claims\<close>

datatype json =
    JNull
  | JBool bool
  | JNum string
  | JStr string
  | JArr "json list"
  | JObj "(string \<times> json) list"

type_synonym identity = "string \<rightharpoonup> json"

text \<open>The comma-ok assertion \<open>s, _ := m[k].(string)\<close>: the string under the key, else empty.\<close>

definition str_field :: "identity \<Rightarrow> string \<Rightarrow> string" where
  "str_field m k = (case m k of Some (JStr s) \<Rightarrow> s | _ \<Rightarrow> [])"

definition attestedTier :: string where
  "attestedTier = ''attested''"

definition sharedScopeValue :: string where
  "sharedScopeValue = ''shared''"

definition unboundKey :: string where
  "unboundKey = []"

definition sharedScopeKey :: string where
  "sharedScopeKey = ''shared://''"

record pre_verified_principal =
  spiffeID :: string
  trustTier :: string
  scope :: string

definition Subject :: "pre_verified_principal \<Rightarrow> string" where
  "Subject p = spiffeID p"

definition Attested :: "pre_verified_principal \<Rightarrow> bool" where
  "Attested p = (trustTier p = attestedTier)"

definition SharedScope :: "pre_verified_principal \<Rightarrow> bool" where
  "SharedScope p = (scope p = sharedScopeValue)"

definition normalizeSubject :: "string \<Rightarrow> string" where
  "normalizeSubject s = trim_space s"

definition principalFromMap :: "identity \<Rightarrow> pre_verified_principal" where
  "principalFromMap m =
     \<lparr>spiffeID = normalizeSubject (str_field m ''spiffe_id''),
      trustTier = trim_space (str_field m ''trust_tier''),
      scope = trim_space (str_field m ''scope'')\<rparr>"

text \<open>\<open>None\<close> is a nil interface value. The forge-proofing comes first, then the sanctioned
  shared publish, then the attested subject.\<close>

definition boundKeyFor :: "pre_verified_principal option \<Rightarrow> string" where
  "boundKeyFor po =
     (case po of
        None \<Rightarrow> unboundKey
      | Some p \<Rightarrow>
          (let subject = (if Subject p = sharedScopeKey then unboundKey else Subject p) in
           if Attested p \<and> SharedScope p then sharedScopeKey
           else if Attested p \<and> subject \<noteq> [] then subject
           else unboundKey))"

definition readerVisibilityKey :: "pre_verified_principal option \<Rightarrow> string \<times> bool" where
  "readerVisibilityKey po =
     (case po of
        None \<Rightarrow> (unboundKey, False)
      | Some p \<Rightarrow> if Attested p \<and> Subject p \<noteq> [] then (Subject p, True) else (unboundKey, False))"

section \<open>Write provenance\<close>

definition sourceClassExternalTool :: string where
  "sourceClassExternalTool = ''external_tool''"

definition sourceClassUserInput :: string where
  "sourceClassUserInput = ''user_input''"

definition sourceClassAgentAuthored :: string where
  "sourceClassAgentAuthored = ''agent_authored''"

definition sourceClassSystem :: string where
  "sourceClassSystem = ''system''"

definition sourceClassUnknown :: string where
  "sourceClassUnknown = ''unknown''"

definition rawSourceClass :: "identity \<Rightarrow> string" where
  "rawSourceClass m = str_field m ''source_class''"

definition sourceClassFromMap :: "identity \<Rightarrow> string" where
  "sourceClassFromMap m =
     (let raw = rawSourceClass m in
      if raw \<in> set [sourceClassExternalTool, sourceClassUserInput,
                    sourceClassAgentAuthored, sourceClassSystem]
      then raw else sourceClassUnknown)"

definition writeProvenanceHint :: "identity \<Rightarrow> string" where
  "writeProvenanceHint m = trim_space (rawSourceClass m)"

section \<open>Facts about keys\<close>

lemmas principal_consts =
  attestedTier_def sharedScopeValue_def unboundKey_def sharedScopeKey_def

lemmas principal_defs =
  principalFromMap_def Subject_def Attested_def SharedScope_def normalizeSubject_def

lemma boundKeyFor_unattested: "\<not> Attested p \<Longrightarrow> boundKeyFor (Some p) = unboundKey"
  by (simp add: boundKeyFor_def)

lemma boundKeyFor_shared_iff:
  "boundKeyFor (Some p) = sharedScopeKey \<longleftrightarrow> Attested p \<and> SharedScope p"
  by (auto simp: boundKeyFor_def Let_def principal_consts)

lemma boundKeyFor_subject:
  "Attested p \<Longrightarrow> \<not> SharedScope p \<Longrightarrow> Subject p \<noteq> sharedScopeKey \<Longrightarrow> boundKeyFor (Some p) = Subject p"
  by (auto simp: boundKeyFor_def Let_def unboundKey_def)

text \<open>The producer and the consumer half of the identity contract agree: who binds an entry to
  its own subject reads entries under that very key.\<close>

lemma reader_key_own:
  assumes "boundKeyFor (Some p) = k" and "k \<noteq> unboundKey" and "k \<noteq> sharedScopeKey"
  shows "readerVisibilityKey (Some p) = (k, True)"
  using assms by (auto simp: boundKeyFor_def readerVisibilityKey_def Let_def unboundKey_def split: if_splits)

lemma sourceClassFromMap_range:
  "sourceClassFromMap m \<in> {sourceClassExternalTool, sourceClassUserInput, sourceClassAgentAuthored,
     sourceClassSystem, sourceClassUnknown}"
  by (simp add: sourceClassFromMap_def Let_def)

section \<open>Properties\<close>

text \<open>Only an attested writer that explicitly asks for scope "shared" can bind an entry to
  the shared key. No \<open>spiffe_id\<close>, not even one that spells the marker itself, reaches it.\<close>

theorem shared_binding_forge_proof:
  "boundKeyFor (Some (principalFromMap m)) = sharedScopeKey \<longleftrightarrow>
     trim_space (str_field m ''trust_tier'') = ''attested'' \<and>
     trim_space (str_field m ''scope'') = ''shared''"
  by (simp add: boundKeyFor_shared_iff principal_defs attestedTier_def sharedScopeValue_def)

text \<open>The binding is exact. Two writers whose entries carry the same key, other than the
  unbound and the shared one, are attested under the same normalized subject: no prefix, no
  folding and no other claim field makes two subjects share a key.\<close>

theorem binding_injective_on_subjects:
  assumes "boundKeyFor (Some (principalFromMap m1)) = boundKeyFor (Some (principalFromMap m2))"
    and "boundKeyFor (Some (principalFromMap m1)) \<notin> {unboundKey, sharedScopeKey}"
  shows "Subject (principalFromMap m1) = Subject (principalFromMap m2) \<and>
         Attested (principalFromMap m1) \<and> Attested (principalFromMap m2)"
  using assms by (auto simp: boundKeyFor_def Let_def unboundKey_def split: if_splits)

theorem binding_injective_on_subjects_witness:
  "Subject (principalFromMap [''spiffe_id'' \<mapsto> JStr ''spiffe://t/a'', ''trust_tier'' \<mapsto> JStr ''attested'']) =
   Subject (principalFromMap [''spiffe_id'' \<mapsto> JStr '' spiffe://t/a '', ''trust_tier'' \<mapsto> JStr ''attested''])"
proof -
  let ?m1 = "[''spiffe_id'' \<mapsto> JStr ''spiffe://t/a'', ''trust_tier'' \<mapsto> JStr ''attested'']"
  let ?m2 = "[''spiffe_id'' \<mapsto> JStr '' spiffe://t/a '', ''trust_tier'' \<mapsto> JStr ''attested'']"
  have "boundKeyFor (Some (principalFromMap ?m1)) = boundKeyFor (Some (principalFromMap ?m2))" by code_simp
  moreover have "boundKeyFor (Some (principalFromMap ?m1)) \<notin> {unboundKey, sharedScopeKey}" by code_simp
  ultimately show ?thesis using binding_injective_on_subjects [of ?m1 ?m2] by blast
qed

text \<open>A claim without a \<open>spiffe_id\<close> is not always unattested. The documentation of
  \<open>principalFromMap\<close> says such a map yields Attested() = false; the code reads the trust tier on
  its own, so a map holding nothing but the tier is attested with an empty subject, and with
  scope "shared" it publishes to the shared key.\<close>

theorem attested_without_subject:
  "let p = principalFromMap [''trust_tier'' \<mapsto> JStr ''attested''];
       q = principalFromMap [''trust_tier'' \<mapsto> JStr ''attested'', ''scope'' \<mapsto> JStr ''shared'']
   in Subject p = [] \<and> Attested p \<and> Subject q = [] \<and> boundKeyFor (Some q) = sharedScopeKey"
  by code_simp

end
