(* ===== verification/Sha256.thy ===== *)
theory Sha256
  imports Prelude "HOL-Library.Word"
begin

text \<open>
  Go's \<open>crypto/sha256.Sum256\<close> (FIPS 180-4) on byte strings, over 32-bit words that wrap, and
  the two digests the guard derives from it: \<open>deletionHash\<close> (\<open>residue.go\<close>), which links a
  deletion into the audit trail, and \<open>immutableBaselineHash\<close> (\<open>keys.go\<close>), which pins the value
  of an immutable key.
\<close>

unbundle bit_operations_syntax

section \<open>The compression function\<close>

type_synonym w32 = "32 word"
type_synonym sha_state = "w32 list"

definition rotr32 :: "nat \<Rightarrow> w32 \<Rightarrow> w32" where
  "rotr32 n x = drop_bit n x OR push_bit (32 - n) x"

definition big_sigma0 :: "w32 \<Rightarrow> w32" where
  "big_sigma0 x = rotr32 2 x XOR rotr32 13 x XOR rotr32 22 x"

definition big_sigma1 :: "w32 \<Rightarrow> w32" where
  "big_sigma1 x = rotr32 6 x XOR rotr32 11 x XOR rotr32 25 x"

definition small_sigma0 :: "w32 \<Rightarrow> w32" where
  "small_sigma0 x = rotr32 7 x XOR rotr32 18 x XOR drop_bit 3 x"

definition small_sigma1 :: "w32 \<Rightarrow> w32" where
  "small_sigma1 x = rotr32 17 x XOR rotr32 19 x XOR drop_bit 10 x"

definition ch32 :: "w32 \<Rightarrow> w32 \<Rightarrow> w32 \<Rightarrow> w32" where
  "ch32 x y z = (x AND y) XOR (NOT x AND z)"

definition maj32 :: "w32 \<Rightarrow> w32 \<Rightarrow> w32 \<Rightarrow> w32" where
  "maj32 x y z = (x AND y) XOR (x AND z) XOR (y AND z)"

text \<open>The round constants are the leading 32 bits of the fractional parts of the cube roots of the
  first 64 primes, the initial state those of the square roots of the first eight.\<close>

definition sha_k :: "w32 list" where
  "sha_k =
    [1116352408, 1899447441, 3049323471, 3921009573, 961987163, 1508970993, 2453635748, 2870763221,
     3624381080, 310598401, 607225278, 1426881987, 1925078388, 2162078206, 2614888103, 3248222580,
     3835390401, 4022224774, 264347078, 604807628, 770255983, 1249150122, 1555081692, 1996064986,
     2554220882, 2821834349, 2952996808, 3210313671, 3336571891, 3584528711, 113926993, 338241895,
     666307205, 773529912, 1294757372, 1396182291, 1695183700, 1986661051, 2177026350, 2456956037,
     2730485921, 2820302411, 3259730800, 3345764771, 3516065817, 3600352804, 4094571909, 275423344,
     430227734, 506948616, 659060556, 883997877, 958139571, 1322822218, 1537002063, 1747873779,
     1955562222, 2024104815, 2227730452, 2361852424, 2428436474, 2756734187, 3204031479, 3329325298]"

definition sha_init :: sha_state where
  "sha_init =
    [1779033703, 3144134277, 1013904242, 2773480762, 1359893119, 2600822924, 528734635, 1541459225]"

text \<open>The message schedule, latest word first.\<close>

primrec sha_schedule :: "nat \<Rightarrow> w32 list \<Rightarrow> w32 list" where
  "sha_schedule 0 ws = ws"
| "sha_schedule (Suc n) ws =
     sha_schedule n ((small_sigma1 (ws ! 1) + ws ! 6 + small_sigma0 (ws ! 14) + ws ! 15) # ws)"

fun sha_round :: "sha_state \<Rightarrow> w32 \<times> w32 \<Rightarrow> sha_state" where
  "sha_round [a, b, c, d, e, f, g, h] (k, w) =
     (let t1 = h + big_sigma1 e + ch32 e f g + k + w;
          t2 = big_sigma0 a + maj32 a b c
      in [t1 + t2, a, b, c, d + t1, e, f, g])"
| "sha_round st _ = st"

definition sha_block :: "sha_state \<Rightarrow> w32 list \<Rightarrow> sha_state" where
  "sha_block st ws =
     map2 (+) st (foldl sha_round st (zip sha_k (rev (sha_schedule 48 (rev ws)))))"

section \<open>Padding and parsing\<close>

text \<open>A byte of value 0x80, zeros up to 56 modulo 64, the bit length as eight bytes.\<close>

primrec be_bytes :: "nat \<Rightarrow> int \<Rightarrow> int list" where
  "be_bytes 0 n = []"
| "be_bytes (Suc k) n = be_bytes k (n div 256) @ [n mod 256]"

definition sha_pad :: "string \<Rightarrow> int list" where
  "sha_pad m =
     map of_char m @ [0x80] @ replicate ((119 - length m mod 64) mod 64) 0 @
     be_bytes 8 (8 * int (length m))"

fun be_words :: "int list \<Rightarrow> w32 list" where
  "be_words (a # b # c # d # xs) =
     of_int (((a * 256 + b) * 256 + c) * 256 + d) # be_words xs"
| "be_words _ = []"

fun sha_blocks :: "nat \<Rightarrow> sha_state \<Rightarrow> w32 list \<Rightarrow> sha_state" where
  "sha_blocks 0 st ws = st"
| "sha_blocks (Suc n) st ws = sha_blocks n (sha_block st (take 16 ws)) (drop 16 ws)"

definition sha256 :: "string \<Rightarrow> string" where
  "sha256 m =
     (let ws = be_words (sha_pad m) in
      concat (map (\<lambda>w. map char_of (be_bytes 4 (uint w))) (sha_blocks (length ws div 16) sha_init ws)))"

text \<open>The padded message is a whole number of 64-byte blocks, and the digest has 32 bytes.\<close>

lemma be_bytes_length [simp]: "length (be_bytes k n) = k"
  by (induction k arbitrary: n) simp_all

lemma sha_pad_length: "length (sha_pad m) mod 64 = 0"
proof -
  obtain q r where r: "length m mod 64 = r" "r < 64" and m: "length m = 64 * q + r"
    by (metis mod_less_divisor mult_div_mod_eq zero_less_numeral)
  have len: "length (sha_pad m) = length m + 9 + (119 - r) mod 64"
    by (simp add: sha_pad_def r(1))
  show ?thesis
  proof (cases "r \<le> 55")
    case True
    then have "119 - r = 64 + (55 - r)" by simp
    then have "(119 - r) mod 64 = 55 - r" by (simp only: mod_add_self1) simp
    with len m True have "length (sha_pad m) = 64 * (q + 1)" by simp
    then show ?thesis by (simp only: mod_mult_self1_is_0)
  next
    case False
    with r(2) have "(119 - r) mod 64 = 119 - r" by simp
    with len m r(2) have "length (sha_pad m) = 64 * (q + 2)" by simp
    then show ?thesis by (simp only: mod_mult_self1_is_0)
  qed
qed

lemma sha_round_length [simp]: "length (sha_round st kw) = length st"
  by (induction st kw rule: sha_round.induct) (simp_all add: Let_def)

lemma foldl_sha_round_length [simp]: "length (foldl sha_round st kws) = length st"
  by (induction kws arbitrary: st) simp_all

lemma sha_blocks_length [simp]: "length (sha_blocks n st ws) = length st"
  by (induction n st ws rule: sha_blocks.induct) (simp_all add: sha_block_def)

lemma sha256_length [simp]: "length (sha256 m) = 32"
  by (simp add: sha256_def Let_def length_concat comp_def sum_list_triv sha_init_def)

section \<open>The two digests of the guard\<close>

abbreviation NUL :: char where
  "NUL \<equiv> CHR 0x00"

definition deletion_preimage :: "string \<Rightarrow> string \<Rightarrow> string" where
  "deletion_preimage ident content = ''delete'' @ [NUL] @ ident @ [NUL] @ content"

definition deletionHash :: "string \<Rightarrow> string \<Rightarrow> string" where
  "deletionHash ident content = hex_encode (sha256 (deletion_preimage ident content))"

definition immutable_preimage :: "string \<Rightarrow> string" where
  "immutable_preimage content = ''immutable'' @ [NUL] @ content"

definition immutableBaselineHash :: "string \<Rightarrow> string" where
  "immutableBaselineHash content = hex_encode (sha256 (immutable_preimage content))"

lemma deletionHash_length [simp]: "length (deletionHash i c) = 64"
  by (simp add: deletionHash_def)

lemma immutableBaselineHash_length [simp]: "length (immutableBaselineHash c) = 64"
  by (simp add: immutableBaselineHash_def)

lemma append_sep_inject:
  "x @ sep # y = x' @ sep # y' \<Longrightarrow> sep \<notin> set x \<Longrightarrow> sep \<notin> set x' \<Longrightarrow> x = x' \<and> y = y'"
proof (induction x arbitrary: x')
  case Nil
  then show ?case by (cases x') auto
next
  case (Cons a x)
  then show ?case by (cases x') auto
qed

section \<open>Properties\<close>

text \<open>What the deletion hash commits to. For ids without a NUL byte (every minted id is
  \<open>mem-\<close> and hex digits) the hashed bytes determine the id and the deleted content, so two
  deletions with the same hash are the same deletion or a SHA-256 collision. The digest is
  always 64 hex characters, and the bytes hashed for a deletion are never the bytes hashed for
  an immutable baseline: the two digest spaces are separated by their first byte.\<close>

theorem deletion_hash_commits:
  assumes "NUL \<notin> set i" and "NUL \<notin> set j"
  shows "(deletion_preimage i c = deletion_preimage j d \<longleftrightarrow> i = j \<and> c = d) \<and>
         length (deletionHash i c) = 64 \<and>
         deletion_preimage i c \<noteq> immutable_preimage e"
  using assms append_sep_inject [of i NUL c j d]
  by (auto simp: deletion_preimage_def immutable_preimage_def)

theorem deletion_hash_commits_witness:
  "NUL \<notin> set ''mem-00ff'' \<and> deletion_preimage ''mem-00ff'' ''a'' \<noteq> deletion_preimage ''mem-00ff'' ''b''"
proof -
  have "NUL \<notin> set ''mem-00ff''" by simp
  then show ?thesis using deletion_hash_commits [of "''mem-00ff''" "''mem-00ff''" "''a''" "''b''"] by simp
qed

text \<open>Without that restriction the hash does not identify the deletion. \<open>verify_delete\<close>
  takes any id from the wire, and an id with a NUL byte moves the boundary between id and
  content: two different deletions have the same hash, whatever the hash function.\<close>

theorem deletion_hash_nul_collision:
  "deletionHash (x @ [NUL] @ y) z = deletionHash x (y @ [NUL] @ z)"
  by (simp add: deletionHash_def deletion_preimage_def)

end
