(* ===== verification/Store.thy ===== *)
theory Store
  imports Prelude "HOL-Library.AList"
begin

text \<open>
  The MemoryStore seam (\<open>store.go\<close>): the entry, the interface with its laws as the locale
  \<open>memory_store\<close>, and the two in-process adapters, InMemoryStore and TwoIndexStore, each shown
  to satisfy the laws.

  A Go map is an association list with distinct keys. Go iterates over a map in an order it
  chooses anew each time; \<open>map_order\<close> is the type of those choices (any function that permutes
  the key list), and every operation that ranges over a map takes one.
\<close>

section \<open>Entries\<close>

text \<open>A nil and an empty flag slice are both \<open>[]\<close>: no reader of an entry tells them apart.\<close>

record entry =
  e_content :: string
  e_boundIdentity :: string
  e_sourceClass :: string
  e_flags :: "string list"
  e_quarantined :: bool

definition zero_entry :: entry where
  "zero_entry = \<lparr>e_content = [], e_boundIdentity = [], e_sourceClass = [], e_flags = [],
                 e_quarantined = False\<rparr>"

section \<open>Substring search\<close>

text \<open>The store's own search loop: \<open>for i := 0; i+len(sub) <= len(s); i++\<close>.\<close>

function index_from :: "string \<Rightarrow> string \<Rightarrow> nat \<Rightarrow> int" where
  "index_from s sub i =
     (if i + length sub \<le> length s \<and> sub \<noteq> [] then
        (if take (length sub) (drop i s) = sub then int i else index_from s sub (Suc i))
      else -1)"
  by pat_completeness auto
termination
proof (relation "measure (\<lambda>(s, sub, i). length s - i)")
  show "wf (measure (\<lambda>(s, sub, i). length s - i))" by simp
next
  fix s sub :: string and i :: nat
  assume "i + length sub \<le> length s \<and> sub \<noteq> []"
  moreover from this have "0 < length sub" by simp
  ultimately have "i < length s" by linarith
  then show "((s, sub, Suc i), s, sub, i) \<in> measure (\<lambda>(s, sub, i). length s - i)" by simp
qed

declare index_from.simps [simp del]

definition indexOfStore :: "string \<Rightarrow> string \<Rightarrow> int" where
  "indexOfStore s sub = (if length sub = 0 then 0 else index_from s sub 0)"

definition substringContains :: "string \<Rightarrow> string \<Rightarrow> bool" where
  "substringContains haystack needle = (0 \<le> indexOfStore haystack needle)"

definition keyIn :: "string \<Rightarrow> string list \<Rightarrow> bool" where
  "keyIn key keys = list_ex (\<lambda>k. k = key) keys"

lemma keyIn_iff [simp]: "keyIn k ks \<longleftrightarrow> k \<in> set ks"
  by (auto simp: keyIn_def list_ex_iff)

definition occurs_at :: "string \<Rightarrow> string \<Rightarrow> nat \<Rightarrow> bool" where
  "occurs_at s sub i \<longleftrightarrow> take (length sub) (drop i s) = sub"

lemma occurs_at_bound: "occurs_at s sub i \<Longrightarrow> sub \<noteq> [] \<Longrightarrow> i + length sub \<le> length s"
proof -
  assume "occurs_at s sub i" and "sub \<noteq> []"
  then have "length (take (length sub) (drop i s)) = length sub" by (simp add: occurs_at_def)
  with \<open>sub \<noteq> []\<close> show ?thesis by (cases sub) auto
qed

lemma index_from_correct:
  assumes "sub \<noteq> []"
  shows "(\<exists>j \<ge> i. occurs_at s sub j \<and> index_from s sub i = int j \<and> (\<forall>k. i \<le> k \<and> k < j \<longrightarrow> \<not> occurs_at s sub k))
       \<or> (index_from s sub i = -1 \<and> (\<forall>k \<ge> i. \<not> occurs_at s sub k))"
  using assms
proof (induction s sub i rule: index_from.induct)
  case (1 s sub i)
  show ?case
  proof (cases "i + length sub \<le> length s")
    case False
    then have "\<not> occurs_at s sub k" if "i \<le> k" for k
      using occurs_at_bound [of s sub k] "1.prems" that by linarith
    with False show ?thesis by (simp add: index_from.simps [of s sub i])
  next
    case True
    show ?thesis
    proof (cases "occurs_at s sub i")
      case True
      with \<open>i + length sub \<le> length s\<close> "1.prems" show ?thesis
        by (auto simp: index_from.simps [of s sub i] occurs_at_def)
    next
      case no: False
      with True "1.prems" have eq: "index_from s sub i = index_from s sub (Suc i)"
        by (simp add: index_from.simps [of s sub i] occurs_at_def)
      have "i + length sub \<le> length s \<and> sub \<noteq> []" using True "1.prems" by simp
      moreover have "take (length sub) (drop i s) \<noteq> sub" using no by (simp add: occurs_at_def)
      ultimately consider
          (hit) j where "Suc i \<le> j" "occurs_at s sub j" "index_from s sub (Suc i) = int j"
            "\<forall>k. Suc i \<le> k \<and> k < j \<longrightarrow> \<not> occurs_at s sub k"
        | (miss) "index_from s sub (Suc i) = -1" "\<forall>k \<ge> Suc i. \<not> occurs_at s sub k"
        using "1.IH" "1.prems" by blast
      then show ?thesis
      proof cases
        case hit
        then have "\<not> occurs_at s sub k" if "i \<le> k" "k < j" for k
          using no that by (cases "k = i") auto
        with hit show ?thesis unfolding eq by (intro disjI1 exI [of _ j]) auto
      next
        case miss
        then have "\<not> occurs_at s sub k" if "i \<le> k" for k
          using no that by (cases "k = i") auto
        with miss show ?thesis unfolding eq by blast
      qed
    qed
  qed
qed

lemma occurs_at_sublist: "(\<exists>i. occurs_at s sub i) \<longleftrightarrow> sublist sub s"
proof
  assume "\<exists>i. occurs_at s sub i"
  then obtain i where "take (length sub) (drop i s) = sub" by (auto simp: occurs_at_def)
  then show "sublist sub s" by (metis append_take_drop_id sublist_appendI)
next
  assume "sublist sub s"
  then obtain u v where "s = u @ sub @ v" by (auto simp: sublist_def)
  then have "occurs_at s sub (length u)" by (simp add: occurs_at_def)
  then show "\<exists>i. occurs_at s sub i" by blast
qed

lemma substringContains_iff: "substringContains s sub \<longleftrightarrow> str_contains s sub"
proof (cases "sub = []")
  case True
  then show ?thesis by (simp add: substringContains_def indexOfStore_def str_contains_def)
next
  case False
  with index_from_correct [of sub 0 s] show ?thesis
    by (auto simp: substringContains_def indexOfStore_def str_contains_def simp flip: occurs_at_sublist)
qed

text \<open>The store's hand-written search loop is the library's substring test: it answers with
  the least position at which the needle occurs, with -1 when it occurs nowhere, and so
  \<open>substringContains\<close> is exactly "the needle is a contiguous block of the haystack".\<close>

theorem index_of_store_least:
  "(indexOfStore s sub = -1 \<longleftrightarrow> \<not> str_contains s sub) \<and>
   (0 \<le> indexOfStore s sub \<longleftrightarrow> str_contains s sub) \<and>
   (str_contains s sub \<longrightarrow>
      take (length sub) (drop (nat (indexOfStore s sub)) s) = sub \<and>
      (\<forall>k < nat (indexOfStore s sub). take (length sub) (drop k s) \<noteq> sub))"
proof (cases "sub = []")
  case True
  then show ?thesis by (simp add: indexOfStore_def str_contains_def)
next
  case False
  then have "indexOfStore s sub = index_from s sub 0" by (simp add: indexOfStore_def)
  with index_from_correct [OF False, of 0 s] show ?thesis
    by (auto simp: str_contains_def occurs_at_def simp flip: occurs_at_sublist)
qed

theorem index_of_store_least_witness:
  "indexOfStore ''abcabc'' ''ca'' = 2 \<and> take 2 (drop 2 ''abcabc'') = ''ca''"
proof -
  have i: "indexOfStore ''abcabc'' ''ca'' = 2" by code_simp
  have "str_contains ''abcabc'' ''ca''" using index_of_store_least [of "''abcabc''" "''ca''"] i by simp
  with index_of_store_least [of "''abcabc''" "''ca''"] i show ?thesis by simp
qed

section \<open>Map iteration orders\<close>

typedef map_order = "{f :: string list \<Rightarrow> string list. \<forall>xs. mset (f xs) = mset xs}"
  morphisms iterate Abs_map_order
  by (rule exI [of _ "\<lambda>xs. xs"]) simp

setup_lifting type_definition_map_order

lift_definition insertion_order :: map_order is "\<lambda>xs. xs" by simp

lift_definition reverse_order :: map_order is rev by simp

declare insertion_order.rep_eq [simp] reverse_order.rep_eq [simp]

lemma mset_iterate [simp]: "mset (iterate ord xs) = mset xs"
  using iterate [of ord] by simp

lemma set_iterate [simp]: "set (iterate ord xs) = set xs"
  by (metis mset_iterate set_mset_mset)

lemma length_iterate [simp]: "length (iterate ord xs) = length xs"
  by (metis mset_iterate size_mset)

lemma iterate_Nil [simp]: "iterate ord [] = []"
  by (metis length_0_conv length_iterate)

type_synonym 'v gomap = "(string \<times> 'v) list"

definition wf_map :: "'v gomap \<Rightarrow> bool" where
  "wf_map m = distinct (map fst m)"

text \<open>\<open>for _, v := range m\<close>.\<close>

definition range_map :: "map_order \<Rightarrow> 'v gomap \<Rightarrow> 'v list" where
  "range_map ord m = List.map_filter (map_of m) (iterate ord (map fst m))"

text \<open>The values of a finite map, each as often as it is stored: what every full scan returns,
  in some order.\<close>

definition stored :: "(string \<rightharpoonup> 'v) \<Rightarrow> 'v multiset" where
  "stored m = image_mset (\<lambda>k. the (m k)) (mset_set (dom m))"

lemma mset_map_filter:
  "mset xs = mset ys \<Longrightarrow> mset (List.map_filter f xs) = mset (List.map_filter f ys)"
  by (simp add: map_filter_def mset_filter)

lemma map_filter_Some: "\<forall>x \<in> set xs. f x = Some (g x) \<Longrightarrow> List.map_filter f xs = map g xs"
  by (induction xs) (auto simp: map_filter_simps)

lemma map_the_map_of: "wf_map m \<Longrightarrow> map (\<lambda>k. the (map_of m k)) (map fst m) = map snd m"
  by (auto simp: wf_map_def)

lemma map_filter_map_of: "wf_map m \<Longrightarrow> List.map_filter (map_of m) (map fst m) = map snd m"
proof -
  assume wf: "wf_map m"
  have "\<forall>k \<in> set (map fst m). map_of m k = Some (the (map_of m k))"
    by (auto simp: map_of_eq_None_iff)
  from map_filter_Some [OF this] map_the_map_of [OF wf] show ?thesis by simp
qed

lemma mset_range_map: "wf_map m \<Longrightarrow> mset (range_map ord m) = mset (map snd m)"
  using mset_map_filter [OF mset_iterate [of ord "map fst m"], of "map_of m"]
  by (simp add: range_map_def map_filter_map_of)

lemma stored_map_of: "wf_map m \<Longrightarrow> stored (map_of m) = mset (map snd m)"
proof -
  assume wf: "wf_map m"
  then have "mset_set (dom (map_of m)) = mset (map fst m)"
    by (simp add: wf_map_def dom_map_of_conv_image_fst mset_set_set flip: set_map)
  then have "stored (map_of m) = mset (map (\<lambda>k. the (map_of m k)) (map fst m))"
    by (simp add: stored_def multiset.map_comp comp_def)
  then show ?thesis by (simp only: map_the_map_of [OF wf])
qed

lemma set_stored: "finite (dom m) \<Longrightarrow> set_mset (stored m) = ran m"
  by (auto simp: stored_def ran_def) force+

lemma wf_map_update: "wf_map m \<Longrightarrow> wf_map (AList.update k v m)"
  unfolding wf_map_def by (rule distinct_update)

lemma wf_map_delete: "wf_map m \<Longrightarrow> wf_map (AList.delete k m)"
  unfolding wf_map_def by (rule distinct_delete)

lemmas gomap_simps = update_conv' delete_conv' wf_map_update wf_map_delete

section \<open>The interface\<close>

text \<open>The method table of a \<open>MemoryStore\<close> interface value. \<open>ms_Get\<close> returns \<open>None\<close> for Go's
  \<open>(zero entry, false)\<close>; \<open>ms_AllByIndex\<close> lists the (index name, entries) pairs of the map.\<close>

record 's memory_store_ops =
  ms_Put :: "string \<Rightarrow> entry \<Rightarrow> 's \<Rightarrow> 's"
  ms_Get :: "string \<Rightarrow> 's \<Rightarrow> entry option"
  ms_Delete :: "string \<Rightarrow> 's \<Rightarrow> 's"
  ms_Scan :: "string \<Rightarrow> 's \<Rightarrow> entry list"
  ms_ScanScoped :: "string \<Rightarrow> string list \<Rightarrow> 's \<Rightarrow> entry list"
  ms_All :: "'s \<Rightarrow> entry list"
  ms_AllByIndex :: "'s \<Rightarrow> entry list gomap"

definition primaryIndexName :: string where
  "primaryIndexName = ''primary''"

text \<open>What the guard relies on. \<open>abs\<close> is the abstract content of a backing, a finite map from
  ids to entries; \<open>inv\<close> is the backing's own consistency. Scans return the matching entries,
  each exactly as often as it is stored and in any order; every named index holds copies of
  stored contents only, and the primary index holds them all. \<open>ok\<close> says which entries the backing
  can hold: only for those does a put keep the contract.\<close>

locale bounded_store =
  fixes ops :: "'s memory_store_ops"
    and abs :: "'s \<Rightarrow> (string \<rightharpoonup> entry)"
    and inv :: "'s \<Rightarrow> bool"
    and ok :: "string \<Rightarrow> entry \<Rightarrow> bool"
  assumes finite_abs: "inv s \<Longrightarrow> finite (dom (abs s))"
    and get_abs: "inv s \<Longrightarrow> ms_Get ops i s = abs s i"
    and put_inv: "inv s \<Longrightarrow> ok i e \<Longrightarrow> inv (ms_Put ops i e s)"
    and put_abs: "inv s \<Longrightarrow> ok i e \<Longrightarrow> abs (ms_Put ops i e s) = (abs s)(i \<mapsto> e)"
    and delete_inv: "inv s \<Longrightarrow> inv (ms_Delete ops i s)"
    and delete_abs: "inv s \<Longrightarrow> abs (ms_Delete ops i s) = (abs s)(i := None)"
    and scan_abs: "inv s \<Longrightarrow>
      mset (ms_Scan ops q s) = filter_mset (\<lambda>e. str_contains (e_content e) q) (stored (abs s))"
    and scoped_abs: "inv s \<Longrightarrow>
      mset (ms_ScanScoped ops q ks s) =
      filter_mset (\<lambda>e. str_contains (e_content e) q \<and> e_boundIdentity e \<in> set ks) (stored (abs s))"
    and all_abs: "inv s \<Longrightarrow> mset (ms_All ops s) = stored (abs s)"
    and index_wf: "inv s \<Longrightarrow> wf_map (ms_AllByIndex ops s)"
    and index_primary: "inv s \<Longrightarrow>
      \<exists>es. map_of (ms_AllByIndex ops s) primaryIndexName = Some es \<and> mset es = stored (abs s)"
    and index_contents: "inv s \<Longrightarrow> (n, es) \<in> set (ms_AllByIndex ops s) \<Longrightarrow>
      mset (map e_content es) = image_mset e_content (stored (abs s))"
begin

lemma set_scoped:
  "inv s \<Longrightarrow> set (ms_ScanScoped ops q ks s) =
     {e \<in> ran (abs s). str_contains (e_content e) q \<and> e_boundIdentity e \<in> set ks}"
  using arg_cong [OF scoped_abs [of s q ks], of set_mset] set_stored [OF finite_abs [of s]] by auto

lemma set_all: "inv s \<Longrightarrow> set (ms_All ops s) = ran (abs s)"
  using arg_cong [OF all_abs [of s], of set_mset] set_stored [OF finite_abs [of s]] by auto

lemma scoped_empty: "inv s \<Longrightarrow> ms_ScanScoped ops q [] s = []"
  using set_scoped [of s q "[]"] by simp

lemma get_put:
  "inv s \<Longrightarrow> ok i e \<Longrightarrow> ms_Get ops j (ms_Put ops i e s) = (if j = i then Some e else ms_Get ops j s)"
  by (simp add: get_abs put_inv put_abs)

lemma get_delete: "inv s \<Longrightarrow> ms_Get ops j (ms_Delete ops i s) = (if j = i then None else ms_Get ops j s)"
  by (simp add: get_abs delete_inv delete_abs)

text \<open>Absence from every index: after a delete, a content is held by some index only if another
  stored entry carries it.\<close>

lemma index_content_live:
  assumes "inv s" and "(n, es) \<in> set (ms_AllByIndex ops s)" and "e \<in> set es"
  shows "\<exists>j e'. abs s j = Some e' \<and> e_content e' = e_content e"
proof -
  from assms(3) have "e_content e \<in># mset (map e_content es)" by simp
  with index_contents [OF assms(1,2)] have "e_content e \<in> e_content ` ran (abs s)"
    using set_stored [OF finite_abs [OF assms(1)]] by auto
  then obtain e' where "e' \<in> ran (abs s)" and "e_content e' = e_content e" by auto
  then show ?thesis unfolding ran_def by blast
qed

lemma delete_purges_indexes:
  assumes "inv s" and "(n, es) \<in> set (ms_AllByIndex ops (ms_Delete ops i s))" and "e \<in> set es"
  shows "\<exists>j e'. j \<noteq> i \<and> abs s j = Some e' \<and> e_content e' = e_content e"
  using index_content_live [OF delete_inv [OF assms(1)] assms(2,3)]
  by (auto simp: delete_abs [OF assms(1)] split: if_splits)

end

text \<open>A backing in memory can hold any entry.\<close>

locale memory_store = bounded_store ops abs inv "\<lambda>_ _. True"
  for ops :: "'s memory_store_ops" and abs and inv

section \<open>InMemoryStore\<close>

type_synonym in_memory_store = "entry gomap"

definition NewInMemoryStore :: in_memory_store where
  "NewInMemoryStore = []"

definition im_Put :: "string \<Rightarrow> entry \<Rightarrow> in_memory_store \<Rightarrow> in_memory_store" where
  "im_Put i e s = AList.update i e s"

definition im_Get :: "string \<Rightarrow> in_memory_store \<Rightarrow> entry option" where
  "im_Get i s = map_of s i"

definition im_Delete :: "string \<Rightarrow> in_memory_store \<Rightarrow> in_memory_store" where
  "im_Delete i s = AList.delete i s"

definition im_Scan :: "map_order \<Rightarrow> string \<Rightarrow> in_memory_store \<Rightarrow> entry list" where
  "im_Scan ord q s = filter (\<lambda>e. substringContains (e_content e) q) (range_map ord s)"

definition im_ScanScoped :: "map_order \<Rightarrow> string \<Rightarrow> string list \<Rightarrow> in_memory_store \<Rightarrow> entry list" where
  "im_ScanScoped ord q ks s =
     filter (\<lambda>e. substringContains (e_content e) q \<and> keyIn (e_boundIdentity e) ks) (range_map ord s)"

definition im_All :: "map_order \<Rightarrow> in_memory_store \<Rightarrow> entry list" where
  "im_All ord s = range_map ord s"

definition im_AllByIndex :: "map_order \<Rightarrow> in_memory_store \<Rightarrow> entry list gomap" where
  "im_AllByIndex ord s = [(primaryIndexName, im_All ord s)]"

definition in_memory_ops :: "map_order \<Rightarrow> in_memory_store memory_store_ops" where
  "in_memory_ops ord =
     \<lparr>ms_Put = im_Put, ms_Get = im_Get, ms_Delete = im_Delete, ms_Scan = im_Scan ord,
      ms_ScanScoped = im_ScanScoped ord, ms_All = im_All ord, ms_AllByIndex = im_AllByIndex ord\<rparr>"

lemmas im_defs = in_memory_ops_def im_Put_def im_Get_def im_Delete_def im_Scan_def
  im_ScanScoped_def im_All_def im_AllByIndex_def

interpretation im: memory_store "in_memory_ops ord" map_of wf_map for ord
  by unfold_locales
    (auto simp: im_defs gomap_simps finite_dom_map_of mset_range_map stored_map_of
       substringContains_iff mset_filter wf_map_def [of "[_]"])

section \<open>TwoIndexStore\<close>

text \<open>A primary map and a content-keyed index: content to the set of ids holding it. A set of ids
  is a list without repetitions, inserted into and removed from as Go's \<open>map[string]struct{}\<close>.\<close>

record two_index_store =
  ts_primary :: "entry gomap"
  ts_byContent :: "string list gomap"

definition NewTwoIndexStore :: two_index_store where
  "NewTwoIndexStore = \<lparr>ts_primary = [], ts_byContent = []\<rparr>"

definition unindexContent :: "string \<Rightarrow> string \<Rightarrow> two_index_store \<Rightarrow> two_index_store" where
  "unindexContent content i s =
     (case map_of (ts_byContent s) content of
        None \<Rightarrow> s
      | Some ids \<Rightarrow>
          (let ids' = removeAll i ids in
           if length ids' = 0 then s\<lparr>ts_byContent := AList.delete content (ts_byContent s)\<rparr>
           else s\<lparr>ts_byContent := AList.update content ids' (ts_byContent s)\<rparr>))"

definition ts_Put :: "string \<Rightarrow> entry \<Rightarrow> two_index_store \<Rightarrow> two_index_store" where
  "ts_Put i e s =
     (let s1 = (case map_of (ts_primary s) i of
                  Some old \<Rightarrow> unindexContent (e_content old) i s
                | None \<Rightarrow> s);
          s2 = s1\<lparr>ts_primary := AList.update i e (ts_primary s1)\<rparr>;
          ids = (case map_of (ts_byContent s2) (e_content e) of None \<Rightarrow> [] | Some ids \<Rightarrow> ids)
      in s2\<lparr>ts_byContent := AList.update (e_content e) (List.insert i ids) (ts_byContent s2)\<rparr>)"

definition ts_Get :: "string \<Rightarrow> two_index_store \<Rightarrow> entry option" where
  "ts_Get i s = map_of (ts_primary s) i"

definition ts_Delete :: "string \<Rightarrow> two_index_store \<Rightarrow> two_index_store" where
  "ts_Delete i s =
     (case map_of (ts_primary s) i of
        None \<Rightarrow> s
      | Some e \<Rightarrow> unindexContent (e_content e) i (s\<lparr>ts_primary := AList.delete i (ts_primary s)\<rparr>))"

definition ts_Scan :: "map_order \<Rightarrow> string \<Rightarrow> two_index_store \<Rightarrow> entry list" where
  "ts_Scan ord q s = filter (\<lambda>e. substringContains (e_content e) q) (range_map ord (ts_primary s))"

definition ts_ScanScoped :: "map_order \<Rightarrow> string \<Rightarrow> string list \<Rightarrow> two_index_store \<Rightarrow> entry list" where
  "ts_ScanScoped ord q ks s =
     filter (\<lambda>e. substringContains (e_content e) q \<and> keyIn (e_boundIdentity e) ks)
       (range_map ord (ts_primary s))"

definition ts_All :: "map_order \<Rightarrow> two_index_store \<Rightarrow> entry list" where
  "ts_All ord s = range_map ord (ts_primary s)"

text \<open>An id the primary no longer holds still contributes the stale content it is indexed under.\<close>

definition ts_secondary :: "map_order \<Rightarrow> two_index_store \<Rightarrow> entry list" where
  "ts_secondary ord s =
     concat (map (\<lambda>content.
       map (\<lambda>i. case map_of (ts_primary s) i of
                  Some e \<Rightarrow> e
                | None \<Rightarrow> zero_entry\<lparr>e_content := content\<rparr>)
         (iterate ord (case map_of (ts_byContent s) content of None \<Rightarrow> [] | Some ids \<Rightarrow> ids)))
       (iterate ord (map fst (ts_byContent s))))"

definition secondaryIndexName :: string where
  "secondaryIndexName = ''secondary-content-index''"

definition ts_AllByIndex :: "map_order \<Rightarrow> two_index_store \<Rightarrow> entry list gomap" where
  "ts_AllByIndex ord s = [(primaryIndexName, ts_All ord s), (secondaryIndexName, ts_secondary ord s)]"

definition two_index_ops :: "map_order \<Rightarrow> two_index_store memory_store_ops" where
  "two_index_ops ord =
     \<lparr>ms_Put = ts_Put, ms_Get = ts_Get, ms_Delete = ts_Delete, ms_Scan = ts_Scan ord,
      ms_ScanScoped = ts_ScanScoped ord, ms_All = ts_All ord, ms_AllByIndex = ts_AllByIndex ord\<rparr>"

lemmas ts_defs = two_index_ops_def ts_Get_def ts_Scan_def ts_ScanScoped_def ts_All_def ts_AllByIndex_def

subsection \<open>The two indexes agree\<close>

definition ids_for :: "two_index_store \<Rightarrow> string \<Rightarrow> string list" where
  "ids_for s c = (case map_of (ts_byContent s) c of None \<Rightarrow> [] | Some ids \<Rightarrow> ids)"

definition holders :: "(string \<rightharpoonup> entry) \<Rightarrow> string \<Rightarrow> string set" where
  "holders m c = {i. \<exists>e. m i = Some e \<and> e_content e = c}"

text \<open>The content index lists, for every content, exactly the ids whose primary entry has it, and
  no content without an id.\<close>

definition two_index_inv :: "two_index_store \<Rightarrow> bool" where
  "two_index_inv s \<longleftrightarrow>
     wf_map (ts_primary s) \<and> wf_map (ts_byContent s) \<and>
     [] \<notin> ran (map_of (ts_byContent s)) \<and>
     (\<forall>c. distinct (ids_for s c) \<and> set (ids_for s c) = holders (map_of (ts_primary s)) c)"

lemma NewTwoIndexStore_inv: "two_index_inv NewTwoIndexStore"
  by (simp add: two_index_inv_def NewTwoIndexStore_def wf_map_def ids_for_def holders_def)

lemma unindex_primary [simp]: "ts_primary (unindexContent c i s) = ts_primary s"
  by (simp add: unindexContent_def Let_def split: option.split)

lemma unindex_ids:
  "ids_for (unindexContent c i s) d = (if d = c then removeAll i (ids_for s c) else ids_for s d)"
  by (auto simp: unindexContent_def ids_for_def Let_def gomap_simps split: option.split)

lemma unindex_wf: "wf_map (ts_byContent s) \<Longrightarrow> wf_map (ts_byContent (unindexContent c i s))"
  by (simp add: unindexContent_def Let_def gomap_simps split: option.split)

lemma unindex_no_empty:
  "[] \<notin> ran (map_of (ts_byContent s)) \<Longrightarrow> [] \<notin> ran (map_of (ts_byContent (unindexContent c i s)))"
  by (auto simp: unindexContent_def Let_def gomap_simps ran_def split: option.split if_splits)

lemma ts_Delete_inv: "two_index_inv s \<Longrightarrow> two_index_inv (ts_Delete i s)"
proof (cases "map_of (ts_primary s) i")
  case None
  then show "two_index_inv s \<Longrightarrow> ?thesis" by (simp add: ts_Delete_def)
next
  case (Some e)
  assume inv: "two_index_inv s"
  let ?s = "s\<lparr>ts_primary := AList.delete i (ts_primary s)\<rparr>"
  have ids: "ids_for ?s c = ids_for s c" for c by (simp add: ids_for_def)
  from Some inv show ?thesis
    by (auto simp: two_index_inv_def ts_Delete_def unindex_ids unindex_wf unindex_no_empty ids gomap_simps
        distinct_removeAll holders_def)
qed

lemma ts_Put_inv: "two_index_inv s \<Longrightarrow> two_index_inv (ts_Put i e s)"
proof -
  assume inv: "two_index_inv s"
  define s1 where "s1 = (case map_of (ts_primary s) i of
      Some old \<Rightarrow> unindexContent (e_content old) i s | None \<Rightarrow> s)"
  have prim: "ts_primary s1 = ts_primary s" by (simp add: s1_def split: option.split)
  have ids1: "distinct (ids_for s1 c) \<and> set (ids_for s1 c) = holders (map_of (ts_primary s)) c - {i}" for c
    using inv by (auto simp: s1_def two_index_inv_def unindex_ids distinct_removeAll holders_def split: option.split)
  have wf1: "wf_map (ts_byContent s1)" "[] \<notin> ran (map_of (ts_byContent s1))"
    using inv by (auto simp: s1_def two_index_inv_def unindex_wf unindex_no_empty split: option.split)
  have put: "ts_Put i e s = s1\<lparr>ts_primary := AList.update i e (ts_primary s),
      ts_byContent := AList.update (e_content e) (List.insert i (ids_for s1 (e_content e))) (ts_byContent s1)\<rparr>"
    by (simp add: ts_Put_def Let_def ids_for_def prim flip: s1_def)
  have idsp: "ids_for (ts_Put i e s) c =
      (if c = e_content e then List.insert i (ids_for s1 c) else ids_for s1 c)" for c
    by (simp add: put ids_for_def gomap_simps)
  have prim_put: "map_of (ts_primary (ts_Put i e s)) = (map_of (ts_primary s))(i \<mapsto> e)"
    by (simp add: put gomap_simps)
  show ?thesis
    unfolding two_index_inv_def
  proof (intro conjI allI)
    show "wf_map (ts_primary (ts_Put i e s))"
      using inv by (simp add: put two_index_inv_def gomap_simps)
    show "wf_map (ts_byContent (ts_Put i e s))" using wf1 by (simp add: put gomap_simps)
    have "ran (map_of (ts_byContent (ts_Put i e s))) \<subseteq>
        insert (List.insert i (ids_for s1 (e_content e))) (ran (map_of (ts_byContent s1)))"
      by (auto simp: put gomap_simps ran_def split: if_splits)
    moreover have "List.insert i (ids_for s1 (e_content e)) \<noteq> []"
      by (metis List.set_insert empty_iff insertI1 list.set(1))
    ultimately show "[] \<notin> ran (map_of (ts_byContent (ts_Put i e s)))" using wf1 by auto
    fix c
    show "distinct (ids_for (ts_Put i e s) c)" using ids1 by (simp add: idsp)
    show "set (ids_for (ts_Put i e s) c) = holders (map_of (ts_primary (ts_Put i e s))) c"
      unfolding idsp prim_put using ids1 [of c] by (auto simp: holders_def)
  qed
qed

subsection \<open>The secondary index holds the stored contents\<close>

lemma two_index_ids:
  assumes "two_index_inv s"
  defines "cs \<equiv> map fst (ts_byContent s)"
  shows "mset (concat (map (ids_for s) cs)) = mset_set (dom (map_of (ts_primary s)))"
proof -
  from assms(1) have wf: "distinct cs"
    and ids: "\<And>c. distinct (ids_for s c)" "\<And>c. set (ids_for s c) = holders (map_of (ts_primary s)) c"
    by (auto simp: two_index_inv_def wf_map_def cs_def)
  have nonempty: "ids_for s c \<noteq> []" if "c \<in> set cs" for c
  proof -
    from that obtain v where "map_of (ts_byContent s) c = Some v"
      unfolding cs_def by (metis dom_map_of_conv_image_fst domD list.set_map)
    with assms(1) show ?thesis by (auto simp: ids_for_def two_index_inv_def ran_def)
  qed
  have disj: "c = d" if "i \<in> set (ids_for s c)" "i \<in> set (ids_for s d)" for c d i
    using that by (auto simp: ids holders_def)
  have "inj_on (ids_for s) (set cs)"
  proof (rule inj_onI)
    fix c d assume "c \<in> set cs" "d \<in> set cs" "ids_for s c = ids_for s d"
    moreover from nonempty [OF this(1)] obtain i where "i \<in> set (ids_for s c)" by (meson last_in_set)
    ultimately show "c = d" using disj by metis
  qed
  then have "distinct (map (ids_for s) cs)" using wf by (simp add: distinct_map)
  moreover have "set ys \<inter> set zs = {}"
    if "ys \<in> set (map (ids_for s) cs)" "zs \<in> set (map (ids_for s) cs)" "ys \<noteq> zs" for ys zs
  proof -
    from that(1,2) obtain c d where yz: "ys = ids_for s c" "zs = ids_for s d" by auto
    with that(3) have "c \<noteq> d" by blast
    with disj show ?thesis unfolding yz by blast
  qed
  ultimately have "distinct (concat (map (ids_for s) cs))"
    using ids(1) by (intro distinct_concat) auto
  moreover have "set (concat (map (ids_for s) cs)) = dom (map_of (ts_primary s))"
  proof (intro equalityI subsetI)
    fix i assume "i \<in> set (concat (map (ids_for s) cs))"
    then show "i \<in> dom (map_of (ts_primary s))" by (auto simp: ids holders_def)
  next
    fix i assume "i \<in> dom (map_of (ts_primary s))"
    then obtain e where "map_of (ts_primary s) i = Some e" by blast
    then have i: "i \<in> set (ids_for s (e_content e))" by (auto simp: ids holders_def)
    then have "map_of (ts_byContent s) (e_content e) \<noteq> None"
      by (cases "map_of (ts_byContent s) (e_content e)") (simp_all add: ids_for_def)
    then have "e_content e \<in> set cs" by (simp add: cs_def map_of_eq_None_iff)
    with i show "i \<in> set (concat (map (ids_for s) cs))" by auto
  qed
  ultimately show ?thesis by (metis mset_set_set)
qed

lemma mset_concat_map_cong:
  "mset xs = mset ys \<Longrightarrow> (\<And>x. mset (f x) = mset (g x)) \<Longrightarrow> mset (concat (map f xs)) = mset (concat (map g ys))"
proof -
  assume "mset xs = mset ys" and eq: "\<And>x. mset (f x) = mset (g x)"
  moreover have "mset (concat (map h zs)) = sum_mset (image_mset (\<lambda>x. mset (h x)) (mset zs))" for h :: "'a \<Rightarrow> 'b list" and zs
    by (induction zs) auto
  ultimately show ?thesis by simp
qed

lemma ts_secondary_stored:
  assumes "two_index_inv s"
  shows "mset (ts_secondary ord s) = stored (map_of (ts_primary s))"
proof -
  let ?P = "map_of (ts_primary s)" and ?cs = "map fst (ts_byContent s)"
  have at: "(case ?P i of Some e \<Rightarrow> e | None \<Rightarrow> zero_entry\<lparr>e_content := c\<rparr>) = the (?P i)"
    if "i \<in> set (ids_for s c)" for i c
    using assms that by (auto simp: two_index_inv_def holders_def)
  have "ts_secondary ord s = concat (map (\<lambda>c. map (\<lambda>i. the (?P i)) (iterate ord (ids_for s c))) (iterate ord ?cs))"
    unfolding ts_secondary_def ids_for_def [symmetric]
    by (intro arg_cong [where f = concat] map_cong refl) (simp add: at)
  also have "mset \<dots> = mset (concat (map (\<lambda>c. map (\<lambda>i. the (?P i)) (ids_for s c)) ?cs))"
    by (rule mset_concat_map_cong) simp_all
  also have "\<dots> = image_mset (\<lambda>i. the (?P i)) (mset (concat (map (ids_for s) ?cs)))"
    by (simp add: map_concat comp_def flip: mset_map)
  finally show ?thesis using two_index_ids [OF assms] by (simp add: stored_def)
qed

interpretation ts: memory_store "two_index_ops ord" "\<lambda>s. map_of (ts_primary s)" two_index_inv for ord
proof
  fix s :: two_index_store and i q :: string and e :: entry and ks :: "string list"
  assume inv: "two_index_inv s"
  then have wf: "wf_map (ts_primary s)" by (simp add: two_index_inv_def)
  note store = wf ts_defs mset_range_map stored_map_of substringContains_iff mset_filter
  show "two_index_inv (ms_Put (two_index_ops ord) i e s)" using inv by (simp add: ts_defs ts_Put_inv)
  show "two_index_inv (ms_Delete (two_index_ops ord) i s)" using inv by (simp add: ts_defs ts_Delete_inv)
  show "map_of (ts_primary (ms_Put (two_index_ops ord) i e s)) = (map_of (ts_primary s))(i \<mapsto> e)"
    by (simp add: ts_defs ts_Put_def Let_def gomap_simps split: option.split)
  show "map_of (ts_primary (ms_Delete (two_index_ops ord) i s)) = (map_of (ts_primary s))(i := None)"
    by (auto simp: ts_defs ts_Delete_def gomap_simps split: option.split)
  show "finite (dom (map_of (ts_primary s)))" by (rule finite_dom_map_of)
  show "ms_Get (two_index_ops ord) i s = map_of (ts_primary s) i" by (simp add: ts_defs)
  show "mset (ms_Scan (two_index_ops ord) q s) =
      filter_mset (\<lambda>e. str_contains (e_content e) q) (stored (map_of (ts_primary s)))"
    by (simp add: store)
  show "mset (ms_ScanScoped (two_index_ops ord) q ks s) =
      filter_mset (\<lambda>e. str_contains (e_content e) q \<and> e_boundIdentity e \<in> set ks) (stored (map_of (ts_primary s)))"
    by (simp add: store)
  show "mset (ms_All (two_index_ops ord) s) = stored (map_of (ts_primary s))" by (simp add: store)
  show "wf_map (ms_AllByIndex (two_index_ops ord) s)"
    by (simp add: ts_defs wf_map_def primaryIndexName_def secondaryIndexName_def)
  show "\<exists>es. map_of (ms_AllByIndex (two_index_ops ord) s) primaryIndexName = Some es \<and>
      mset es = stored (map_of (ts_primary s))"
    by (simp add: store)
  fix n es
  assume "(n, es) \<in> set (ms_AllByIndex (two_index_ops ord) s)"
  then have "mset es = stored (map_of (ts_primary s))"
    by (auto simp: ts_defs ts_secondary_stored [OF inv] mset_range_map [OF wf] stored_map_of [OF wf])
  then show "mset (map e_content es) = image_mset e_content (stored (map_of (ts_primary s)))" by simp
qed

section \<open>Sequences of store calls\<close>

datatype store_call = CPut string entry | CDelete string

primrec store_step :: "'s memory_store_ops \<Rightarrow> 's \<Rightarrow> store_call \<Rightarrow> 's" where
  "store_step ops s (CPut i e) = ms_Put ops i e s"
| "store_step ops s (CDelete i) = ms_Delete ops i s"

primrec spec_step :: "(string \<rightharpoonup> entry) \<Rightarrow> store_call \<Rightarrow> (string \<rightharpoonup> entry)" where
  "spec_step m (CPut i e) = m(i \<mapsto> e)"
| "spec_step m (CDelete i) = m(i := None)"

context memory_store
begin

lemma run_inv: "inv s \<Longrightarrow> inv (foldl (store_step ops) s cs)"
proof (induction cs arbitrary: s)
  case (Cons c cs)
  then show ?case by (cases c) (simp_all add: put_inv delete_inv)
qed simp

lemma run_abs: "inv s \<Longrightarrow> abs (foldl (store_step ops) s cs) = foldl spec_step (abs s) cs"
proof (induction cs arbitrary: s)
  case (Cons c cs)
  then show ?case by (cases c) (simp_all add: put_inv delete_inv put_abs delete_abs fun_upd_def)
qed simp

end

definition im_run :: "map_order \<Rightarrow> store_call list \<Rightarrow> in_memory_store" where
  "im_run ord cs = foldl (store_step (in_memory_ops ord)) NewInMemoryStore cs"

definition ts_run :: "map_order \<Rightarrow> store_call list \<Rightarrow> two_index_store" where
  "ts_run ord cs = foldl (store_step (two_index_ops ord)) NewTwoIndexStore cs"

lemma NewInMemoryStore_wf: "wf_map NewInMemoryStore"
  by (simp add: NewInMemoryStore_def wf_map_def)

lemma im_run_wf: "wf_map (im_run ord cs)"
  unfolding im_run_def by (rule im.run_inv [OF NewInMemoryStore_wf])

lemma ts_run_inv: "two_index_inv (ts_run ord cs)"
  unfolding ts_run_def by (rule ts.run_inv [OF NewTwoIndexStore_inv])

lemma runs_agree: "map_of (im_run o1 cs) = map_of (ts_primary (ts_run o2 cs))"
  using im.run_abs [OF NewInMemoryStore_wf, of o1 cs] ts.run_abs [OF NewTwoIndexStore_inv, of o2 cs]
  by (simp add: im_run_def ts_run_def NewInMemoryStore_def NewTwoIndexStore_def)

text \<open>C22: The two adapters are interchangeable behind the seam. Started empty and given the same
  calls, whatever order each of them iterates its maps in, they answer every Get alike and return
  the same entries, equally often, from Scan, ScanScoped and All.\<close>

theorem backings_agree:
  "im_Get i (im_run o1 cs) = ts_Get i (ts_run o2 cs) \<and>
   mset (im_Scan o1 q (im_run o1 cs)) = mset (ts_Scan o2 q (ts_run o2 cs)) \<and>
   mset (im_ScanScoped o1 q ks (im_run o1 cs)) = mset (ts_ScanScoped o2 q ks (ts_run o2 cs)) \<and>
   mset (im_All o1 (im_run o1 cs)) = mset (ts_All o2 (ts_run o2 cs))"
  using im.get_abs [OF im_run_wf, of o1 i o1 cs] im.scan_abs [OF im_run_wf, of o1 q o1 cs]
    im.scoped_abs [OF im_run_wf, of o1 q ks o1 cs] im.all_abs [OF im_run_wf, of o1 o1 cs]
    ts.get_abs [OF ts_run_inv, of o2 i o2 cs] ts.scan_abs [OF ts_run_inv, of o2 q o2 cs]
    ts.scoped_abs [OF ts_run_inv, of o2 q ks o2 cs] ts.all_abs [OF ts_run_inv, of o2 o2 cs]
  by (simp add: in_memory_ops_def two_index_ops_def runs_agree [of o1 cs o2])

text \<open>C25: A delete purges every copy. After any calls and a Delete of an id, a content that some
  index of the TwoIndexStore still exposes belongs to an entry stored under another id: the
  secondary index never keeps the deleted entry's content alive.\<close>

theorem two_index_delete_purges:
  assumes "(n, es) \<in> set (ts_AllByIndex ord (ts_Delete i (ts_run ord cs)))" and "e \<in> set es"
  shows "\<exists>j e'. j \<noteq> i \<and> ts_Get j (ts_run ord cs) = Some e' \<and> e_content e' = e_content e"
  using ts.delete_purges_indexes [OF ts_run_inv, of n es ord i ord cs e] assms
  by (simp add: two_index_ops_def ts_Get_def)

definition sample_entry :: "string \<Rightarrow> entry" where
  "sample_entry c = zero_entry\<lparr>e_content := c\<rparr>"

theorem two_index_delete_purges_witness:
  "\<exists>j e'. j \<noteq> ''a'' \<and>
     ts_Get j (ts_run insertion_order [CPut ''a'' (sample_entry ''x''), CPut ''b'' (sample_entry ''x'')])
       = Some e' \<and> e_content e' = ''x''"
proof -
  let ?cs = "[CPut ''a'' (sample_entry ''x''), CPut ''b'' (sample_entry ''x'')]"
  let ?s = "ts_run insertion_order ?cs"
  have "ts_AllByIndex insertion_order (ts_Delete ''a'' ?s) =
      [(primaryIndexName, [sample_entry ''x'']), (secondaryIndexName, [sample_entry ''x''])]"
    by (simp add: ts_run_def NewTwoIndexStore_def ts_defs ts_Put_def ts_Delete_def unindexContent_def
        sample_entry_def ts_secondary_def range_map_def map_filter_simps)
  then have "(primaryIndexName, [sample_entry ''x'']) \<in> set (ts_AllByIndex insertion_order (ts_Delete ''a'' ?s))"
    by simp
  from two_index_delete_purges [OF this, of "sample_entry ''x''"] show ?thesis
    by (simp add: sample_entry_def)
qed

end
