(* ===== verification/Glob.thy ===== *)
theory Glob
  imports Prelude
begin

text \<open>
  Go's \<open>path.Match\<close>, which the key policy uses to match operator patterns: \<open>*\<close> and \<open>?\<close> do not
  cross a slash, \<open>[..]\<close> is a rune class, a backslash escapes. A malformed pattern is the error
  ErrBadPattern, here \<open>None\<close>. The functions follow the package's own \<open>scanChunk\<close>,
  \<open>matchChunk\<close> and \<open>getEsc\<close>: after a mismatch the chunk is still read to its end, so that a
  malformed chunk is reported whatever the name.
\<close>

section \<open>Chunks\<close>

datatype chunk_result = BadPattern | NoMatch | Rest string

definition get_esc :: "string \<Rightarrow> (rune \<times> string) option" where
  "get_esc chunk =
     (case chunk of
        [] \<Rightarrow> None
      | c # cs \<Rightarrow>
          if c = CHR ''-'' \<or> c = CHR '']'' then None
          else (case (if c = CHR 0x5C then cs else c # cs) of
                  [] \<Rightarrow> None
                | d # ds \<Rightarrow>
                    (let (r, n) = decode_rune d ds; rest = drop n (d # ds) in
                     if (r = rune_error \<and> n = 1) \<or> rest = [] then None else Some (r, rest))))"

lemma decode_rune_pos: "decode_rune c s = (r, n) \<Longrightarrow> 0 < n"
  by (metis decode_rune_width_pos snd_conv)

lemma get_esc_shorter: "get_esc chunk = Some (r, rest) \<Longrightarrow> length rest < length chunk"
  by (auto simp: get_esc_def Let_def dest!: decode_rune_pos split: list.splits prod.splits if_splits)

text \<open>The range list of a class, after the bracket and an optional caret. \<open>r\<close> is the rune of
  the name, \<open>m\<close> whether a range matched so far, \<open>n\<close> the number of ranges read.\<close>

function parse_ranges :: "rune \<Rightarrow> bool \<Rightarrow> nat \<Rightarrow> string \<Rightarrow> (bool \<times> string) option" where
  "parse_ranges r m n chunk =
     (case chunk of
        c # cs \<Rightarrow>
          if c = CHR '']'' \<and> 0 < n then Some (m, cs)
          else (case get_esc chunk of
                  None \<Rightarrow> None
                | Some (lo, ch1) \<Rightarrow>
                    (case (if hd ch1 = CHR ''-'' then get_esc (tl ch1) else Some (lo, ch1)) of
                       None \<Rightarrow> None
                     | Some (hi, ch2) \<Rightarrow> parse_ranges r (m \<or> lo \<le> r \<and> r \<le> hi) (Suc n) ch2))
      | [] \<Rightarrow> None)"
  by pat_completeness auto
termination
  by (relation "measure (\<lambda>(r, m, n, chunk). length chunk)")
    (auto dest!: get_esc_shorter split: if_splits)

declare parse_ranges.simps [simp del]

lemma parse_ranges_Nil: "parse_ranges r m n [] = None"
  by (simp add: parse_ranges.simps)

lemma parse_ranges_Cons:
  "parse_ranges r m n (c # cs) =
     (if c = CHR '']'' \<and> 0 < n then Some (m, cs)
      else (case get_esc (c # cs) of
              None \<Rightarrow> None
            | Some (lo, ch1) \<Rightarrow>
                (case (if hd ch1 = CHR ''-'' then get_esc (tl ch1) else Some (lo, ch1)) of
                   None \<Rightarrow> None
                 | Some (hi, ch2) \<Rightarrow> parse_ranges r (m \<or> lo \<le> r \<and> r \<le> hi) (Suc n) ch2)))"
  by (subst parse_ranges.simps) simp

lemma parse_ranges_shorter: "parse_ranges r m n chunk = Some (b, rest) \<Longrightarrow> length rest < length chunk"
proof (induction r m n chunk rule: parse_ranges.induct)
  case (1 r m n chunk)
  from "1.prems" obtain c cs where chunk: "chunk = c # cs"
    by (cases chunk) (auto simp: parse_ranges_Nil)
  show ?case
  proof (cases "c = CHR '']'' \<and> 0 < n")
    case True
    with "1.prems" chunk show ?thesis by (simp add: parse_ranges_Cons)
  next
    case False
    with "1.prems" chunk obtain lo ch1 hi ch2 where
      esc: "get_esc chunk = Some (lo, ch1)"
      and hi: "(if hd ch1 = CHR ''-'' then get_esc (tl ch1) else Some (lo, ch1)) = Some (hi, ch2)"
      and rest: "parse_ranges r (m \<or> lo \<le> r \<and> r \<le> hi) (Suc n) ch2 = Some (b, rest)"
      by (auto simp: parse_ranges_Cons split: option.splits prod.splits)
    from "1.IH" [OF chunk False esc refl hi refl rest] have "length rest < length ch2" .
    moreover have "length ch2 \<le> length ch1" using hi by (auto dest: get_esc_shorter split: if_splits)
    moreover have "length ch1 < length chunk" using esc by (rule get_esc_shorter)
    ultimately show ?thesis by simp
  qed
qed

text \<open>Reading one byte or one rune of the name, unless the match has already failed.\<close>

definition lit_step :: "bool \<Rightarrow> char \<Rightarrow> string \<Rightarrow> bool \<times> string" where
  "lit_step failed d s =
     (case s of [] \<Rightarrow> (True, s) | x # xs \<Rightarrow> if failed then (True, s) else (d \<noteq> x, xs))"

definition any_step :: "bool \<Rightarrow> string \<Rightarrow> bool \<times> string" where
  "any_step failed s =
     (case s of
        [] \<Rightarrow> (True, s)
      | x # xs \<Rightarrow> if failed then (True, s) else (x = CHR ''/'', drop (snd (decode_rune x xs)) s))"

definition class_step :: "bool \<Rightarrow> string \<Rightarrow> bool \<times> rune \<times> string" where
  "class_step failed s =
     (case s of
        [] \<Rightarrow> (True, 0, s)
      | x # xs \<Rightarrow> if failed then (True, 0, s)
                 else (let (r, n) = decode_rune x xs in (False, r, drop n s)))"

definition negation :: "string \<Rightarrow> bool \<times> string" where
  "negation cs = (case cs of c # t \<Rightarrow> if c = CHR ''^'' then (True, t) else (False, cs) | [] \<Rightarrow> (False, cs))"

lemma negation_length: "(neg, cs') = negation cs \<Longrightarrow> length cs' \<le> length cs"
  by (auto simp: negation_def split: list.splits if_splits)

lemma negation_length_snd: "length (snd (negation cs)) \<le> length cs"
  using negation_length [of "fst (negation cs)" "snd (negation cs)" cs] by simp

function match_chunk :: "bool \<Rightarrow> string \<Rightarrow> string \<Rightarrow> chunk_result" where
  "match_chunk failed chunk s =
     (case chunk of
        [] \<Rightarrow> if failed then NoMatch else Rest s
      | c # cs \<Rightarrow>
          if c = CHR ''['' then
            (let (f, r, s') = class_step failed s in
             case parse_ranges r False 0 (snd (negation cs)) of
               None \<Rightarrow> BadPattern
             | Some (m, rest) \<Rightarrow> match_chunk (f \<or> m = fst (negation cs)) rest s')
          else if c = CHR ''?'' then
            (let (f, s') = any_step failed s in match_chunk f cs s')
          else if c = CHR 0x5C then
            (case cs of
               [] \<Rightarrow> BadPattern
             | d # ds \<Rightarrow> let (f, s') = lit_step failed d s in match_chunk f ds s')
          else (let (f, s') = lit_step failed c s in match_chunk f cs s'))"
  by pat_completeness auto
termination
  by (relation "measure (\<lambda>(failed, chunk, s). length chunk)")
    (auto dest!: parse_ranges_shorter intro: less_SucI less_le_trans [OF _ negation_length_snd])

declare match_chunk.simps [simp del]

text \<open>The next chunk of a pattern: whether stars precede it, its text up to the next star
  outside a class, and the rest of the pattern.\<close>

fun scan_body :: "bool \<Rightarrow> string \<Rightarrow> string \<times> string" where
  "scan_body inrange [] = ([], [])"
| "scan_body inrange (c # cs) =
     (if c = CHR 0x5C then
        let (a, b) = scan_body inrange (drop 1 cs) in (c # take 1 cs @ a, b)
      else if c = CHR ''['' then let (a, b) = scan_body True cs in (c # a, b)
      else if c = CHR '']'' then let (a, b) = scan_body False cs in (c # a, b)
      else if c = CHR ''*'' \<and> \<not> inrange then ([], c # cs)
      else let (a, b) = scan_body inrange cs in (c # a, b))"

definition scan_chunk :: "string \<Rightarrow> bool \<times> string \<times> string" where
  "scan_chunk pattern =
     (let p = dropWhile (\<lambda>c. c = CHR ''*'') pattern; (chunk, rest) = scan_body False p
      in (p \<noteq> pattern, chunk, rest))"

lemma take_drop_1: "drop 1 cs = x @ b \<Longrightarrow> cs = take 1 cs @ x @ b"
  by (metis append_take_drop_id)

lemma scan_body_append: "scan_body inr s = (a, b) \<Longrightarrow> s = a @ b"
  by (induction inr s arbitrary: a b rule: scan_body.induct)
    (auto simp del: One_nat_def split: prod.splits if_splits intro: take_drop_1)

lemma scan_body_progress: "s \<noteq> [] \<Longrightarrow> hd s \<noteq> CHR ''*'' \<Longrightarrow> fst (scan_body inr s) \<noteq> []"
  by (cases "(inr, s)" rule: scan_body.cases) (auto split: prod.splits)

lemma dropWhile_shorter: "s \<noteq> [] \<Longrightarrow> P (hd s) \<Longrightarrow> length (dropWhile P s) < length s"
  by (cases s) (auto simp: length_dropWhile_le le_imp_less_Suc)

lemma scan_chunk_shorter:
  assumes "pattern \<noteq> []" and "scan_chunk pattern = (star, chunk, rest)"
  shows "length rest < length pattern"
proof -
  define p where "p = dropWhile (\<lambda>c. c = CHR ''*'') pattern"
  from assms(2) have body: "scan_body False p = (chunk, rest)" and star: "star \<longleftrightarrow> p \<noteq> pattern"
    by (auto simp: scan_chunk_def Let_def p_def split: prod.splits)
  from scan_body_append [OF body] have len: "length rest \<le> length p" by simp
  show ?thesis
  proof (cases "hd pattern = CHR ''*''")
    case True
    with dropWhile_shorter [of pattern "\<lambda>c. c = CHR ''*''"] assms(1) have "length p < length pattern"
      by (simp add: p_def)
    with len show ?thesis by simp
  next
    case False
    then have "p = pattern" unfolding p_def using assms(1) by (cases pattern) auto
    with scan_body_progress [of p False] False assms(1) body have "chunk \<noteq> []" by simp
    with scan_body_append [OF body] \<open>p = pattern\<close> show ?thesis by simp
  qed
qed

lemma scan_chunk_shorter_sym:
  "(star, chunk, rest) = scan_chunk pattern \<Longrightarrow> pattern \<noteq> [] \<Longrightarrow> length rest < length pattern"
  using scan_chunk_shorter by metis

lemma match_chunk_Nil: "match_chunk failed [] s = (if failed then NoMatch else Rest s)"
  by (simp add: match_chunk.simps)

lemmas match_chunk_Cons = match_chunk.simps [of _ "c # cs" for c cs, simplified]

section \<open>Malformed chunks are malformed for every name\<close>

lemma parse_ranges_shape:
  "rel_option (\<lambda>x y. snd x = snd y) (parse_ranges r m n chunk) (parse_ranges r' m' n chunk)"
proof (induction r m n chunk arbitrary: m' rule: parse_ranges.induct)
  case (1 r m n chunk)
  show ?case
  proof (cases chunk)
    case Nil
    then show ?thesis by (simp add: parse_ranges_Nil)
  next
    case (Cons c cs)
    note unfolded = parse_ranges_Cons [of r m n c cs] parse_ranges_Cons [of r' m' n c cs]
    consider (close) "c = CHR '']'' \<and> 0 < n"
      | (bad) "\<not> (c = CHR '']'' \<and> 0 < n)" "get_esc (c # cs) = None"
      | (range) lo ch1 where "\<not> (c = CHR '']'' \<and> 0 < n)" "get_esc (c # cs) = Some (lo, ch1)"
      by (metis option.exhaust surj_pair)
    then show ?thesis
    proof cases
      case close
      then show ?thesis unfolding Cons unfolded by simp
    next
      case bad
      then show ?thesis unfolding Cons unfolded by (simp only: if_False option.case option.rel_inject)
    next
      case range
      let ?hi = "if hd ch1 = CHR ''-'' then get_esc (tl ch1) else Some (lo, ch1)"
      show ?thesis
      proof (cases ?hi)
        case None
        with range show ?thesis unfolding Cons unfolded
          by (simp only: if_False option.case prod.case option.rel_inject)
      next
        case (Some hc)
        obtain hi ch2 where hc: "hc = (hi, ch2)" by (cases hc)
        have "rel_option (\<lambda>x y. snd x = snd y)
            (parse_ranges r (m \<or> lo \<le> r \<and> r \<le> hi) (Suc n) ch2)
            (parse_ranges r' (m' \<or> lo \<le> r' \<and> r' \<le> hi) (Suc n) ch2)"
          by (rule "1.IH" [OF Cons range(1) range(2) [folded Cons] refl Some hc [symmetric]])
        with range Some show ?thesis unfolding Cons unfolded hc
          by (simp only: if_False option.case prod.case)
      qed
    qed
  qed
qed

lemma parse_ranges_None: "parse_ranges r m n chunk = None \<longleftrightarrow> parse_ranges r' m' n chunk = None"
  using parse_ranges_shape [of r m n chunk r' m']
  by (cases "parse_ranges r m n chunk"; cases "parse_ranges r' m' n chunk") simp_all

lemma parse_ranges_rest:
  "parse_ranges r m n chunk = Some (b, rest) \<Longrightarrow> \<exists>b'. parse_ranges r' m' n chunk = Some (b', rest)"
  using parse_ranges_shape [of r m n chunk r' m'] by (auto simp: option_rel_Some1)

lemma match_chunk_bad: "match_chunk f chunk s = BadPattern \<Longrightarrow> match_chunk f' chunk s' = BadPattern"
proof (induction f chunk s arbitrary: f' s' rule: match_chunk.induct)
  case (1 f chunk s)
  show ?case
  proof (cases chunk)
    case Nil
    with "1.prems" show ?thesis by (simp add: match_chunk_Nil split: if_splits)
  next
    case (Cons c cs)
    note IH = "1.IH" [OF Cons]
    consider (cls) "c = CHR ''[''" | (any) "c = CHR ''?''" | (esc) "c = CHR 0x5C"
      | (lit) "c \<noteq> CHR ''[''" "c \<noteq> CHR ''?''" "c \<noteq> CHR 0x5C" by blast
    then show ?thesis
    proof cases
      case cls
      obtain g r t where step: "class_step f s = (g, r, t)" by (cases "class_step f s")
      obtain g' r' t' where step': "class_step f' s' = (g', r', t')" by (cases "class_step f' s'")
      show ?thesis
      proof (cases "parse_ranges r False 0 (snd (negation cs))")
        case None
        with parse_ranges_None [of r False 0 _ r' False] cls Cons step' show ?thesis
          by (simp add: match_chunk_Cons)
      next
        case (Some mr)
        obtain m rest where mr: "mr = (m, rest)" by (cases mr)
        with Some parse_ranges_rest obtain m' where
          some': "parse_ranges r' False 0 (snd (negation cs)) = Some (m', rest)" by blast
        from "1.prems" cls Cons step Some mr
        have "match_chunk (g \<or> m = fst (negation cs)) rest t = BadPattern"
          by (simp add: match_chunk_Cons)
        from IH(1) [OF cls refl step [symmetric] refl Some mr [symmetric] this]
        have "match_chunk (g' \<or> m' = fst (negation cs)) rest t' = BadPattern" .
        with cls Cons step' some' show ?thesis by (simp add: match_chunk_Cons)
      qed
    next
      case any
      with IH(2) "1.prems" Cons show ?thesis by (simp add: match_chunk_Cons split: prod.splits)
    next
      case esc
      show ?thesis
      proof (cases cs)
        case Nil
        with esc Cons show ?thesis by (simp add: match_chunk_Cons)
      next
        case (Cons d ds)
        with IH(3) [OF _ _ esc Cons] esc "1.prems" \<open>chunk = c # cs\<close> show ?thesis
          by (simp add: match_chunk_Cons split: prod.splits)
      qed
    next
      case lit
      with IH(4) "1.prems" Cons show ?thesis by (simp add: match_chunk_Cons split: prod.splits)
    qed
  qed
qed

section \<open>The matcher\<close>

text \<open>After a star, the chunk is tried after every further byte of the name up to a slash. The
  last chunk must also use up the name.\<close>

fun star_try :: "string \<Rightarrow> bool \<Rightarrow> string \<Rightarrow> chunk_result" where
  "star_try chunk final [] = NoMatch"
| "star_try chunk final (c # s) =
     (if c = CHR ''/'' then NoMatch
      else (case match_chunk False chunk s of
              BadPattern \<Rightarrow> BadPattern
            | NoMatch \<Rightarrow> star_try chunk final s
            | Rest t \<Rightarrow> if final \<and> t \<noteq> [] then star_try chunk final s else Rest t))"

definition chunk_step :: "bool \<Rightarrow> string \<Rightarrow> string \<Rightarrow> string \<Rightarrow> chunk_result" where
  "chunk_step star chunk rest name =
     (case match_chunk False chunk name of
        BadPattern \<Rightarrow> BadPattern
      | NoMatch \<Rightarrow> if star then star_try chunk (rest = []) name else NoMatch
      | Rest t \<Rightarrow>
          if t = [] \<or> rest \<noteq> [] then Rest t
          else if star then star_try chunk (rest = []) name else NoMatch)"

function check_rest :: "string \<Rightarrow> bool" where
  "check_rest pattern =
     (if pattern = [] then True
      else (case scan_chunk pattern of
              (star, chunk, rest) \<Rightarrow> match_chunk False chunk [] \<noteq> BadPattern \<and> check_rest rest))"
  by pat_completeness auto
termination
  by (relation "measure length") (auto dest: scan_chunk_shorter_sym)

function path_match :: "string \<Rightarrow> string \<Rightarrow> bool option" where
  "path_match pattern name =
     (if pattern = [] then Some (name = [])
      else (case scan_chunk pattern of
              (star, chunk, rest) \<Rightarrow>
                if star \<and> chunk = [] then Some (CHR ''/'' \<notin> set name)
                else (case chunk_step star chunk rest name of
                        BadPattern \<Rightarrow> None
                      | Rest t \<Rightarrow> path_match rest t
                      | NoMatch \<Rightarrow> if check_rest rest then Some False else None)))"
  by pat_completeness auto
termination
  by (relation "measure (\<lambda>(pattern, name). length pattern)") (auto dest: scan_chunk_shorter_sym)

declare check_rest.simps [simp del] path_match.simps [simp del]

lemma check_rest_Nil [simp]: "check_rest []"
  by (simp add: check_rest.simps)

lemma path_match_Nil [simp]: "path_match [] name = Some (name = [])"
  by (simp add: path_match.simps)

section \<open>A validated pattern never fails\<close>

lemma star_try_bad: "match_chunk False chunk [] \<noteq> BadPattern \<Longrightarrow> star_try chunk final name \<noteq> BadPattern"
  by (induction name) (auto dest: match_chunk_bad split: chunk_result.splits)

lemma chunk_step_bad:
  "chunk_step star chunk rest name = BadPattern \<longleftrightarrow> match_chunk False chunk [] = BadPattern"
  by (auto simp: chunk_step_def star_try_bad dest: match_chunk_bad split: chunk_result.splits if_splits)
    (metis chunk_result.distinct(1,3) match_chunk_bad star_try_bad)+

lemma scan_chunk_empty: "scan_chunk pattern = (star, [], rest) \<Longrightarrow> rest = []"
proof -
  let ?p = "dropWhile (\<lambda>c. c = CHR ''*'') pattern"
  assume "scan_chunk pattern = (star, [], rest)"
  then have body: "scan_body False ?p = ([], rest)" by (auto simp: scan_chunk_def Let_def split: prod.splits)
  have "?p = []"
  proof (rule ccontr)
    assume "?p \<noteq> []"
    moreover from hd_dropWhile [OF this] have "hd ?p \<noteq> CHR ''*''" by simp
    ultimately show False using scan_body_progress [of ?p False] body by simp
  qed
  with body show "rest = []" by simp
qed

lemma path_match_None: "path_match pattern name = None \<longleftrightarrow> \<not> check_rest pattern"
proof (induction pattern name rule: path_match.induct)
  case (1 pattern name)
  show ?case
  proof (cases "pattern = []")
    case True
    then show ?thesis by simp
  next
    case False
    obtain star chunk rest where scan: "scan_chunk pattern = (star, chunk, rest)"
      by (cases "scan_chunk pattern")
    show ?thesis
    proof (cases "star \<and> chunk = []")
      case True
      with scan scan_chunk_empty have "rest = []" by blast
      with True False scan show ?thesis
        by (simp add: path_match.simps [of pattern] check_rest.simps [of pattern] match_chunk_Nil)
    next
      case no: False
      have IH: "path_match rest t = None \<longleftrightarrow> \<not> check_rest rest"
        if "chunk_step star chunk rest name = Rest t" for t
        using "1.IH" [OF False scan [symmetric] refl no that] .
      from False scan no IH chunk_step_bad [of star chunk rest name] show ?thesis
        by (auto simp: path_match.simps [of pattern] check_rest.simps [of pattern]
            split: chunk_result.splits)
    qed
  qed
qed

lemma path_match_valid: "path_match pattern [] \<noteq> None \<Longrightarrow> path_match pattern name \<noteq> None"
  by (simp add: path_match_None)

section \<open>Literal patterns\<close>

definition literal_char :: "char \<Rightarrow> bool" where
  "literal_char c = (c \<notin> {CHR ''['', CHR ''?'', CHR ''*'', CHR 0x5C})"

lemma match_chunk_literal:
  "list_all literal_char lit \<Longrightarrow>
     match_chunk f lit s =
       (if \<not> f \<and> prefix lit s then Rest (drop (length lit) s) else NoMatch)"
proof (induction lit arbitrary: f s)
  case Nil
  then show ?case by (simp add: match_chunk_Nil)
next
  case (Cons c lit)
  then have "match_chunk f (c # lit) s = (case lit_step f c s of (f', s') \<Rightarrow> match_chunk f' lit s')"
    by (cases "lit_step f c s") (simp add: match_chunk_Cons literal_char_def)
  with Cons.IH Cons.prems show ?case
    by (cases s; cases f) (auto simp: lit_step_def)
qed

lemma scan_body_literal:
  "list_all literal_char lit \<Longrightarrow> scan_body False (lit @ rest) =
     (let (a, b) = scan_body False rest in (lit @ a, b))"
  by (induction lit) (auto simp: literal_char_def split: prod.splits)

lemma scan_body_star: "scan_body False (CHR ''*'' # s) = ([], CHR ''*'' # s)"
  by simp

lemma scan_chunk_literal:
  assumes "list_all literal_char (c # lit)" and "rest = [] \<or> hd rest = CHR ''*''"
  shows "scan_chunk ((c # lit) @ rest) = (False, c # lit, rest)"
proof -
  have "scan_body False rest = ([], rest)"
    using assms(2) by (cases rest) auto
  with scan_body_literal [OF assms(1), of rest]
  have "scan_body False ((c # lit) @ rest) = (c # lit, rest)" by simp
  moreover have "dropWhile (\<lambda>c. c = CHR ''*'') ((c # lit) @ rest) = (c # lit) @ rest"
    using assms(1) by (simp add: literal_char_def)
  ultimately show ?thesis by (simp only: scan_chunk_def Let_def prod.case) simp
qed

lemma path_match_star: "path_match [CHR ''*''] name = Some (CHR ''/'' \<notin> set name)"
  by (simp add: path_match.simps [of "[CHR ''*'']"] scan_chunk_def)

lemma check_rest_star: "check_rest [CHR ''*'']"
  using path_match_None [of "[CHR ''*'']" "[]"] path_match_star [of "[]"] by simp

lemma path_match_exact:
  assumes "list_all literal_char lit"
  shows "path_match lit name = Some (name = lit)"
proof (cases lit)
  case Nil
  then show ?thesis by simp
next
  case (Cons c l)
  with scan_chunk_literal [of c l "[]"] assms have "scan_chunk lit = (False, lit, [])" by simp
  with Cons match_chunk_literal [OF assms, of False name] show ?thesis
    by (auto simp: path_match.simps [of "c # l"] chunk_step_def prefix_def)
qed

lemma path_match_prefix:
  assumes "list_all literal_char lit"
  shows "path_match (lit @ [CHR ''*'']) name =
    Some (prefix lit name \<and> CHR ''/'' \<notin> set (drop (length lit) name))"
proof (cases lit)
  case Nil
  then show ?thesis by (simp add: path_match_star)
next
  case (Cons c l)
  with scan_chunk_literal [of c l "[CHR ''*'']"] assms
  have "scan_chunk (lit @ [CHR ''*'']) = (False, lit, [CHR ''*''])" by simp
  with Cons match_chunk_literal [OF assms, of False name] show ?thesis
    by (simp add: path_match.simps [of "c # l @ [CHR ''*'']"] chunk_step_def path_match_star check_rest_star)
qed

end
