(* ===== verification/Keys.thy ===== *)
theory Keys
  imports Prelude Glob Sha256
begin

text \<open>
  The named-key write policy (\<open>keys.go\<close>) and its construction from two environment values
  (\<open>keys_config.go\<close>). The baseline registry of the guard is the map \<open>baselines\<close>, passed in and
  returned updated.
\<close>

section \<open>Constants and policy\<close>

definition reservedKeyPrefix :: string where
  "reservedKeyPrefix = ''memguard:''"

definition protectedKeyViolationFlag :: string where
  "protectedKeyViolationFlag = ''protected_key_violation''"

definition immutableMismatchFlag :: string where
  "immutableMismatchFlag = ''immutable_mismatch''"

record KeyPolicy =
  Protected :: "string list"
  Immutable :: "string list"

definition zero_policy :: KeyPolicy where
  "zero_policy = \<lparr>Protected = [], Immutable = []\<rparr>"

type_synonym baselines = "string \<rightharpoonup> string"

definition firstKey :: "string list \<Rightarrow> string" where
  "firstKey key = (case key of [] \<Rightarrow> [] | k # _ \<Rightarrow> k)"

definition isReservedSystemKey :: "string \<Rightarrow> bool" where
  "isReservedSystemKey key = has_prefix key reservedKeyPrefix"

fun matchesAnyPattern :: "string list \<Rightarrow> string \<Rightarrow> bool" where
  "matchesAnyPattern [] key = False"
| "matchesAnyPattern (p # patterns) key =
     (case path_match p key of
        Some ok \<Rightarrow> if ok then True else matchesAnyPattern patterns key
      | None \<Rightarrow> matchesAnyPattern patterns key)"

text \<open>The result lists the flags, whether the write is rejected, and the registry afterwards.\<close>

definition evaluateKeyPolicy ::
  "KeyPolicy \<Rightarrow> string \<Rightarrow> string \<Rightarrow> bool \<Rightarrow> baselines \<Rightarrow> string list \<times> bool \<times> baselines" where
  "evaluateKeyPolicy policy key redacted attested bs =
     (let reserved = isReservedSystemKey key;
          protectedMatch = (reserved \<or> matchesAnyPattern (Protected policy) key);
          immutableMatch = (reserved \<or> matchesAnyPattern (Immutable policy) key)
      in
        if protectedMatch \<and> \<not> attested \<and> reserved then ([protectedKeyViolationFlag], True, bs)
        else
          (let flags = (if protectedMatch \<and> \<not> attested then [protectedKeyViolationFlag] else []) in
           if immutableMatch then
             (let h = immutableBaselineHash redacted in
              case bs key of
                None \<Rightarrow> (flags, False, bs(key \<mapsto> h))
              | Some baseline \<Rightarrow>
                  if h \<noteq> baseline then
                    (if reserved then ([immutableMismatchFlag], True, bs)
                     else (flags @ [immutableMismatchFlag], False, bs))
                  else (flags, False, bs))
           else (flags, False, bs)))"

section \<open>Construction from the environment\<close>

text \<open>The construction error names the knob and the offending pattern; it wraps ErrBadPattern.\<close>

datatype key_config_error = MalformedKeyPattern (err_knob: string) (err_pattern: string)

fun parse_entries :: "string \<Rightarrow> string list \<Rightarrow> string list \<Rightarrow> key_config_error + string list" where
  "parse_entries knob out [] = Inr out"
| "parse_entries knob out (raw # raws) =
     (let p = trim_space raw in
      if p = [] then parse_entries knob out raws
      else if path_match p [] = None then Inl (MalformedKeyPattern knob p)
      else parse_entries knob (out @ [p]) raws)"

definition parsePatternList :: "string \<Rightarrow> string \<Rightarrow> key_config_error + string list" where
  "parsePatternList knob csv = parse_entries knob [] (split_on (CHR '','') csv)"

definition NewKeyPolicyFromConfig :: "string \<Rightarrow> string \<Rightarrow> key_config_error + KeyPolicy" where
  "NewKeyPolicyFromConfig protectedCSV immutableCSV =
     (case parsePatternList ''MEMGUARD_PROTECTED_KEYS'' protectedCSV of
        Inl err \<Rightarrow> Inl err
      | Inr protected \<Rightarrow>
          (case parsePatternList ''MEMGUARD_IMMUTABLE_KEYS'' immutableCSV of
             Inl err \<Rightarrow> Inl err
           | Inr immutable \<Rightarrow> Inr \<lparr>Protected = protected, Immutable = immutable\<rparr>))"

section \<open>The entries of a list\<close>

definition config_entries :: "string \<Rightarrow> string list" where
  "config_entries csv = filter (\<lambda>p. p \<noteq> []) (map trim_space (split_on (CHR '','') csv))"

lemma parse_entries_eq:
  "parse_entries knob out raws =
     (let ps = filter (\<lambda>p. p \<noteq> []) (map trim_space raws) in
      case List.find (\<lambda>p. path_match p [] = None) ps of
        None \<Rightarrow> Inr (out @ ps)
      | Some p \<Rightarrow> Inl (MalformedKeyPattern knob p))"
  by (induction knob out raws rule: parse_entries.induct) (auto simp: Let_def split: option.splits)

lemma parsePatternList_eq:
  "parsePatternList knob csv =
     (case List.find (\<lambda>p. path_match p [] = None) (config_entries csv) of
        None \<Rightarrow> Inr (config_entries csv)
      | Some p \<Rightarrow> Inl (MalformedKeyPattern knob p))"
  by (simp add: parsePatternList_def parse_entries_eq config_entries_def Let_def split: option.splits)

definition first_malformed :: "string \<Rightarrow> string option" where
  "first_malformed csv = List.find (\<lambda>p. path_match p [] = None) (config_entries csv)"

lemma first_malformed_None:
  "first_malformed csv = None \<longleftrightarrow> (\<forall>p \<in> set (config_entries csv). path_match p [] \<noteq> None)"
  by (auto simp: first_malformed_def find_None_iff)

lemma NewKeyPolicyFromConfig_eq:
  "NewKeyPolicyFromConfig pcsv icsv =
     (case first_malformed pcsv of
        Some p \<Rightarrow> Inl (MalformedKeyPattern ''MEMGUARD_PROTECTED_KEYS'' p)
      | None \<Rightarrow>
          (case first_malformed icsv of
             Some p \<Rightarrow> Inl (MalformedKeyPattern ''MEMGUARD_IMMUTABLE_KEYS'' p)
           | None \<Rightarrow> Inr \<lparr>Protected = config_entries pcsv, Immutable = config_entries icsv\<rparr>))"
  by (simp add: NewKeyPolicyFromConfig_def parsePatternList_eq first_malformed_def split: option.splits)

lemma matchesAnyPattern_iff:
  "matchesAnyPattern pats key = (\<exists>p \<in> set pats. path_match p key = Some True)"
  by (induction pats) (auto split: option.splits)

lemma NewKeyPolicyFromConfig_Inr:
  "NewKeyPolicyFromConfig pcsv icsv = Inr policy \<longleftrightarrow>
     policy = \<lparr>Protected = config_entries pcsv, Immutable = config_entries icsv\<rparr> \<and>
     first_malformed pcsv = None \<and> first_malformed icsv = None"
  by (auto simp: NewKeyPolicyFromConfig_eq split: option.splits)

text \<open>Construction from the environment is fail-closed. A returned policy holds every
  non-empty trimmed entry of both lists, in order and none of them empty, and no key whatsoever
  makes one of them fail at match time: the error guard of matchesAnyPattern never hides a
  configured pattern.\<close>

theorem key_config_fail_closed:
  assumes "NewKeyPolicyFromConfig protectedCSV immutableCSV = Inr policy"
  shows "Protected policy = config_entries protectedCSV \<and>
         Immutable policy = config_entries immutableCSV \<and>
         [] \<notin> set (Protected policy @ Immutable policy) \<and>
         (\<forall>key. \<forall>p \<in> set (Protected policy @ Immutable policy). path_match p key \<noteq> None)"
proof -
  from assms have policy: "policy = \<lparr>Protected = config_entries protectedCSV, Immutable = config_entries immutableCSV\<rparr>"
    and "first_malformed protectedCSV = None" and "first_malformed immutableCSV = None"
    by (simp_all add: NewKeyPolicyFromConfig_Inr)
  then have "\<forall>p \<in> set (config_entries protectedCSV @ config_entries immutableCSV). path_match p [] \<noteq> None"
    by (auto simp: first_malformed_None)
  then have "\<forall>key. \<forall>p \<in> set (config_entries protectedCSV @ config_entries immutableCSV). path_match p key \<noteq> None"
    using path_match_valid by blast
  then show ?thesis by (simp add: policy) (simp add: config_entries_def)
qed

theorem key_config_fail_closed_witness:
  "(\<exists>policy. NewKeyPolicyFromConfig '' config:*,,x[a-c]'' [] = Inr policy \<and>
     Protected policy = [''config:*'', ''x[a-c]''])"
proof -
  obtain policy where ok: "NewKeyPolicyFromConfig '' config:*,,x[a-c]'' [] = Inr policy"
    and "Protected policy = [''config:*'', ''x[a-c]'']"
  proof (rule that)
    show "NewKeyPolicyFromConfig '' config:*,,x[a-c]'' [] =
        Inr \<lparr>Protected = [''config:*'', ''x[a-c]''], Immutable = []\<rparr>"
      by code_simp
  qed simp
  have "config_entries '' config:*,,x[a-c]'' = [''config:*'', ''x[a-c]'']" by code_simp
  with key_config_fail_closed [OF ok] ok show ?thesis by auto
qed

text \<open>The other branch: an error is returned exactly when some entry is malformed, and it
  names the knob and a malformed entry of that knob's list.\<close>

theorem key_config_error_exact:
  "(\<exists>err. NewKeyPolicyFromConfig pcsv icsv = Inl err) \<longleftrightarrow>
     (\<exists>p \<in> set (config_entries pcsv @ config_entries icsv). path_match p [] = None)"
proof -
  have "(\<exists>err. NewKeyPolicyFromConfig pcsv icsv = Inl err) \<longleftrightarrow>
      \<not> (first_malformed pcsv = None \<and> first_malformed icsv = None)"
    by (simp add: NewKeyPolicyFromConfig_eq split: option.splits)
  then show ?thesis by (auto simp: first_malformed_None)
qed

section \<open>The checks\<close>

definition key_immutable :: "KeyPolicy \<Rightarrow> string \<Rightarrow> bool" where
  "key_immutable policy key \<longleftrightarrow> isReservedSystemKey key \<or> matchesAnyPattern (Immutable policy) key"

definition key_protected :: "KeyPolicy \<Rightarrow> string \<Rightarrow> bool" where
  "key_protected policy key \<longleftrightarrow> isReservedSystemKey key \<or> matchesAnyPattern (Protected policy) key"

lemmas key_policy_defs = evaluateKeyPolicy_def Let_def key_immutable_def key_protected_def
  protectedKeyViolationFlag_def immutableMismatchFlag_def

lemma evaluate_baseline:
  "snd (snd (evaluateKeyPolicy policy key c att bs)) =
     (if key_immutable policy key \<and> (att \<or> \<not> isReservedSystemKey key) \<and> bs key = None
      then bs(key \<mapsto> immutableBaselineHash c) else bs)"
  by (auto simp: key_policy_defs split: option.splits)

lemma evaluate_unreserved: "\<not> isReservedSystemKey key \<Longrightarrow> \<not> fst (snd (evaluateKeyPolicy policy key c att bs))"
  by (auto simp: key_policy_defs split: option.splits)

text \<open>C23: The whole verdict of the key policy. A write is rejected exactly when its key is
  reserved and its writer is not attested or its content's hash differs from the baseline; a key
  that matches only operator patterns is never rejected. The protected flag is raised exactly
  for an unattested write to a protected key, the mismatch flag exactly when the key is
  immutable, its baseline exists and differs, and the write was not already rejected; no
  other flag is ever raised.\<close>

theorem key_policy_verdict:
  "case evaluateKeyPolicy policy key c att bs of (flags, reject, bs') \<Rightarrow>
     (let drift = (\<exists>b. bs key = Some b \<and> b \<noteq> immutableBaselineHash c);
          reserved = isReservedSystemKey key in
      (reject \<longleftrightarrow> reserved \<and> \<not> (att \<and> \<not> drift)) \<and>
      (protectedKeyViolationFlag \<in> set flags \<longleftrightarrow> key_protected policy key \<and> \<not> att) \<and>
      (immutableMismatchFlag \<in> set flags \<longleftrightarrow>
         key_immutable policy key \<and> drift \<and> \<not> (reserved \<and> \<not> att)) \<and>
      set flags \<subseteq> {protectedKeyViolationFlag, immutableMismatchFlag} \<and> distinct flags)"
  by (cases "isReservedSystemKey key"; cases att; cases "bs key"; 
      cases "matchesAnyPattern (Protected policy) key";
      cases "matchesAnyPattern (Immutable policy) key")
    (simp_all add: key_policy_defs)

text \<open>A sequence of keyed writes, threading the registry.\<close>

type_synonym keyed_write = "string \<times> string \<times> bool"

fun run_policy :: "KeyPolicy \<Rightarrow> keyed_write list \<Rightarrow> baselines \<Rightarrow> baselines" where
  "run_policy policy [] bs = bs"
| "run_policy policy ((key, c, att) # ws) bs =
     run_policy policy ws (snd (snd (evaluateKeyPolicy policy key c att bs)))"

definition establishes :: "string \<Rightarrow> keyed_write \<Rightarrow> bool" where
  "establishes key w = (case w of (k, c, att) \<Rightarrow> k = key \<and> (att \<or> \<not> isReservedSystemKey k))"

lemma evaluate_pinned:
  "bs key = Some b \<Longrightarrow> snd (snd (evaluateKeyPolicy policy k c att bs)) key = Some b"
  by (auto simp: evaluate_baseline)

lemma evaluate_establishes:
  "bs key = None \<Longrightarrow> snd (snd (evaluateKeyPolicy policy k c att bs)) key =
     (if key_immutable policy key \<and> establishes key (k, c, att) then Some (immutableBaselineHash c) else None)"
  by (auto simp: evaluate_baseline establishes_def)

lemma run_policy_pinned: "bs key = Some b \<Longrightarrow> run_policy policy ws bs key = Some b"
  by (induction policy ws bs rule: run_policy.induct) (simp_all add: evaluate_pinned)

lemma run_policy_first:
  "bs key = None \<Longrightarrow> run_policy policy ws bs key =
     (if key_immutable policy key
      then map_option (\<lambda>(k, c, att). immutableBaselineHash c) (List.find (establishes key) ws)
      else None)"
proof (induction policy ws bs rule: run_policy.induct)
  case (1 policy bs)
  then show ?case by simp
next
  case (2 policy k c att ws bs)
  then show ?case
    by (cases "establishes key (k, c, att)"; cases "key_immutable policy key")
      (simp_all add: evaluate_establishes run_policy_pinned)
qed

lemma single_baseline:
  "key_immutable policy key \<Longrightarrow> establishes key (key, c, att) \<Longrightarrow>
     run_policy policy [(key, c, att)] (\<lambda>_. None) key = Some (immutableBaselineHash c)"
  by (simp add: run_policy_first del: run_policy.simps)

text \<open>Baselines are pinned to the first establishing write. After any sequence of keyed writes
  from an empty registry, a key has a baseline only if it is immutable, and then it is the hash
  of the content of the first write under that key which was attested or whose key is not
  reserved; every later write, every mismatching one, every write under another key and every
  unattested write to a reserved key leave it untouched.\<close>

theorem baseline_is_first_write:
  "run_policy policy ws (\<lambda>_. None) key =
     (if key_immutable policy key
      then map_option (\<lambda>(k, c, att). immutableBaselineHash c) (List.find (establishes key) ws)
      else None)"
  by (rule run_policy_first) simp

section \<open>Keys and patterns\<close>

text \<open>The reserved namespace is a prefix match and needs no configuration: under the zero
  policy exactly the keys that begin with "memguard:" are protected and immutable, so with a
  zero policy the empty key (no key given) runs into no check. An operator pattern "lit*" with
  no metacharacter in lit covers exactly the keys that extend lit without a slash.\<close>

theorem reserved_and_prefix_patterns:
  assumes "list_all literal_char lit"
  shows "(key_protected zero_policy key \<longleftrightarrow> has_prefix key ''memguard:'') \<and>
         (key_immutable zero_policy key \<longleftrightarrow> has_prefix key ''memguard:'') \<and>
         \<not> key_protected zero_policy [] \<and>
         (matchesAnyPattern [lit @ ''*''] key \<longleftrightarrow> (\<exists>s. key = lit @ s \<and> CHR ''/'' \<notin> set s))"
  using path_match_prefix [OF assms, of key]
  by (auto simp: key_protected_def key_immutable_def isReservedSystemKey_def reservedKeyPrefix_def
      zero_policy_def has_prefix_def prefix_def matchesAnyPattern_iff)

theorem reserved_and_prefix_patterns_witness:
  "matchesAnyPattern [''config:*''] ''config:threshold'' \<and> \<not> matchesAnyPattern [''config:*''] ''user:x''"
proof -
  have "list_all literal_char ''config:''" by (simp add: literal_char_def)
  from reserved_and_prefix_patterns [OF this] show ?thesis by simp
qed

end
