(* ===== verification/Regexp.thy ===== *)
theory Regexp
  imports Prelude
begin

text \<open>
  Go's \<open>regexp\<close> package, as far as the source uses it: leftmost-first matching (the greedy,
  left-to-right priorities of Perl that Go's engine reproduces), \<open>MatchString\<close>,
  \<open>FindAllString\<close>, \<open>ReplaceAllString(Func)\<close> and \<open>FindStringSubmatch\<close>.

  A match state is a zipper: the bytes already passed (reversed), the bytes ahead, and the
  captures recorded so far, the latest first. \<open>rmatch\<close> lists every way a pattern can match at
  a position, in priority order, so the engine's answer is the first element.

  Every pattern of the source is built from ASCII classes, so matching bytes and matching
  runes agree: the byte of a multi-byte rune is in no ASCII class and is no word byte. The one
  place where Go leaves ASCII is \<open>(?i)\<close>: the simple case folding of \<open>s\<close> and \<open>k\<close> also contains
  U+017F and U+212A, which \<open>ci_char\<close> and \<open>ci_cls\<close> spell out as byte sequences.
\<close>

section \<open>Syntax\<close>

type_synonym byte_ranges = "(char \<times> char) list"

datatype re =
    Cls bool byte_ranges       \<comment> \<open>one byte inside the ranges, or outside them when negated\<close>
  | WordB                      \<comment> \<open>the ASCII word boundary\<close>
  | Eps
  | Cat re re
  | Alt re re
  | Star re                    \<comment> \<open>greedy\<close>
  | Rep nat nat re             \<comment> \<open>greedy, at least and at most\<close>
  | Grp nat re                 \<comment> \<open>capturing group\<close>

definition in_ranges :: "byte_ranges \<Rightarrow> char \<Rightarrow> bool" where
  "in_ranges rs c = list_ex (\<lambda>(lo, hi). lo \<le> c \<and> c \<le> hi) rs"

definition singles :: "char list \<Rightarrow> byte_ranges" where
  "singles cs = map (\<lambda>c. (c, c)) cs"

abbreviation re_word :: byte_ranges where
  "re_word \<equiv> [(CHR ''a'', CHR ''z''), (CHR ''A'', CHR ''Z''), (CHR ''0'', CHR ''9''), (CHR ''_'', CHR ''_'')]"

abbreviation re_digit :: byte_ranges where
  "re_digit \<equiv> [(CHR ''0'', CHR ''9'')]"

abbreviation re_space :: byte_ranges where
  "re_space \<equiv> [(CHR 0x09, CHR 0x0A), (CHR 0x0C, CHR 0x0D), (CHR 0x20, CHR 0x20)]"

abbreviation cls :: "byte_ranges \<Rightarrow> re" where
  "cls rs \<equiv> Cls False rs"

definition re_plus :: "re \<Rightarrow> re" where
  "re_plus r = Cat r (Star r)"

definition re_opt :: "re \<Rightarrow> re" where
  "re_opt r = Alt r Eps"

text \<open>\<open>r{n,}\<close>.\<close>

definition re_atleast :: "nat \<Rightarrow> re \<Rightarrow> re" where
  "re_atleast n r = Cat (Rep n n r) (Star r)"

fun re_seq :: "re list \<Rightarrow> re" where
  "re_seq [] = Eps"
| "re_seq [r] = r"
| "re_seq (r # q # rs) = Cat r (re_seq (q # rs))"

fun re_alts :: "re list \<Rightarrow> re" where
  "re_alts [] = Cls False []"
| "re_alts [r] = r"
| "re_alts (r # q # rs) = Alt r (re_alts (q # rs))"

definition re_lit :: "string \<Rightarrow> re" where
  "re_lit s = re_seq (map (\<lambda>c. cls [(c, c)]) s)"

text \<open>Case-insensitive literals and classes. U+017F is C5 BF, U+212A is E2 84 AA.\<close>

definition fold_s :: re where
  "fold_s = re_lit [CHR 0xC5, CHR 0xBF]"

definition fold_k :: re where
  "fold_k = re_lit [CHR 0xE2, CHR 0x84, CHR 0xAA]"

definition upper_char :: "char \<Rightarrow> char" where
  "upper_char c = (if CHR ''a'' \<le> c \<and> c \<le> CHR ''z'' then byte_of (byte_val c - 32) else c)"

definition ci_char :: "char \<Rightarrow> re" where
  "ci_char c =
     (let both = cls [(lower_char c, lower_char c), (upper_char c, upper_char c)] in
      if lower_char c = CHR ''s'' then Alt both fold_s
      else if lower_char c = CHR ''k'' then Alt both fold_k
      else both)"

definition ci_lit :: "string \<Rightarrow> re" where
  "ci_lit s = re_seq (map ci_char s)"

text \<open>\<open>(?i)[\w\s]\<close>: a class that holds all letters also holds the two folded runes.\<close>

definition ci_cls :: "byte_ranges \<Rightarrow> re" where
  "ci_cls rs = re_alts [cls rs, fold_s, fold_k]"

section \<open>Matching\<close>

type_synonym zipper = "string \<times> string"
type_synonym rst = "string \<times> string \<times> (nat \<times> string) list"

abbreviation ahead :: "rst \<Rightarrow> string" where
  "ahead st \<equiv> fst (snd st)"

definition word_at :: "string \<Rightarrow> bool" where
  "word_at s = (case s of [] \<Rightarrow> False | c # _ \<Rightarrow> in_ranges re_word c)"

definition word_boundary :: "string \<Rightarrow> string \<Rightarrow> bool" where
  "word_boundary p s = (word_at p \<noteq> word_at s)"

text \<open>One more greedy iteration is tried only after an iteration that consumed something; the
  fuel is the length of the text ahead, which such iterations cannot exceed.\<close>

primrec star_iter :: "(rst \<Rightarrow> rst list) \<Rightarrow> nat \<Rightarrow> rst \<Rightarrow> rst list" where
  "star_iter m 0 st = [st]"
| "star_iter m (Suc n) st =
     concat (map (star_iter m n) (filter (\<lambda>st'. length (ahead st') < length (ahead st)) (m st))) @ [st]"

primrec rep_exact :: "(rst \<Rightarrow> rst list) \<Rightarrow> nat \<Rightarrow> rst \<Rightarrow> rst list" where
  "rep_exact m 0 st = [st]"
| "rep_exact m (Suc n) st = concat (map (rep_exact m n) (m st))"

primrec rep_upto :: "(rst \<Rightarrow> rst list) \<Rightarrow> nat \<Rightarrow> rst \<Rightarrow> rst list" where
  "rep_upto m 0 st = [st]"
| "rep_upto m (Suc n) st = concat (map (rep_upto m n) (m st)) @ [st]"

primrec rmatch :: "re \<Rightarrow> rst \<Rightarrow> rst list" where
  "rmatch (Cls neg rs) = (\<lambda>(p, s, g). case s of [] \<Rightarrow> []
      | c # s' \<Rightarrow> if in_ranges rs c \<noteq> neg then [(c # p, s', g)] else [])"
| "rmatch WordB = (\<lambda>(p, s, g). if word_boundary p s then [(p, s, g)] else [])"
| "rmatch Eps = (\<lambda>st. [st])"
| "rmatch (Cat r1 r2) = (\<lambda>st. concat (map (rmatch r2) (rmatch r1 st)))"
| "rmatch (Alt r1 r2) = (\<lambda>st. rmatch r1 st @ rmatch r2 st)"
| "rmatch (Star r) = (\<lambda>st. star_iter (rmatch r) (length (ahead st)) st)"
| "rmatch (Rep n m r) = (\<lambda>st. concat (map (rep_upto (rmatch r) (m - n)) (rep_exact (rmatch r) n st)))"
| "rmatch (Grp k r) = (\<lambda>(p, s, g).
     map (\<lambda>(p', s', g'). (p', s', (k, take (length s - length s') s) # g')) (rmatch r (p, s, g)))"

text \<open>The leftmost match from a position on: the bytes skipped, the bytes matched, the state
  after the match.\<close>

fun re_find :: "re \<Rightarrow> string \<Rightarrow> string \<Rightarrow> (string \<times> string \<times> rst) option" where
  "re_find r p s =
     (case rmatch r (p, s, []) of
        (p', s', g) # _ \<Rightarrow> Some ([], take (length s - length s') s, (p', s', g))
      | [] \<Rightarrow> (case s of
            [] \<Rightarrow> None
          | c # t \<Rightarrow> map_option (\<lambda>(sk, m, st). (c # sk, m, st)) (re_find r (c # p) t)))"

declare re_find.simps [simp del]

definition match_string :: "re \<Rightarrow> string \<Rightarrow> bool" where
  "match_string r s = (re_find r [] s \<noteq> None)"

primrec find_all_go :: "re \<Rightarrow> nat \<Rightarrow> string \<Rightarrow> string \<Rightarrow> string list" where
  "find_all_go r 0 p s = []"
| "find_all_go r (Suc n) p s =
     (case re_find r p s of
        None \<Rightarrow> []
      | Some (sk, m, (p', s', g)) \<Rightarrow> if m = [] then [] else m # find_all_go r n p' s')"

text \<open>\<open>FindAllString(s, n)\<close> with a bound, and with \<open>n < 0\<close> (all matches). No pattern used this way
  matches the empty string.\<close>

definition find_all :: "re \<Rightarrow> nat \<Rightarrow> string \<Rightarrow> string list" where
  "find_all r n s = find_all_go r n [] s"

definition find_all_unbounded :: "re \<Rightarrow> string \<Rightarrow> string list" where
  "find_all_unbounded r s = find_all_go r (Suc (length s)) [] s"

text \<open>\<open>FindStringSubmatch(s)[k]\<close>, the empty string for a group that took no part.\<close>

definition submatch :: "re \<Rightarrow> nat \<Rightarrow> string \<Rightarrow> string" where
  "submatch r k s =
     (case re_find r [] s of
        None \<Rightarrow> []
      | Some (sk, m, (p, s', g)) \<Rightarrow> (case map_of g k of None \<Rightarrow> [] | Some t \<Rightarrow> t))"

section \<open>A declarative semantics, and the matcher's agreement with it\<close>

text \<open>
  \<open>matches r z z'\<close>: the pattern can lead from zipper \<open>z\<close> to zipper \<open>z'\<close>. The relation knows
  nothing of priorities or fuel, and says what it means to match at all.
\<close>

inductive matches :: "re \<Rightarrow> zipper \<Rightarrow> zipper \<Rightarrow> bool" where
  m_cls: "in_ranges rs c \<noteq> neg \<Longrightarrow> matches (Cls neg rs) (p, c # s) (c # p, s)"
| m_word: "word_boundary p s \<Longrightarrow> matches WordB (p, s) (p, s)"
| m_eps: "matches Eps z z"
| m_cat: "matches r1 z z1 \<Longrightarrow> matches r2 z1 z2 \<Longrightarrow> matches (Cat r1 r2) z z2"
| m_alt1: "matches r1 z z1 \<Longrightarrow> matches (Alt r1 r2) z z1"
| m_alt2: "matches r2 z z1 \<Longrightarrow> matches (Alt r1 r2) z z1"
| m_star0: "matches (Star r) z z"
| m_star1: "matches r z z1 \<Longrightarrow> matches (Star r) z1 z2 \<Longrightarrow> matches (Star r) z z2"
| m_rep0: "matches (Rep 0 m r) z z"
| m_repS: "matches r z z1 \<Longrightarrow> matches (Rep n (m - 1) r) z1 z2 \<Longrightarrow> matches (Rep (Suc n) m r) z z2"
| m_repO: "matches r z z1 \<Longrightarrow> matches (Rep 0 m r) z1 z2 \<Longrightarrow> matches (Rep 0 (Suc m) r) z z2"
| m_grp: "matches r z z1 \<Longrightarrow> matches (Grp j r) z z1"

inductive_cases m_clsE: "matches (Cls neg rs) z z'"
inductive_cases m_wordE: "matches WordB z z'"
inductive_cases m_epsE: "matches Eps z z'"
inductive_cases m_catE: "matches (Cat r1 r2) z z'"
inductive_cases m_altE: "matches (Alt r1 r2) z z'"
inductive_cases m_starE: "matches (Star r) z z'"
inductive_cases m_repE: "matches (Rep n m r) z z'"
inductive_cases m_grpE: "matches (Grp j r) z z'"

lemmas matches_elims = m_clsE m_wordE m_epsE m_catE m_altE m_starE m_repE m_grpE

inductive_simps matches_cls_iff: "matches (Cls neg rs) z z'"
inductive_simps matches_cat_iff: "matches (Cat r1 r2) z z'"
inductive_simps matches_alt_iff: "matches (Alt r1 r2) z z'"
inductive_simps matches_eps_iff: "matches Eps z z'"
inductive_simps matches_word_iff: "matches WordB z z'"
inductive_simps matches_grp_iff: "matches (Grp j r) z z'"

text \<open>A match passes over a block of the text: it moves that block behind the zipper.\<close>

definition advances :: "zipper \<Rightarrow> zipper \<Rightarrow> bool" where
  "advances z z' \<longleftrightarrow> (\<exists>u. snd z = u @ snd z' \<and> fst z' = rev u @ fst z)"

lemma advances_refl [intro, simp]: "advances z z"
  by (simp add: advances_def)

lemma advances_trans: "advances z z1 \<Longrightarrow> advances z1 z2 \<Longrightarrow> advances z z2"
  by (fastforce simp: advances_def)

lemma advances_length: "advances z z' \<Longrightarrow> length (snd z') \<le> length (snd z)"
  by (auto simp: advances_def)

lemma advances_same_length: "advances z z' \<Longrightarrow> length (snd z') = length (snd z) \<Longrightarrow> z' = z"
  by (cases z, cases z') (auto simp: advances_def)

lemma matches_advances: "matches r z z' \<Longrightarrow> advances z z'"
  by (induction rule: matches.induct) (auto intro: advances_trans simp: advances_def [of "(_, _ # _)"])

text \<open>\<open>min_len r\<close> bytes at least are consumed by every match of \<open>r\<close>.\<close>

primrec min_len :: "re \<Rightarrow> nat" where
  "min_len (Cls neg rs) = 1"
| "min_len WordB = 0"
| "min_len Eps = 0"
| "min_len (Cat r1 r2) = min_len r1 + min_len r2"
| "min_len (Alt r1 r2) = min (min_len r1) (min_len r2)"
| "min_len (Star r) = 0"
| "min_len (Rep n m r) = n * min_len r"
| "min_len (Grp k r) = min_len r"

lemma matches_min_len: "matches r z z' \<Longrightarrow> min_len r + length (snd z') \<le> length (snd z)"
proof (induction rule: matches.induct)
  case (m_star1 r z z1 z2)
  then show ?case by simp
qed auto

lemma matches_star_rtranclp: "matches (Star r) z z' \<longleftrightarrow> (matches r)\<^sup>*\<^sup>* z z'"
proof
  assume "matches (Star r) z z'"
  then show "(matches r)\<^sup>*\<^sup>* z z'"
    by (induction "Star r" z z' rule: matches.induct) (auto intro: converse_rtranclp_into_rtranclp)
next
  assume "(matches r)\<^sup>*\<^sup>* z z'"
  then show "matches (Star r) z z'"
    by (induction rule: converse_rtranclp_induct) (auto intro: matches.intros)
qed

text \<open>The zipper of a match state forgets the captures.\<close>

definition zip_of :: "rst \<Rightarrow> zipper" where
  "zip_of st = (fst st, ahead st)"

lemma zip_of_simp [simp]: "zip_of (p, s, g) = (p, s)"
  by (simp add: zip_of_def)

lemma snd_zip_of [simp]: "snd (zip_of st) = ahead st"
  by (simp add: zip_of_def)

subsection \<open>Soundness\<close>

lemma star_iter_sound:
  assumes "\<And>st st'. st' \<in> set (m st) \<Longrightarrow> R (zip_of st) (zip_of st')"
  shows "st' \<in> set (star_iter m n st) \<Longrightarrow> R\<^sup>*\<^sup>* (zip_of st) (zip_of st')"
proof (induction n arbitrary: st)
  case (Suc n)
  then consider "st' = st" | st1 where "st1 \<in> set (m st)" "st' \<in> set (star_iter m n st1)"
    by auto
  then show ?case
  proof cases
    case 2
    from assms [OF 2(1)] Suc.IH [OF 2(2)] show ?thesis by (rule converse_rtranclp_into_rtranclp)
  qed simp
qed simp

lemma rep_upto_sound:
  assumes "\<And>st st'. st' \<in> set (m st) \<Longrightarrow> matches r (zip_of st) (zip_of st')"
  shows "st' \<in> set (rep_upto m k st) \<Longrightarrow> matches (Rep 0 k r) (zip_of st) (zip_of st')"
  by (induction k arbitrary: st) (auto intro: matches.intros assms)

lemma rep_sound:
  assumes "\<And>st st'. st' \<in> set (m st) \<Longrightarrow> matches r (zip_of st) (zip_of st')"
  shows "st1 \<in> set (rep_exact m n st) \<Longrightarrow> matches (Rep 0 (k - n) r) (zip_of st1) z' \<Longrightarrow>
         matches (Rep n k r) (zip_of st) z'"
proof (induction n arbitrary: st k)
  case (Suc n)
  from Suc.prems(1) obtain st2 where "st2 \<in> set (m st)" "st1 \<in> set (rep_exact m n st2)" by auto
  moreover from this(2) have "matches (Rep n (k - 1) r) (zip_of st2) z'"
    using Suc.prems(2) by (intro Suc.IH) auto
  ultimately show ?case by (blast intro: matches.intros assms)
qed simp

lemma rmatch_sound: "st' \<in> set (rmatch r st) \<Longrightarrow> matches r (zip_of st) (zip_of st')"
proof (induction r arbitrary: st st')
  case (Star r)
  then show ?case
    by (auto simp: matches_star_rtranclp dest!: star_iter_sound [where R = "matches r", rotated])
next
  case (Rep n m r)
  then obtain st1 where "st1 \<in> set (rep_exact (rmatch r) n st)"
    and "st' \<in> set (rep_upto (rmatch r) (m - n) st1)" by auto
  with Rep.IH show ?case
    by (blast intro: rep_sound [of "rmatch r"] rep_upto_sound [of "rmatch r"])
next
  case (Cat r1 r2)
  then obtain st1 where "st1 \<in> set (rmatch r1 st)" "st' \<in> set (rmatch r2 st1)" by auto
  with Cat.IH show ?case by (blast intro: m_cat)
next
  case (Alt r1 r2)
  then have "st' \<in> set (rmatch r1 st) \<or> st' \<in> set (rmatch r2 st)" by simp
  with Alt.IH show ?case by (blast intro: m_alt1 m_alt2)
next
  case (Grp k r)
  obtain p s g where st: "st = (p, s, g)" by (cases st)
  with Grp.prems obtain g' where "(fst st', ahead st', g') \<in> set (rmatch r (p, s, g))" by auto
  from Grp.IH [OF this] show ?case by (auto simp: st zip_of_def intro: m_grp)
qed (auto intro: matches.intros split: list.splits if_splits)

subsection \<open>Completeness\<close>

lemma star_iterI:
  "st1 \<in> set (m st) \<Longrightarrow> length (ahead st1) < length (ahead st) \<Longrightarrow> st' \<in> set (star_iter m k st1) \<Longrightarrow>
   st' \<in> set (star_iter m (Suc k) st)"
  by (auto simp del: split_paired_Ex split_paired_All)

lemma rmatch_CatI:
  "st1 \<in> set (rmatch r1 st) \<Longrightarrow> st' \<in> set (rmatch r2 st1) \<Longrightarrow> st' \<in> set (rmatch (Cat r1 r2) st)"
  by auto

lemma star_iter_complete:
  assumes m: "\<And>st z'. R (zip_of st) z' \<Longrightarrow> \<exists>st' \<in> set (m st). zip_of st' = z'"
    and adv: "\<And>z z'. R z z' \<Longrightarrow> advances z z'"
  shows "R\<^sup>*\<^sup>* z z' \<Longrightarrow> zip_of st = z \<Longrightarrow> length (snd z) \<le> n \<Longrightarrow>
         \<exists>st' \<in> set (star_iter m n st). zip_of st' = z'"
proof (induction arbitrary: st n rule: converse_rtranclp_induct)
  case base
  then show ?case by (cases n) auto
next
  case (step z z1)
  show ?case
  proof (cases "length (snd z1) < length (snd z)")
    case True
    with step.prems obtain k where n: "n = Suc k" and k: "length (snd z1) \<le> k" by (cases n) auto
    from m step.hyps(1) step.prems(1) obtain st1 where st1: "st1 \<in> set (m st)" "zip_of st1 = z1" by blast
    from step.IH [OF st1(2) k] obtain st' where "st' \<in> set (star_iter m k st1)" "zip_of st' = z'" by blast
    moreover have "length (ahead st1) < length (ahead st)"
      using True st1(2) step.prems(1) by (auto simp: zip_of_def)
    ultimately show ?thesis using st1(1) n by (blast intro: star_iterI)
  next
    case False
    with adv [OF step.hyps(1)] have "z1 = z"
      by (metis advances_length advances_same_length le_antisym not_less)
    with step.IH step.prems show ?thesis by simp
  qed
qed

lemma rep_complete:
  assumes m: "\<And>st z'. matches r (zip_of st) z' \<Longrightarrow> \<exists>st' \<in> set (m st). zip_of st' = z'"
  shows "matches (Rep n k r) z z' \<Longrightarrow> zip_of st = z \<Longrightarrow>
         \<exists>st1 \<in> set (rep_exact m n st). \<exists>st' \<in> set (rep_upto m (k - n) st1). zip_of st' = z'"
proof (induction "Rep n k r" z z' arbitrary: n k st rule: matches.induct)
  case (m_rep0 k z)
  then show ?case by (cases k) auto
next
  case (m_repS z z1 n k z2)
  from m m_repS.hyps(1) m_repS.prems obtain st1 where "st1 \<in> set (m st)" "zip_of st1 = z1" by blast
  with m_repS.hyps(4) [of st1] show ?case by fastforce
next
  case (m_repO z z1 k z2)
  from m m_repO.hyps(1) m_repO.prems obtain st1 where "st1 \<in> set (m st)" "zip_of st1 = z1" by blast
  with m_repO.hyps(4) [of st1] show ?case by fastforce
qed

lemma rmatch_complete: "matches r (zip_of st) z' \<Longrightarrow> \<exists>st' \<in> set (rmatch r st). zip_of st' = z'"
proof (induction r arbitrary: st z')
  case (Cat r1 r2)
  then obtain z1 where "matches r1 (zip_of st) z1" "matches r2 z1 z'" by (auto elim: m_catE)
  with Cat.IH obtain st1 st' where "st1 \<in> set (rmatch r1 st)" "st' \<in> set (rmatch r2 st1)" "zip_of st' = z'"
    by blast
  then show ?case by (blast intro: rmatch_CatI)
next
  case (Alt r1 r2)
  then have "matches r1 (zip_of st) z' \<or> matches r2 (zip_of st) z'" by (auto elim: m_altE)
  with Alt.IH show ?case by (metis Un_iff rmatch.simps(5) set_append)
next
  case (Star r)
  show ?case
    using star_iter_complete [of "matches r" "rmatch r", OF Star.IH matches_advances] Star.prems
    by (simp add: matches_star_rtranclp)
next
  case (Rep n k r)
  from rep_complete [OF Rep.IH Rep.prems] show ?case by simp
next
  case (Grp k r)
  obtain p s g where st: "st = (p, s, g)" by (cases st)
  from Grp.prems have "matches r (zip_of st) z'" by (auto elim: m_grpE)
  from Grp.IH [OF this] obtain p' s' g' where "(p', s', g') \<in> set (rmatch r st)" "z' = (p', s')"
    by (auto simp: zip_of_def)
  then show ?case by (force simp: st)
qed (auto simp: zip_of_def elim: matches_elims)

theorem rmatch_iff_matches:
  "(\<exists>st' \<in> set (rmatch r st). zip_of st' = z') \<longleftrightarrow> matches r (zip_of st) z'"
  using rmatch_sound rmatch_complete by blast

lemma rmatch_Nil_iff: "rmatch r (p, s, g) = [] \<longleftrightarrow> (\<forall>z'. \<not> matches r (p, s) z')"
proof (cases "rmatch r (p, s, g)")
  case Nil
  then show ?thesis using rmatch_complete [of r "(p, s, g)"] by fastforce
next
  case (Cons st sts)
  then have "matches r (p, s) (zip_of st)" using rmatch_sound [of st r "(p, s, g)"] by simp
  with Cons show ?thesis by (metis list.distinct(1))
qed

lemma rmatch_NilD: "rmatch r (p, s, g) = [] \<Longrightarrow> \<not> matches r (p, s) z"
  by (metis rmatch_Nil_iff)

section \<open>Searching and replacing\<close>

lemma re_find_skip:
  "rmatch r (p, c # t, []) = [] \<Longrightarrow>
   re_find r p (c # t) = map_option (\<lambda>(sk, m, st). (c # sk, m, st)) (re_find r (c # p) t)"
  by (simp add: re_find.simps [of r p "c # t"])

text \<open>What \<open>re_find\<close> returns: a split of the text, a match at the split, and no match before.\<close>

lemma re_find_Some:
  "re_find r p s = Some (sk, m, (p', s', g)) \<Longrightarrow>
   s = sk @ m @ s' \<and> p' = rev m @ rev sk @ p \<and> matches r (rev sk @ p, m @ s') (p', s') \<and>
   (\<forall>i < length sk. \<forall>z. \<not> matches r (rev (take i s) @ p, drop i s) z)"
proof (induction r p s arbitrary: sk rule: re_find.induct)
  case (1 r p s)
  show ?case
  proof (cases "rmatch r (p, s, [])")
    case (Cons st sts)
    with "1.prems" have sk: "sk = []" and m: "m = take (length s - length s') s"
      and st: "st = (p', s', g)" by (auto simp: re_find.simps [of r p s] split: prod.splits)
    have mt: "matches r (p, s) (p', s')"
      using rmatch_sound [of st r "(p, s, [])"] Cons st by simp
    from matches_advances [OF mt] obtain u where "s = u @ s'" "p' = rev u @ p"
      by (auto simp: advances_def)
    with m sk mt show ?thesis by simp
  next
    case Nil
    with "1.prems" obtain c t where s: "s = c # t"
      by (auto simp: re_find.simps [of r p s] split: list.splits)
    with Nil "1.prems" obtain sk' where rec: "re_find r (c # p) t = Some (sk', m, (p', s', g))"
      and sk: "sk = c # sk'" by (auto simp: re_find_skip)
    note IH = "1.IH" [OF Nil s rec]
    have "\<not> matches r (rev (take i s) @ p, drop i s) z" if "i < length sk" for i z
    proof (cases i)
      case 0
      with Nil show ?thesis by (auto dest: rmatch_NilD)
    next
      case (Suc j)
      with that sk have "j < length sk'" by simp
      with IH have "\<not> matches r (rev (take j t) @ c # p, drop j t) z" by blast
      with Suc s show ?thesis by simp
    qed
    with IH s sk show ?thesis by auto
  qed
qed

lemma re_find_None:
  "re_find r p s = None \<longleftrightarrow> (\<forall>u t z. s = u @ t \<longrightarrow> \<not> matches r (rev u @ p, t) z)"
proof (induction r p s rule: re_find.induct)
  case (1 r p s)
  show ?case
  proof (cases "rmatch r (p, s, [])")
    case (Cons st sts)
    then have "\<not> (\<forall>z'. \<not> matches r (p, s) z')"
      using rmatch_Nil_iff [of r p s "[]"] by simp
    then have "\<not> (\<forall>u t z. s = u @ t \<longrightarrow> \<not> matches r (rev u @ p, t) z)"
      by (metis append_Nil rev.simps(1))
    with Cons show ?thesis by (simp add: re_find.simps [of r p s] split: prod.splits)
  next
    case Nil
    then have here: "\<not> matches r (p, s) z" for z by (rule rmatch_NilD)
    show ?thesis
    proof (cases s)
      case Nil
      with \<open>rmatch r (p, s, []) = []\<close> here show ?thesis by (simp add: re_find.simps [of r p "[]"])
    next
      case (Cons c t)
      have "re_find r p s = None \<longleftrightarrow> re_find r (c # p) t = None"
        using Nil Cons by (simp add: re_find_skip)
      also have "\<dots> \<longleftrightarrow> (\<forall>u v z. t = u @ v \<longrightarrow> \<not> matches r (rev u @ c # p, v) z)"
        by (rule "1.IH" [OF Nil Cons])
      also have "\<dots> \<longleftrightarrow> (\<forall>u v z. s = u @ v \<longrightarrow> \<not> matches r (rev u @ p, v) z)"
      proof (intro iffI allI impI)
        fix u v z
        assume tail: "\<forall>u v z. t = u @ v \<longrightarrow> \<not> matches r (rev u @ c # p, v) z" and "s = u @ v"
        show "\<not> matches r (rev u @ p, v) z"
        proof (cases u)
          case Nil
          with here \<open>s = u @ v\<close> show ?thesis by simp
        next
          case u: (Cons d u')
          with Cons \<open>s = u @ v\<close> have "d = c" "t = u' @ v" by auto
          with tail have "\<not> matches r (rev u' @ c # p, v) z" by blast
          with u \<open>d = c\<close> show ?thesis by simp
        qed
      next
        fix u v z
        assume all: "\<forall>u v z. s = u @ v \<longrightarrow> \<not> matches r (rev u @ p, v) z" and "t = u @ v"
        with Cons have "s = (c # u) @ v" by simp
        with all have "\<not> matches r (rev (c # u) @ p, v) z" by blast
        then show "\<not> matches r (rev u @ c # p, v) z" by simp
      qed
      finally show ?thesis .
    qed
  qed
qed

text \<open>\<open>MatchString\<close> is true exactly when the pattern matches somewhere in the text.\<close>

theorem match_string_iff:
  "match_string r s \<longleftrightarrow> (\<exists>u t z. s = u @ t \<and> matches r (rev u, t) z)"
  by (auto simp: match_string_def re_find_None)

text \<open>\<open>ReplaceAllStringFunc\<close>: the text between matches is copied, each match is replaced, and
  the search goes on behind the match. (After an empty match one byte is copied, so that the
  loop advances; no pattern of the source matches the empty string.)\<close>

function replace_go :: "re \<Rightarrow> (string \<Rightarrow> string) \<Rightarrow> string \<Rightarrow> string \<Rightarrow> string" where
  "replace_go r f p s =
     (case re_find r p s of
        None \<Rightarrow> s
      | Some (sk, m, (p', s', g)) \<Rightarrow>
          if m = [] then sk @ f m @ (case s' of [] \<Rightarrow> [] | c # t \<Rightarrow> c # replace_go r f (c # p') t)
          else sk @ f m @ replace_go r f p' s')"
  by pat_completeness auto
termination
  by (relation "measure (\<lambda>(r, f, p, s). length s)") (auto dest!: re_find_Some)

declare replace_go.simps [simp del]

definition replace_all_func :: "re \<Rightarrow> (string \<Rightarrow> string) \<Rightarrow> string \<Rightarrow> string" where
  "replace_all_func r f s = replace_go r f [] s"

text \<open>\<open>ReplaceAllString(s, repl)\<close>; the source's replacements have no \<open>$\<close> references.\<close>

definition replace_all :: "re \<Rightarrow> string \<Rightarrow> string \<Rightarrow> string" where
  "replace_all r repl s = replace_all_func r (\<lambda>_. repl) s"

lemma replace_all_func_no_match: "\<not> match_string r s \<Longrightarrow> replace_all_func r f s = s"
  by (simp add: replace_all_func_def match_string_def replace_go.simps [of r f "[]" s] del: not_None_eq)

lemma replace_all_no_match [go_str]: "\<not> match_string r s \<Longrightarrow> replace_all r repl s = s"
  by (simp add: replace_all_def replace_all_func_no_match)

lemma re_find_consumes:
  assumes "re_find r p s = Some (sk, m, (p', s', g))" and "0 < min_len r"
  shows "m \<noteq> []" and "length s' < length s"
proof -
  from re_find_Some [OF assms(1)] have s: "s = sk @ m @ s'"
    and mt: "matches r (rev sk @ p, m @ s') (p', s')" by blast+
  from matches_min_len [OF mt] assms(2) show "m \<noteq> []" by auto
  with s show "length s' < length s" by simp
qed

text \<open>Induction over the matches of a pattern that consumes: the shape of every proof about a
  replacement.\<close>

lemma replace_induct [consumes 1, case_names None Some]:
  assumes len: "0 < min_len r"
    and none: "\<And>p s. re_find r p s = None \<Longrightarrow> Q p s"
    and some: "\<And>p s sk m p' s' g. re_find r p s = Some (sk, m, (p', s', g)) \<Longrightarrow> m \<noteq> [] \<Longrightarrow>
                 s = sk @ m @ s' \<Longrightarrow> Q p' s' \<Longrightarrow> Q p s"
  shows "Q p s"
proof (induction s arbitrary: p rule: length_induct)
  case (1 s)
  show ?case
  proof (cases "re_find r p s")
    case None
    then show ?thesis by (rule none)
  next
    case (Some a)
    obtain sk m p' s' g where a: "a = (sk, m, (p', s', g))" by (cases a) auto
    note found = Some [unfolded a]
    have "m \<noteq> []" and "length s' < length s" using re_find_consumes [OF found len] by auto
    with "1" found re_find_Some [OF found] show ?thesis by (intro some [of p s sk m p' s' g]) auto
  qed
qed

lemma replace_go_None: "re_find r p s = None \<Longrightarrow> replace_go r f p s = s"
  by (simp add: replace_go.simps)

lemma replace_go_Some:
  "re_find r p s = Some (sk, m, (p', s', g)) \<Longrightarrow> m \<noteq> [] \<Longrightarrow>
   replace_go r f p s = sk @ f m @ replace_go r f p' s'"
  by (simp add: replace_go.simps [of r f p s])

text \<open>A property of bytes that holds in what is kept and in what is inserted holds in the result.\<close>

lemma replace_go_bytes:
  assumes "0 < min_len r" and "\<And>m. \<forall>c \<in> set (f m). P c"
  shows "\<forall>c \<in> set s. P c \<Longrightarrow> \<forall>c \<in> set (replace_go r f p s). P c"
  using assms(1)
proof (induction p s rule: replace_induct)
  case (Some p s sk m p' s' g)
  then show ?case using assms(2) by (auto simp: replace_go_Some)
qed (simp add: replace_go_None)

text \<open>After replacing every run of bytes outside a class, only bytes of the class and of the
  replacement are left: the shape of the punctuation and whitespace folds.\<close>

lemma re_find_cls_plus_None:
  "re_find (re_plus (Cls neg rs)) p s = None \<Longrightarrow> c \<in> set s \<Longrightarrow> in_ranges rs c = neg"
proof (rule ccontr)
  assume none: "re_find (re_plus (Cls neg rs)) p s = None" and "c \<in> set s" and "in_ranges rs c \<noteq> neg"
  obtain u t where s: "s = u @ c # t" using split_list [OF \<open>c \<in> set s\<close>] by blast
  have "matches (re_plus (Cls neg rs)) (rev u @ p, c # t) (c # rev u @ p, t)"
    using \<open>in_ranges rs c \<noteq> neg\<close> unfolding re_plus_def by (blast intro: matches.intros)
  with none s show False unfolding re_find_None by blast
qed

lemma re_find_cls_skipped:
  assumes "re_find (re_plus (Cls neg rs)) p s = Some (sk, m, st)" and "c \<in> set sk"
  shows "in_ranges rs c = neg"
proof (rule ccontr)
  assume out: "in_ranges rs c \<noteq> neg"
  obtain p' s' g where st: "st = (p', s', g)" by (cases st)
  obtain u t where sk: "sk = u @ c # t" using split_list [OF assms(2)] by blast
  from re_find_Some [OF assms(1) [unfolded st]] have s: "s = sk @ m @ s'"
    and leftmost: "\<forall>i < length sk. \<forall>z. \<not> matches (re_plus (Cls neg rs)) (rev (take i s) @ p, drop i s) z"
    by blast+
  have "matches (re_plus (Cls neg rs)) (rev u @ p, c # t @ m @ s') (c # rev u @ p, t @ m @ s')"
    using out unfolding re_plus_def by (blast intro: matches.intros)
  moreover have "take (length u) s = u" "drop (length u) s = c # t @ m @ s'" using s sk by auto
  ultimately show False using leftmost sk by (metis length_append add_Suc_right length_Cons less_add_Suc1)
qed

lemma replace_cls_plus_bytes:
  assumes "\<And>m. \<forall>c \<in> set (f m). in_ranges rs c = neg"
  shows "\<forall>c \<in> set (replace_go (re_plus (Cls neg rs)) f p s). in_ranges rs c = neg"
proof -
  have "0 < min_len (re_plus (Cls neg rs))" by (simp add: re_plus_def)
  then show ?thesis
  proof (induction p s rule: replace_induct)
    case (None p s)
    then show ?case by (auto simp: replace_go_None dest: re_find_cls_plus_None)
  next
    case (Some p s sk m p' s' g)
    with assms re_find_cls_skipped show ?case by (fastforce simp: replace_go_Some)
  qed
qed

section \<open>Patterns without a word boundary\<close>

text \<open>Such a pattern reads only the bytes it consumes: whether it matches a block does not depend
  on what surrounds it. \<open>avoids c r\<close> says that no match of \<open>r\<close> consumes the byte \<open>c\<close>.\<close>

primrec ctx_free :: "re \<Rightarrow> bool" where
  "ctx_free (Cls neg rs) = True"
| "ctx_free WordB = False"
| "ctx_free Eps = True"
| "ctx_free (Cat r1 r2) = (ctx_free r1 \<and> ctx_free r2)"
| "ctx_free (Alt r1 r2) = (ctx_free r1 \<and> ctx_free r2)"
| "ctx_free (Star r) = ctx_free r"
| "ctx_free (Rep n m r) = ctx_free r"
| "ctx_free (Grp k r) = ctx_free r"

primrec avoids :: "char \<Rightarrow> re \<Rightarrow> bool" where
  "avoids c (Cls neg rs) = (in_ranges rs c = neg)"
| "avoids c WordB = True"
| "avoids c Eps = True"
| "avoids c (Cat r1 r2) = (avoids c r1 \<and> avoids c r2)"
| "avoids c (Alt r1 r2) = (avoids c r1 \<and> avoids c r2)"
| "avoids c (Star r) = avoids c r"
| "avoids c (Rep n m r) = avoids c r"
| "avoids c (Grp k r) = avoids c r"

definition consumes :: "re \<Rightarrow> string \<Rightarrow> bool" where
  "consumes r u \<longleftrightarrow> (\<forall>p t. matches r (p, u @ t) (rev u @ p, t))"

lemma consumes_seq:
  assumes "consumes r1 u" and "consumes r2 v"
    and "\<And>z z1 z2. matches r1 z z1 \<Longrightarrow> matches r2 z1 z2 \<Longrightarrow> matches r z z2"
  shows "consumes r (u @ v)"
  unfolding consumes_def
proof (intro allI)
  fix p t
  have "matches r1 (p, u @ v @ t) (rev u @ p, v @ t)" and "matches r2 (rev u @ p, v @ t) (rev v @ rev u @ p, t)"
    using assms(1,2) unfolding consumes_def by blast+
  from assms(3) [OF this] show "matches r (p, (u @ v) @ t) (rev (u @ v) @ p, t)" by simp
qed

lemma matches_consumes:
  "matches r z z' \<Longrightarrow> ctx_free r \<Longrightarrow>
     \<exists>u. snd z = u @ snd z' \<and> fst z' = rev u @ fst z \<and> consumes r u"
proof (induction rule: matches.induct)
  case (m_cls rs c neg p s)
  then show ?case by (intro exI [of _ "[c]"]) (auto simp: consumes_def intro: matches.intros)
next
  case (m_cat r1 z z1 r2 z2)
  then obtain u v where "snd z = u @ snd z1" "fst z1 = rev u @ fst z" "consumes r1 u"
    "snd z1 = v @ snd z2" "fst z2 = rev v @ fst z1" "consumes r2 v" by auto
  moreover from this have "consumes (Cat r1 r2) (u @ v)"
    by (auto intro: consumes_seq matches.m_cat)
  ultimately show ?case by (intro exI [of _ "u @ v"]) auto
next
  case (m_star1 r z z1 z2)
  then obtain u v where "snd z = u @ snd z1" "fst z1 = rev u @ fst z" "consumes r u"
    "snd z1 = v @ snd z2" "fst z2 = rev v @ fst z1" "consumes (Star r) v" by auto
  moreover from this have "consumes (Star r) (u @ v)"
    by (auto intro: consumes_seq matches.m_star1)
  ultimately show ?case by (intro exI [of _ "u @ v"]) auto
next
  case (m_repS r z z1 n m z2)
  then obtain u v where "snd z = u @ snd z1" "fst z1 = rev u @ fst z" "consumes r u"
    "snd z1 = v @ snd z2" "fst z2 = rev v @ fst z1" "consumes (Rep n (m - 1) r) v" by auto
  moreover from this have "consumes (Rep (Suc n) m r) (u @ v)"
    by (intro consumes_seq [of r u "Rep n (m - 1) r" v]) (auto intro: matches.m_repS)
  ultimately show ?case by (intro exI [of _ "u @ v"]) auto
next
  case (m_repO r z z1 m z2)
  then obtain u v where "snd z = u @ snd z1" "fst z1 = rev u @ fst z" "consumes r u"
    "snd z1 = v @ snd z2" "fst z2 = rev v @ fst z1" "consumes (Rep 0 m r) v" by auto
  moreover from this have "consumes (Rep 0 (Suc m) r) (u @ v)"
    by (auto intro: consumes_seq matches.m_repO)
  ultimately show ?case by (intro exI [of _ "u @ v"]) auto
next
  case (m_alt1 r1 z z1 r2)
  then show ?case unfolding consumes_def by (auto intro: matches.m_alt1)
next
  case (m_alt2 r2 z z1 r1)
  then show ?case unfolding consumes_def by (auto intro: matches.m_alt2)
next
  case (m_grp r z z1 j)
  then show ?case unfolding consumes_def by (auto intro: matches.m_grp)
qed (auto simp: consumes_def intro: matches.intros)

lemma matches_avoids: "matches r z z' \<Longrightarrow> avoids c r \<Longrightarrow> \<exists>u. snd z = u @ snd z' \<and> c \<notin> set u"
proof (induction rule: matches.induct)
  case (m_cls rs c' neg p s)
  then show ?case by (intro exI [of _ "[c']"]) auto
next
  case (m_cat r1 z z1 r2 z2)
  then obtain u v where "snd z = (u @ v) @ snd z2" "c \<notin> set (u @ v)" by auto
  then show ?case by blast
next
  case (m_star1 r z z1 z2)
  then obtain u v where "snd z = (u @ v) @ snd z2" "c \<notin> set (u @ v)" by auto
  then show ?case by blast
next
  case (m_repS r z z1 n m z2)
  then obtain u v where "snd z = (u @ v) @ snd z2" "c \<notin> set (u @ v)" by auto
  then show ?case by blast
next
  case (m_repO r z z1 m z2)
  then obtain u v where "snd z = (u @ v) @ snd z2" "c \<notin> set (u @ v)" by auto
  then show ?case by blast
qed auto

definition hit :: "re \<Rightarrow> string \<Rightarrow> bool" where
  "hit r s \<longleftrightarrow> (\<exists>a u b. s = a @ u @ b \<and> consumes r u)"

lemma hit_iff: "ctx_free r \<Longrightarrow> match_string r s \<longleftrightarrow> hit r s"
proof
  assume cf: "ctx_free r" and "match_string r s"
  then obtain a t z where "s = a @ t" and "matches r (rev a, t) z" by (auto simp: match_string_iff)
  with matches_consumes [OF this(2) cf] show "hit r s" unfolding hit_def by auto
next
  assume "hit r s"
  then obtain a u b where "s = a @ u @ b" "matches r (rev a, u @ b) (rev u @ rev a, b)"
    by (auto simp: hit_def consumes_def)
  then show "match_string r s" unfolding match_string_iff by blast
qed

lemma hit_append: "hit r s \<Longrightarrow> hit r (x @ s @ y)"
  unfolding hit_def by (metis append.assoc)

lemmas hit_left = hit_append [of r s "[]" for r s, simplified]
lemmas hit_right = hit_append [of r s _ "[]" for r s, simplified]

lemma consumes_avoids: "consumes r u \<Longrightarrow> avoids c r \<Longrightarrow> c \<notin> set u"
  unfolding consumes_def using matches_avoids [of r "([], u)" "(rev u, [])" c]
  by (metis append_Nil2 snd_conv)

lemma hit_split: "avoids c r \<Longrightarrow> hit r (x @ c # y) \<Longrightarrow> hit r x \<or> hit r y"
proof -
  assume av: "avoids c r" and "hit r (x @ c # y)"
  then obtain a u b where s: "x @ c # y = a @ u @ b" and u: "consumes r u" by (auto simp: hit_def)
  have "c \<notin> set u" using consumes_avoids [OF u av] .
  from s consider w where "x = a @ w" "w @ c # y = u @ b" | w where "x @ w = a" "c # y = w @ u @ b"
    by (auto simp: append_eq_append_conv2)
  then show ?thesis
  proof cases
    case 1
    from 1(2) consider v where "w = u @ v" | v where "w @ v = u" "c # y = v @ b"
      by (auto simp: append_eq_append_conv2)
    then show ?thesis
    proof cases
      case 1
      with \<open>x = a @ w\<close> u show ?thesis unfolding hit_def by blast
    next
      case 2
      with \<open>c \<notin> set u\<close> have "v = []" by (cases v) auto
      with 2 \<open>x = a @ w\<close> u have "x = a @ u @ []" by simp
      with u show ?thesis unfolding hit_def by blast
    qed
  next
    case 2
    show ?thesis
    proof (cases w)
      case Nil
      with 2 \<open>c \<notin> set u\<close> have "u = []" by (cases u) auto
      with u have "hit r y" unfolding hit_def by (metis append_Nil)
      then show ?thesis ..
    next
      case (Cons d v)
      with 2 have "y = v @ u @ b" by simp
      with u show ?thesis unfolding hit_def by blast
    qed
  qed
qed

text \<open>Placeholders that fence off what they replace: their first and last bytes occur in no match
  and no match lies between.\<close>

definition fenced :: "re \<Rightarrow> string \<Rightarrow> bool" where
  "fenced r w \<longleftrightarrow> (\<exists>c i d. w = c # i @ [d] \<and> avoids c r \<and> avoids d r \<and> \<not> hit r i)"

lemma hit_fenced: "fenced r w \<Longrightarrow> hit r (x @ w @ y) \<Longrightarrow> hit r x \<or> hit r y"
proof -
  assume "fenced r w" and h: "hit r (x @ w @ y)"
  then obtain c i d where w: "w = c # i @ [d]" and c: "avoids c r" and d: "avoids d r" and i: "\<not> hit r i"
    by (auto simp: fenced_def)
  from h w have "hit r (x @ c # (i @ d # y))" by simp
  from hit_split [OF c this] hit_split [OF d, of i y] i show ?thesis by blast
qed

lemma replace_removes:
  assumes "ctx_free r" and "0 < min_len r" and "\<And>m. fenced r (f m)"
  shows "\<not> hit r (replace_go r f p s)"
  using assms(2)
proof (induction p s rule: replace_induct)
  case (None p s)
  have "\<not> hit r s"
  proof
    assume "hit r s"
    then obtain a u b where "s = a @ u @ b" "matches r (rev a @ p, u @ b) (rev u @ rev a @ p, b)"
      by (auto simp: hit_def consumes_def)
    with None show False unfolding re_find_None by blast
  qed
  with None show ?case by (simp add: replace_go_None)
next
  case (Some p s sk m p' s' g)
  have "\<not> hit r sk"
  proof
    assume "hit r sk"
    then obtain a u b where sk: "sk = a @ u @ b" and u: "consumes r u" by (auto simp: hit_def)
    from u have "u \<noteq> []" using matches_min_len [of r "([], u)" "(rev u, [])"] assms(2)
      by (auto simp: consumes_def dest: spec [of _ "[]"])
    from u have "matches r (rev a @ p, u @ b @ m @ s') (rev u @ rev a @ p, b @ m @ s')"
      unfolding consumes_def by blast
    moreover have "take (length a) s = a" "drop (length a) s = u @ b @ m @ s'" "length a < length sk"
      using Some.hyps(3) sk \<open>u \<noteq> []\<close> by auto
    ultimately show False using re_find_Some [OF Some.hyps(1)] by metis
  qed
  with Some hit_fenced [OF assms(3)] show ?case by (auto simp: replace_go_Some)
qed

lemma replace_keeps_out:
  assumes "0 < min_len q" and "\<And>m. fenced r (f m)"
  shows "hit r (replace_go q f p s) \<Longrightarrow> hit r s"
  using assms(1)
proof (induction p s rule: replace_induct)
  case (None p s)
  then show ?case by (simp add: replace_go_None)
next
  case (Some p s sk m p' s' g)
  then have "hit r sk \<or> hit r s'"
    using hit_fenced [OF assms(2)] by (auto simp: replace_go_Some)
  with Some.hyps(3) show ?case using hit_append [of r sk "[]"] hit_append [of r s' "sk @ m" "[]"] by auto
qed

section \<open>The list of all matches\<close>

lemma find_all_go_length: "length (find_all_go r n p s) \<le> n"
  by (induction n arbitrary: p s) (auto split: option.splits prod.splits)

lemma find_all_length: "length (find_all r n s) \<le> n"
  unfolding find_all_def by (rule find_all_go_length)

lemma find_all_go_sublist: "t \<in> set (find_all_go r n p s) \<Longrightarrow> sublist t s"
proof (induction n arbitrary: p s)
  case (Suc n)
  then obtain sk m p' s' g where found: "re_find r p s = Some (sk, m, (p', s', g))"
    and "t = m \<or> t \<in> set (find_all_go r n p' s')"
    by (cases "re_find r p s") (auto split: prod.splits if_splits)
  moreover have "s = sk @ m @ s'" using re_find_Some [OF found] by blast
  ultimately show ?case using Suc.IH [of p' s']
    by (metis append.assoc append_Nil2 sublist_appendI sublist_order.order.trans)
qed simp

lemma find_all_sublist: "t \<in> set (find_all r n s) \<Longrightarrow> sublist t s"
  unfolding find_all_def by (rule find_all_go_sublist)

section \<open>Letter case\<close>

text \<open>\<open>case_closed r\<close>: every class of \<open>r\<close> holds both cases of a letter or neither.\<close>

definition upper_letters :: "char list" where
  "upper_letters = map byte_of [65..90]"

definition respects_case :: "byte_ranges \<Rightarrow> bool" where
  "respects_case rs = list_all (\<lambda>c. in_ranges rs c = in_ranges rs (lower_char c)) upper_letters"

primrec case_closed :: "re \<Rightarrow> bool" where
  "case_closed (Cls neg rs) =
     respects_case rs"
| "case_closed WordB = True"
| "case_closed Eps = True"
| "case_closed (Cat r1 r2) = (case_closed r1 \<and> case_closed r2)"
| "case_closed (Alt r1 r2) = (case_closed r1 \<and> case_closed r2)"
| "case_closed (Star r) = case_closed r"
| "case_closed (Rep n m r) = case_closed r"
| "case_closed (Grp k r) = case_closed r"

definition same_case :: "string \<Rightarrow> string \<Rightarrow> bool" where
  "same_case s t \<longleftrightarrow> map lower_char s = map lower_char t"

lemma same_case_Cons:
  "same_case (c # s) t \<longleftrightarrow> (\<exists>d u. t = d # u \<and> lower_char c = lower_char d \<and> same_case s u)"
  by (cases t) (auto simp: same_case_def)

lemma same_case_sym: "same_case s t \<Longrightarrow> same_case t s"
  by (simp add: same_case_def)

lemma upper_lettersI: "CHR ''A'' \<le> c \<Longrightarrow> c \<le> CHR ''Z'' \<Longrightarrow> c \<in> set upper_letters"
proof -
  assume "CHR ''A'' \<le> c" "c \<le> CHR ''Z''"
  then have "(65::nat) \<le> of_char c" "of_char c \<le> (90::nat)" by (simp_all add: less_eq_char_def)
  then have "byte_val c \<in> set [65..90]"
    by (metis atLeastAtMost_iff of_nat_le_iff of_nat_numeral of_nat_of_char set_upto)
  moreover have "c = byte_of (byte_val c)" by simp
  ultimately show ?thesis unfolding upper_letters_def by (metis image_eqI set_map)
qed

lemma in_ranges_lower:
  assumes "respects_case rs"
  shows "in_ranges rs (lower_char c) = in_ranges rs c"
proof (cases "CHR ''A'' \<le> c \<and> c \<le> CHR ''Z''")
  case True
  with assms upper_lettersI show ?thesis unfolding respects_case_def list_all_iff by blast
next
  case False
  then have "lower_char c = c" by (simp only: lower_char_def if_False)
  then show ?thesis by simp
qed

lemma in_ranges_same_case:
  "respects_case rs \<Longrightarrow> lower_char c = lower_char d \<Longrightarrow> in_ranges rs c = in_ranges rs d"
  using in_ranges_lower [of rs c] in_ranges_lower [of rs d] by simp

lemma re_word_respects_case: "respects_case re_word"
  by code_simp

lemmas re_word_same_case = in_ranges_same_case [OF re_word_respects_case]

lemma word_at_same_case:
  assumes "same_case s t"
  shows "word_at s = word_at t"
proof (cases s)
  case Nil
  with assms show ?thesis by (simp add: same_case_def)
next
  case (Cons c u)
  with assms obtain d v where t: "t = d # v" and cd: "lower_char c = lower_char d"
    by (auto simp: same_case_Cons)
  from re_word_same_case [OF cd] show ?thesis by (simp add: word_at_def Cons t)
qed

lemma word_boundary_same_case:
  "same_case p q \<Longrightarrow> same_case s t \<Longrightarrow> word_boundary p s = word_boundary q t"
  by (simp add: word_boundary_def word_at_same_case [of p q] word_at_same_case [of s t])

definition same_zip :: "zipper \<Rightarrow> zipper \<Rightarrow> bool" where
  "same_zip z w \<longleftrightarrow> same_case (fst z) (fst w) \<and> same_case (snd z) (snd w)"

lemma matches_same_case:
  "matches r z z' \<Longrightarrow> case_closed r \<Longrightarrow> same_zip z w \<Longrightarrow> \<exists>w'. matches r w w' \<and> same_zip z' w'"
proof (induction arbitrary: w rule: matches.induct)
  case (m_cls rs c neg p s)
  then obtain q d t where w: "w = (q, d # t)" and "same_case p q" "same_case s t"
    and cd: "lower_char c = lower_char d"
    by (cases w) (auto simp: same_zip_def same_case_Cons)
  moreover have "in_ranges rs c = in_ranges rs d"
    using in_ranges_same_case [OF _ cd] m_cls.prems(1) by simp
  ultimately show ?case using m_cls.hyps
    by (intro exI [of _ "(d # q, t)"]) (auto simp: same_zip_def same_case_Cons intro: matches.m_cls)
next
  case (m_word p s)
  obtain q t where w: "w = (q, t)" by (cases w)
  with m_word have "word_boundary q t"
    using word_boundary_same_case [of p q s t] by (simp add: same_zip_def)
  with m_word.prems(2) w show ?case by (blast intro: matches.m_word)
next
  case (m_cat r1 z z1 r2 z2)
  have cc: "case_closed r1" "case_closed r2" using m_cat.prems(1) by simp_all
  from m_cat.IH(1) [OF cc(1) m_cat.prems(2)] obtain w1 where 1: "matches r1 w w1" "same_zip z1 w1" by blast
  from m_cat.IH(2) [OF cc(2) 1(2)] obtain w2 where "matches r2 w1 w2" "same_zip z2 w2" by blast
  with 1 show ?case by (blast intro: matches.m_cat)
next
  case (m_star1 r z z1 z2)
  have cc: "case_closed r" using m_star1.prems(1) by simp
  from m_star1.IH(1) [OF cc m_star1.prems(2)] obtain w1 where 1: "matches r w w1" "same_zip z1 w1" by blast
  from m_star1.IH(2) [OF m_star1.prems(1) 1(2)] obtain w2 where "matches (Star r) w1 w2" "same_zip z2 w2" by blast
  with 1 show ?case by (blast intro: matches.m_star1)
next
  case (m_repS r z z1 n m z2)
  have cc: "case_closed r" using m_repS.prems(1) by simp
  from m_repS.IH(1) [OF cc m_repS.prems(2)] obtain w1 where 1: "matches r w w1" "same_zip z1 w1" by blast
  from m_repS.IH(2) [OF _ 1(2)] cc obtain w2 where "matches (Rep n (m - 1) r) w1 w2" "same_zip z2 w2"
    by (metis case_closed.simps(7))
  with 1 show ?case by (blast intro: matches.m_repS)
next
  case (m_repO r z z1 m z2)
  have cc: "case_closed r" using m_repO.prems(1) by simp
  from m_repO.IH(1) [OF cc m_repO.prems(2)] obtain w1 where 1: "matches r w w1" "same_zip z1 w1" by blast
  from m_repO.IH(2) [OF _ 1(2)] cc obtain w2 where "matches (Rep 0 m r) w1 w2" "same_zip z2 w2"
    by (metis case_closed.simps(7))
  with 1 show ?case by (blast intro: matches.m_repO)
next
  case (m_alt1 r1 z z1 r2)
  have cc: "case_closed r1" using m_alt1.prems(1) by simp
  from m_alt1.IH [OF cc m_alt1.prems(2)] obtain w1 where "matches r1 w w1" "same_zip z1 w1" by blast
  then show ?case by (blast intro: matches.m_alt1)
next
  case (m_alt2 r2 z z1 r1)
  have cc: "case_closed r2" using m_alt2.prems(1) by simp
  from m_alt2.IH [OF cc m_alt2.prems(2)] obtain w1 where "matches r2 w w1" "same_zip z1 w1" by blast
  then show ?case by (blast intro: matches.m_alt2)
next
  case (m_grp r z z1 j)
  have cc: "case_closed r" using m_grp.prems(1) by simp
  from m_grp.IH [OF cc m_grp.prems(2)] obtain w1 where "matches r w w1" "same_zip z1 w1" by blast
  then show ?case by (blast intro: matches.m_grp)
qed (blast intro: matches.m_eps matches.m_star0 matches.m_rep0)+

lemma same_case_split:
  assumes "same_case s t" and "s = u @ v"
  shows "map lower_char u = map lower_char (take (length u) t)"
    and "map lower_char v = map lower_char (drop (length u) t)"
  using assms by (simp_all add: same_case_def flip: take_map drop_map)
    (metis append_eq_conv_conj length_map map_append)+

lemma match_string_same_case:
  assumes "case_closed r" and "same_case s t"
  shows "match_string r s = match_string r t"
proof -
  have "match_string r t" if "match_string r s" and "same_case s t" for s t
  proof -
    from that(1) obtain u v z where s: "s = u @ v" and m: "matches r (rev u, v) z"
      by (auto simp: match_string_iff)
    let ?a = "take (length u) t" and ?b = "drop (length u) t"
    have "map lower_char u = map lower_char ?a" "map lower_char v = map lower_char ?b"
      using that(2) s same_case_split by blast+
    then have "same_zip (rev u, v) (rev ?a, ?b)"
      by (simp add: same_zip_def same_case_def flip: rev_map)
    from matches_same_case [OF m assms(1) this] show ?thesis
      unfolding match_string_iff using append_take_drop_id [of "length u" t] by metis
  qed
  with assms(2) same_case_sym show ?thesis by blast
qed

end
