(* ===== verification/Detector.thy ===== *)
theory Detector
  imports Prelude Regexp
begin

text \<open>
  The Detector seam and its two pure-Go backends, RegexDetector and NativeDetector
  (\<open>detector.go\<close>): the recognizers pattern by pattern, redaction, the injection scan with its
  bounded decode-and-rescan, and the borderline scan. The laws the guard relies on are the
  locale \<open>detector_seam\<close>.
\<close>

section \<open>The interface\<close>

record detector =
  det_RedactPII :: "string \<Rightarrow> string \<times> string list"
  det_DetectInjection :: "string \<Rightarrow> string list"
  det_DetectBorderline :: "string \<Rightarrow> string list"

abbreviation injection_suspected :: string where
  "injection_suspected \<equiv> ''injection_suspected''"

abbreviation borderline_suspected :: string where
  "borderline_suspected \<equiv> ''borderline_suspected''"

abbreviation pii_flag :: "string \<Rightarrow> string" where
  "pii_flag label \<equiv> ''pii:'' @ label"

locale detector_seam =
  fixes det :: detector
  assumes injection_flags: "det_DetectInjection det t \<in> {[], [injection_suspected]}"
    and borderline_flags: "det_DetectBorderline det t \<in> {[], [borderline_suspected]}"
    and redaction_flags: "f \<in> set (snd (det_RedactPII det t)) \<Longrightarrow> has_prefix f ''pii:''"
    and clean_text: "snd (det_RedactPII det t) = [] \<Longrightarrow> fst (det_RedactPII det t) = t"
begin

text \<open>The three flag families are disjoint, so membership in a concatenation of them says which
  detector method fired.\<close>

lemma not_pii [simp]:
  "injection_suspected \<notin> set (snd (det_RedactPII det t))"
  "borderline_suspected \<notin> set (snd (det_RedactPII det t))"
  using redaction_flags [of injection_suspected t] redaction_flags [of borderline_suspected t]
  by (auto simp: has_prefix_def)

lemma not_crossed [simp]:
  "borderline_suspected \<notin> set (det_DetectInjection det t)"
  "injection_suspected \<notin> set (det_DetectBorderline det t)"
  using injection_flags [of t] borderline_flags [of t] by auto

lemma injection_in [simp]:
  "injection_suspected \<in> set (det_DetectInjection det t) \<longleftrightarrow> det_DetectInjection det t \<noteq> []"
  using injection_flags [of t] by auto

lemma borderline_in [simp]:
  "borderline_suspected \<in> set (det_DetectBorderline det t) \<longleftrightarrow> det_DetectBorderline det t \<noteq> []"
  using borderline_flags [of t] by auto

end

section \<open>Recognizers\<close>

abbreviation d_digit :: re where
  "d_digit \<equiv> cls re_digit"

abbreviation d_space :: re where
  "d_space \<equiv> cls re_space"

abbreviation d_one :: "char \<Rightarrow> re" where
  "d_one c \<equiv> cls [(c, c)]"

abbreviation d_range :: "char \<Rightarrow> char \<Rightarrow> re" where
  "d_range a b \<equiv> cls [(a, b)]"

abbreviation d_hex :: re where
  "d_hex \<equiv> cls [(CHR ''0'', CHR ''9''), (CHR ''a'', CHR ''f''), (CHR ''A'', CHR ''F'')]"

text \<open>\<open>\d{n}\<close> and friends: exactly \<open>n\<close> times.\<close>

abbreviation times_n :: "nat \<Rightarrow> re \<Rightarrow> re" where
  "times_n n r \<equiv> Rep n n r"

text \<open>\<open>[A-Za-z0-9+/]{16,}={0,2}\<close>\<close>

definition b64TokenPattern :: re where
  "b64TokenPattern =
     re_seq [re_atleast 16 (cls ([(CHR ''A'', CHR ''Z''), (CHR ''a'', CHR ''z''), (CHR ''0'', CHR ''9'')]
               @ singles ''+/'')),
             Rep 0 2 (d_one (CHR ''=''))]"

text \<open>\<open>[\w.+-]+@[\w-]+\.[\w.-]+\<close>\<close>

definition email_re :: re where
  "email_re =
     re_seq [re_plus (cls (re_word @ singles ''.+-'')), d_one (CHR ''@''),
             re_plus (cls (re_word @ singles ''-'')), d_one (CHR ''.''),
             re_plus (cls (re_word @ singles ''.-''))]"

text \<open>\<open>\b\d{3}-\d{2}-\d{4}\b\<close>\<close>

definition ssn_re :: re where
  "ssn_re =
     re_seq [WordB, times_n 3 d_digit, d_one (CHR ''-''), times_n 2 d_digit, d_one (CHR ''-''),
             times_n 4 d_digit, WordB]"

text \<open>\<open>\b(?:\d[ -]?){13,16}\b\<close>\<close>

definition credit_card_re :: re where
  "credit_card_re =
     re_seq [WordB, Rep 13 16 (Cat d_digit (re_opt (cls (singles '' -'')))), WordB]"

text \<open>\<open>\b(?:sk-ant|sk|AKIA|ghp|xox[baprs]|hf_|npm_|pat_|xp_)[-_A-Za-z0-9]{8,}\<close>\<close>

definition api_key_re :: re where
  "api_key_re =
     re_seq [WordB,
             re_alts [re_lit ''sk-ant'', re_lit ''sk'', re_lit ''AKIA'', re_lit ''ghp'',
                      Cat (re_lit ''xox'') (cls (singles ''baprs'')), re_lit ''hf_'', re_lit ''npm_'',
                      re_lit ''pat_'', re_lit ''xp_''],
             re_atleast 8 (cls (singles ''-_'' @
               [(CHR ''A'', CHR ''Z''), (CHR ''a'', CHR ''z''), (CHR ''0'', CHR ''9'')]))]"

text \<open>\<open>\b(?:\+1[\s.-]?)?\(?\d{3}\)?[\s.-]\d{3}[\s.-]\d{4}\b\<close>\<close>

definition phone_re :: re where
  "phone_re =
     (let sep = cls (re_space @ singles ''.-'') in
      re_seq [WordB, re_opt (Cat (re_lit ''+1'') (re_opt sep)), re_opt (d_one (CHR ''('')),
              times_n 3 d_digit, re_opt (d_one (CHR '')'')), sep, times_n 3 d_digit, sep,
              times_n 4 d_digit, WordB])"

text \<open>\<open>\b[A-Z]{2}\d{2}[A-Z0-9]{4,30}\b\<close>\<close>

definition iban_re :: re where
  "iban_re =
     re_seq [WordB, times_n 2 (d_range (CHR ''A'') (CHR ''Z'')), times_n 2 d_digit,
             Rep 4 30 (cls [(CHR ''A'', CHR ''Z''), (CHR ''0'', CHR ''9'')]), WordB]"

text \<open>An octet \<open>25[0-5]|2[0-4]\d|[01]?\d\d?\<close>, then
  \<open>\b(?:octet\.){3}(?:octet)\b|(?:hex{1,4}:){7}hex{1,4}|(?:hex{1,4}:){1,7}:|::(?:hex{1,4}:){0,6}hex{1,4}\<close>\<close>

definition octet_re :: re where
  "octet_re =
     re_alts [Cat (re_lit ''25'') (d_range (CHR ''0'') (CHR ''5'')),
              re_seq [d_one (CHR ''2''), d_range (CHR ''0'') (CHR ''4''), d_digit],
              re_seq [re_opt (cls (singles ''01'')), d_digit, re_opt d_digit]]"

definition ip_address_re :: re where
  "ip_address_re =
     (let h = Rep 1 4 d_hex; hc = Cat h (d_one (CHR '':'')) in
      re_alts [re_seq [WordB, times_n 3 (Cat octet_re (d_one (CHR ''.''))), octet_re, WordB],
               Cat (times_n 7 hc) h,
               Cat (Rep 1 7 hc) (d_one (CHR '':'')),
               re_seq [re_lit ''::'', Rep 0 6 hc, h]])"

text \<open>\<open>\b(?:0?[1-9]|1[0-2])/(?:0?[1-9]|[12]\d|3[01])/(?:19|20)\d{2}\b\<close>,
  \<open>\b(?:19|20)\d{2}-(?:0[1-9]|1[0-2])-(?:0[1-9]|[12]\d|3[01])\b\<close> and
  \<open>\b(?:0?[1-9]|[12]\d|3[01])\s+(?:Jan|..|Dec)[a-z]*\s+(?:19|20)\d{2}\b\<close>\<close>

definition dob_re :: re where
  "dob_re =
     (let one9 = d_range (CHR ''1'') (CHR ''9'');
          zero = d_one (CHR ''0'');
          year = Cat (Alt (re_lit ''19'') (re_lit ''20'')) (times_n 2 d_digit);
          d12 = Cat (cls (singles ''12'')) d_digit;
          d3 = Cat (d_one (CHR ''3'')) (cls (singles ''01''));
          m1 = Cat (d_one (CHR ''1'')) (d_range (CHR ''0'') (CHR ''2''));
          day_opt = re_alts [Cat (re_opt zero) one9, d12, d3];
          month = re_alts (map re_lit [''Jan'', ''Feb'', ''Mar'', ''Apr'', ''May'', ''Jun'', ''Jul'',
                                       ''Aug'', ''Sep'', ''Oct'', ''Nov'', ''Dec''])
      in re_alts
        [re_seq [WordB, Alt (Cat (re_opt zero) one9) m1, d_one (CHR ''/''), day_opt, d_one (CHR ''/''),
                 year, WordB],
         re_seq [WordB, year, d_one (CHR ''-''), Alt (Cat zero one9) m1, d_one (CHR ''-''),
                 re_alts [Cat zero one9, d12, d3], WordB],
         re_seq [WordB, day_opt, re_plus d_space, month, Star (d_range (CHR ''a'') (CHR ''z'')),
                 re_plus d_space, year, WordB]])"

text \<open>\<open>\b[0-9a-fA-F]{32,}\b\<close>\<close>

definition credential_re :: re where
  "credential_re = re_seq [WordB, re_atleast 32 d_hex, WordB]"

type_synonym labeledPattern = "string \<times> re"

record RegexDetector =
  rd_pii :: "labeledPattern list"
  rd_injection :: "re list"
  rd_borderline :: "re list"

text \<open>The injection patterns, all \<open>(?i)\<close>: \<open>ignore\b[\w\s]*\binstructions\<close>,
  \<open>disregard\b[\w\s]*\binstructions\<close>, \<open>system prompt\<close>, \<open></?(?:system|instructions)>\<close>,
  \<open>\[INJECT[:\s]\<close>, \<open>\bunrestricted\s+(?:ai|assistant|model|llm|chatbot|gpt|bot)\b\<close>. The borderline
  pattern: \<open>pretend\s+(?:the\s+above|this)\s+never\s+happened\<close>.\<close>

definition injection_patterns :: "re list" where
  "injection_patterns =
     [re_seq [ci_lit ''ignore'', WordB, Star (ci_cls (re_word @ re_space)), WordB, ci_lit ''instructions''],
      re_seq [ci_lit ''disregard'', WordB, Star (ci_cls (re_word @ re_space)), WordB, ci_lit ''instructions''],
      ci_lit ''system prompt'',
      re_seq [d_one (CHR ''<''), re_opt (d_one (CHR ''/'')),
              Alt (ci_lit ''system'') (ci_lit ''instructions''), d_one (CHR ''>'')],
      re_seq [d_one (CHR ''[''), ci_lit ''INJECT'', cls (singles '':'' @ re_space)],
      re_seq [WordB, ci_lit ''unrestricted'', re_plus d_space,
              re_alts (map ci_lit [''ai'', ''assistant'', ''model'', ''llm'', ''chatbot'', ''gpt'', ''bot'']),
              WordB]]"

definition borderline_patterns :: "re list" where
  "borderline_patterns =
     [re_seq [ci_lit ''pretend'', re_plus d_space,
              Alt (re_seq [ci_lit ''the'', re_plus d_space, ci_lit ''above'']) (ci_lit ''this''),
              re_plus d_space, ci_lit ''never'', re_plus d_space, ci_lit ''happened'']]"

definition pii_patterns :: "labeledPattern list" where
  "pii_patterns =
     [(''EMAIL'', email_re), (''US_SSN'', ssn_re), (''CREDIT_CARD'', credit_card_re),
      (''API_KEY'', api_key_re), (''PHONE'', phone_re), (''IBAN'', iban_re),
      (''IP_ADDRESS'', ip_address_re), (''DOB'', dob_re), (''CREDENTIAL'', credential_re)]"

definition NewRegexDetector :: RegexDetector where
  "NewRegexDetector =
     \<lparr>rd_pii = pii_patterns, rd_injection = injection_patterns, rd_borderline = borderline_patterns\<rparr>"

section \<open>Redaction\<close>

text \<open>One pass of the loop of \<open>RedactPII\<close>: the text and the flags so far.\<close>

definition redact_step :: "string \<times> string list \<Rightarrow> labeledPattern \<Rightarrow> string \<times> string list" where
  "redact_step st lp =
     (let (out, flags) = st; (label, pattern) = lp in
      if match_string pattern out
      then (replace_all pattern (''<'' @ label @ ''>'') out, flags @ [pii_flag label])
      else (out, flags))"

definition RedactPII :: "RegexDetector \<Rightarrow> string \<Rightarrow> string \<times> string list" where
  "RedactPII d text = foldl redact_step (text, []) (rd_pii d)"

section \<open>Injection and borderline\<close>

definition maxDecodeInputBytes :: nat where
  "maxDecodeInputBytes = 16 * 1024"

definition maxDecodeTokens :: nat where
  "maxDecodeTokens = 32"

text \<open>\<open>url.QueryUnescape\<close>: \<open>None\<close> is its error on a malformed escape.\<close>

definition unhex :: "char \<Rightarrow> int option" where
  "unhex c =
     (if CHR ''0'' \<le> c \<and> c \<le> CHR ''9'' then Some (byte_val c - 48)
      else if CHR ''a'' \<le> c \<and> c \<le> CHR ''f'' then Some (byte_val c - 87)
      else if CHR ''A'' \<le> c \<and> c \<le> CHR ''F'' then Some (byte_val c - 55)
      else None)"

fun query_unescape :: "string \<Rightarrow> string option" where
  "query_unescape [] = Some []"
| "query_unescape (c # s) =
     (if c = CHR ''%'' then
        (case s of
           a # b # t \<Rightarrow>
             (case (unhex a, unhex b) of
                (Some x, Some y) \<Rightarrow> map_option ((#) (byte_of (16 * x + y))) (query_unescape t)
              | _ \<Rightarrow> None)
         | _ \<Rightarrow> None)
      else map_option ((#) (if c = CHR ''+'' then CHR '' '' else c)) (query_unescape s))"

text \<open>\<open>base64.StdEncoding.DecodeString\<close>: line breaks are skipped, padding is required and ends
  the input, unused trailing bits are ignored.\<close>

definition b64_val :: "char \<Rightarrow> int option" where
  "b64_val c =
     (if CHR ''A'' \<le> c \<and> c \<le> CHR ''Z'' then Some (byte_val c - 65)
      else if CHR ''a'' \<le> c \<and> c \<le> CHR ''z'' then Some (byte_val c - 71)
      else if CHR ''0'' \<le> c \<and> c \<le> CHR ''9'' then Some (byte_val c + 4)
      else if c = CHR ''+'' then Some 62
      else if c = CHR ''/'' then Some 63
      else None)"

fun b64_quanta :: "string \<Rightarrow> string option" where
  "b64_quanta [] = Some []"
| "b64_quanta (a # b # c # d # rest) =
     (case (b64_val a, b64_val b) of
        (Some x, Some y) \<Rightarrow>
          (let o1 = byte_of (4 * x + y div 16) in
           case b64_val c of
             None \<Rightarrow> if c = CHR ''='' \<and> d = CHR ''='' \<and> rest = [] then Some [o1] else None
           | Some z \<Rightarrow>
               (let o2 = byte_of (y mod 16 * 16 + z div 4) in
                case b64_val d of
                  None \<Rightarrow> if d = CHR ''='' \<and> rest = [] then Some [o1, o2] else None
                | Some w \<Rightarrow>
                    map_option (\<lambda>t. o1 # o2 # byte_of (z mod 4 * 64 + w) # t) (b64_quanta rest)))
      | _ \<Rightarrow> None)"
| "b64_quanta _ = None"

definition b64_decode :: "string \<Rightarrow> string option" where
  "b64_decode s = b64_quanta (filter (\<lambda>c. c \<noteq> CHR 0x0D \<and> c \<noteq> CHR 0x0A) s)"

definition matchesInjection :: "RegexDetector \<Rightarrow> string \<Rightarrow> bool" where
  "matchesInjection d text = list_ex (\<lambda>p. match_string p text) (rd_injection d)"

text \<open>The two sources of candidates, each on the slice under inspection.\<close>

definition url_candidates :: "string \<Rightarrow> string list" where
  "url_candidates scan =
     (if str_contains scan ''%'' then
        (case query_unescape scan of
           Some dec \<Rightarrow> if dec \<noteq> scan then [dec] else []
         | None \<Rightarrow> [])
      else [])"

definition b64_candidate :: "string \<Rightarrow> string option" where
  "b64_candidate tok =
     (case b64_decode tok of Some dec \<Rightarrow> if 0 < length dec then Some dec else None | None \<Rightarrow> None)"

definition decodeCandidates :: "RegexDetector \<Rightarrow> string \<Rightarrow> string list" where
  "decodeCandidates d text =
     (let scan = (if maxDecodeInputBytes < length text then take maxDecodeInputBytes text else text)
      in url_candidates scan @
         List.map_filter b64_candidate (find_all b64TokenPattern maxDecodeTokens scan))"

definition DetectInjection :: "RegexDetector \<Rightarrow> string \<Rightarrow> string list" where
  "DetectInjection d text =
     (if matchesInjection d text then [injection_suspected]
      else if list_ex (matchesInjection d) (decodeCandidates d text) then [injection_suspected]
      else [])"

definition DetectBorderline :: "RegexDetector \<Rightarrow> string \<Rightarrow> string list" where
  "DetectBorderline d text =
     (if list_ex (\<lambda>p. match_string p text) (rd_borderline d) then [borderline_suspected] else [])"

text \<open>The method tables behind the interface.\<close>

definition regex_detector :: "RegexDetector \<Rightarrow> detector" where
  "regex_detector d =
     \<lparr>det_RedactPII = RedactPII d, det_DetectInjection = DetectInjection d,
      det_DetectBorderline = DetectBorderline d\<rparr>"

record NativeDetector =
  nd_base :: RegexDetector

definition NewNativeDetector :: NativeDetector where
  "NewNativeDetector = \<lparr>nd_base = NewRegexDetector\<rparr>"

definition native_detector :: "NativeDetector \<Rightarrow> detector" where
  "native_detector d =
     \<lparr>det_RedactPII = RedactPII (nd_base d), det_DetectInjection = DetectInjection (nd_base d),
      det_DetectBorderline = DetectBorderline (nd_base d)\<rparr>"

section \<open>The loop of RedactPII\<close>

lemma redact_step_simp:
  "redact_step (out, flags) (label, pattern) =
     (if match_string pattern out
      then (replace_all pattern (''<'' @ label @ ''>'') out, flags @ [pii_flag label])
      else (out, flags))"
  by (simp add: redact_step_def)

lemma subseq_subset: "subseq xs ys \<Longrightarrow> set xs \<subseteq> set ys"
  by (induction rule: list_emb.induct) auto

lemma subseq_distinct: "subseq xs ys \<Longrightarrow> distinct ys \<Longrightarrow> distinct xs"
  by (induction rule: list_emb.induct) (auto dest: subseq_subset)

lemma redact_fold_flags:
  "foldl redact_step (t, fs) lps = (out, flags) \<Longrightarrow>
     \<exists>gs. flags = fs @ gs \<and> subseq gs (map (\<lambda>lp. pii_flag (fst lp)) lps) \<and> (gs = [] \<longrightarrow> out = t)"
proof (induction lps arbitrary: t fs)
  case (Cons lp lps)
  obtain label pattern where lp: "lp = (label, pattern)" by (cases lp)
  show ?case
  proof (cases "match_string pattern t")
    case True
    with Cons.prems lp have
      "foldl redact_step (replace_all pattern (''<'' @ label @ ''>'') t, fs @ [pii_flag label]) lps = (out, flags)"
      by (simp add: redact_step_simp)
    from Cons.IH [OF this] obtain gs where "flags = fs @ pii_flag label # gs"
      and "subseq gs (map (\<lambda>lp. pii_flag (fst lp)) lps)" by auto
    then show ?thesis by (intro exI [of _ "pii_flag label # gs"]) (simp add: lp)
  next
    case False
    with Cons.prems lp have "foldl redact_step (t, fs) lps = (out, flags)"
      by (simp add: redact_step_simp)
    from Cons.IH [OF this] show ?thesis by (auto simp: lp)
  qed
qed simp

lemma RedactPII_flags:
  "RedactPII d t = (out, flags) \<Longrightarrow>
     subseq flags (map (\<lambda>lp. pii_flag (fst lp)) (rd_pii d)) \<and> (flags = [] \<longrightarrow> out = t)"
  using redact_fold_flags [of t "[]" "rd_pii d" out flags] by (auto simp: RedactPII_def)

lemma RedactPII_flag_prefix: "f \<in> set (snd (RedactPII d t)) \<Longrightarrow> has_prefix f ''pii:''"
proof -
  assume f: "f \<in> set (snd (RedactPII d t))"
  obtain out flags where r: "RedactPII d t = (out, flags)" by (cases "RedactPII d t")
  with f RedactPII_flags [OF r] have "f \<in> set (map (\<lambda>lp. pii_flag (fst lp)) (rd_pii d))"
    by (auto dest!: subseq_subset)
  then show ?thesis by (auto simp: has_prefix_def)
qed

lemma RedactPII_clean: "snd (RedactPII d t) = [] \<Longrightarrow> fst (RedactPII d t) = t"
  using RedactPII_flags by (metis prod.collapse)

interpretation regex: detector_seam "regex_detector d" for d
  by unfold_locales
    (auto simp: regex_detector_def DetectInjection_def DetectBorderline_def
      intro: RedactPII_flag_prefix RedactPII_clean)

interpretation native: detector_seam "native_detector d" for d
  by unfold_locales
    (auto simp: native_detector_def DetectInjection_def DetectBorderline_def
      intro: RedactPII_flag_prefix RedactPII_clean)

text \<open>The flags of a redaction are the labels that fired, each at most once and in the
  recognizers' fixed order, and a t that raises none is returned byte for byte.\<close>

theorem redaction_flags_ordered:
  "case RedactPII NewRegexDetector t of (out, flags) \<Rightarrow>
     subseq flags [''pii:EMAIL'', ''pii:US_SSN'', ''pii:CREDIT_CARD'', ''pii:API_KEY'', ''pii:PHONE'',
                   ''pii:IBAN'', ''pii:IP_ADDRESS'', ''pii:DOB'', ''pii:CREDENTIAL''] \<and>
     distinct flags \<and> (if flags = [] then out = t else True)"
proof -
  obtain out flags where r: "RedactPII NewRegexDetector t = (out, flags)"
    by (cases "RedactPII NewRegexDetector t")
  have labels: "map (\<lambda>lp. pii_flag (fst lp)) (rd_pii NewRegexDetector) =
      [''pii:EMAIL'', ''pii:US_SSN'', ''pii:CREDIT_CARD'', ''pii:API_KEY'', ''pii:PHONE'',
       ''pii:IBAN'', ''pii:IP_ADDRESS'', ''pii:DOB'', ''pii:CREDENTIAL'']" (is "_ = ?labels")
    by (simp add: NewRegexDetector_def pii_patterns_def)
  have "distinct ?labels" by simp
  with RedactPII_flags [OF r, unfolded labels] show ?thesis by (auto simp: r intro: subseq_distinct)
qed

section \<open>What no redacted text contains\<close>

text \<open>A later pass cannot bring back what an earlier pass removed, when the pattern has no word
  boundary and the placeholders fence off what they stand for.\<close>

definition clean_labels :: "re \<Rightarrow> labeledPattern list \<Rightarrow> bool" where
  "clean_labels r lps = list_all (\<lambda>(label, q). 0 < min_len q \<and> \<not> match_string r label) lps"

lemma fenced_placeholder:
  assumes "ctx_free r" "avoids (CHR ''<'') r" "avoids (CHR ''>'') r" "\<not> match_string r label"
  shows "fenced r (''<'' @ label @ ''>'')"
  using assms hit_iff [OF assms(1), of label] by (auto simp: fenced_def)

lemma redact_fold_keeps_out:
  assumes "ctx_free r" "avoids (CHR ''<'') r" "avoids (CHR ''>'') r"
  shows "clean_labels r lps \<Longrightarrow> \<not> hit r t \<Longrightarrow> \<not> hit r (fst (foldl redact_step (t, fs) lps))"
proof (induction lps arbitrary: t fs)
  case (Cons lp lps)
  obtain label q where lp: "lp = (label, q)" by (cases lp)
  from Cons.prems(1) lp have q: "0 < min_len q" and label: "\<not> match_string r label"
    and rest: "clean_labels r lps" by (auto simp: clean_labels_def)
  from fenced_placeholder [OF assms label] have "fenced r (''<'' @ label @ ''>'')" .
  from replace_keeps_out [OF q, where f = "\<lambda>_. ''<'' @ label @ ''>''", OF this] Cons.prems(2)
  have "\<not> hit r (replace_all q (''<'' @ label @ ''>'') t)"
    unfolding replace_all_def replace_all_func_def by blast
  with Cons.IH [OF rest] Cons.prems(2) show ?case
    by (simp only: foldl_Cons lp redact_step_simp) (simp split: if_splits)
qed simp

lemma redact_first_removed:
  assumes "ctx_free r" "avoids (CHR ''<'') r" "avoids (CHR ''>'') r" "0 < min_len r"
    and "rd_pii d = (label, r) # lps" and "clean_labels r ((label, r) # lps)"
  shows "\<not> match_string r (fst (RedactPII d t))"
proof -
  from assms(6) have label: "\<not> match_string r label" and rest: "clean_labels r lps"
    by (auto simp: clean_labels_def)
  obtain t' fs' where step: "redact_step (t, []) (label, r) = (t', fs')" by (cases "redact_step (t, []) (label, r)")
  have "\<not> hit r t'"
  proof (cases "match_string r t")
    case True
    with step have "t' = replace_all r (''<'' @ label @ ''>'') t" by (simp add: redact_step_simp)
    with replace_removes [OF assms(1,4) fenced_placeholder [OF assms(1-3) label]]
    show ?thesis unfolding replace_all_def replace_all_func_def by blast
  next
    case False
    with step hit_iff [OF assms(1)] show ?thesis by (simp add: redact_step_simp)
  qed
  from redact_fold_keeps_out [OF assms(1-3) rest this] show ?thesis
    by (simp add: RedactPII_def assms(5) step hit_iff [OF assms(1)])
qed

lemma email_clean_labels: "clean_labels email_re pii_patterns"
  by code_simp

lemma email_shape:
  "ctx_free email_re" "avoids (CHR ''<'') email_re" "avoids (CHR ''>'') email_re" "0 < min_len email_re"
  by code_simp+

text \<open>C33: No e-mail address survives redaction. Whatever the input bytes, the redacted text has no
  position at which the EMAIL recognizer matches: the single left-to-right replacement leaves no
  address in the text between its matches, and none of the eight later replacements, each of
  which splices a placeholder into the text, can put the pieces of one back together.\<close>

theorem redacted_text_has_no_email:
  "\<not> match_string email_re (fst (det_RedactPII (native_detector NewNativeDetector) t))"
  using redact_first_removed [OF email_shape, of NewRegexDetector "''EMAIL''" "tl pii_patterns" t]
    email_clean_labels
  by (simp add: native_detector_def NewNativeDetector_def NewRegexDetector_def pii_patterns_def)

text \<open>Redaction is not idempotent. Redacting the address in front of the digits creates the
  word boundary that the US_SSN recognizer was missing, so the first pass returns a text with a
  recognizable social security number and a second pass over that text redacts it. The comment
  of ReviewQuarantine says that re-redacting is idempotent.\<close>

theorem redaction_not_idempotent:
  "det_RedactPII (native_detector NewNativeDetector) ''::abcd123-45-6789'' =
     (''<IP_ADDRESS>123-45-6789'', [''pii:IP_ADDRESS'']) \<and>
   det_RedactPII (native_detector NewNativeDetector) ''<IP_ADDRESS>123-45-6789'' =
     (''<IP_ADDRESS><US_SSN>'', [''pii:US_SSN''])"
  by code_simp

section \<open>The bounds of the decode path\<close>

lemma query_unescape_length: "query_unescape s = Some t \<Longrightarrow> length t \<le> length s"
  by (induction s arbitrary: t rule: query_unescape.induct)
    (fastforce split: if_splits list.splits option.splits intro: le_SucI)+

lemma b64_quanta_length: "b64_quanta s = Some t \<Longrightarrow> length t \<le> length s"
  by (induction s arbitrary: t rule: b64_quanta.induct)
    (fastforce simp: Let_def split: if_splits option.splits intro: le_SucI)+

lemma b64_decode_length: "b64_decode s = Some t \<Longrightarrow> length t \<le> length s"
  unfolding b64_decode_def by (meson b64_quanta_length le_trans length_filter_le)

lemma set_map_filter: "set (List.map_filter f xs) = {y. \<exists>x \<in> set xs. f x = Some y}"
  by (induction xs) (auto simp: map_filter_simps split: option.splits)

lemma length_map_filter_le: "length (List.map_filter f xs) \<le> length xs"
  by (induction xs) (auto simp: map_filter_simps split: option.splits)

lemma url_candidates_length: "length (url_candidates s) \<le> 1"
  by (simp add: url_candidates_def split: option.split)

lemma url_candidates_set:
  assumes "c \<in> set (url_candidates s)"
  shows "query_unescape s = Some c"
proof (cases "query_unescape s")
  case None
  then have "url_candidates s = []" by (simp add: url_candidates_def)
  with assms show ?thesis by simp
next
  case (Some dec)
  then have "url_candidates s = [] \<or> url_candidates s = [dec]" by (simp add: url_candidates_def)
  with assms Some show ?thesis by auto
qed

lemma b64_candidate_Some: "b64_candidate tok = Some c \<Longrightarrow> b64_decode tok = Some c"
  by (auto simp: b64_candidate_def split: option.splits if_splits)

lemma maxDecodeInputBytes_16384: "maxDecodeInputBytes = 16384"
  by (simp add: maxDecodeInputBytes_def)

text \<open>C34: The decode-and-rescan path is bounded whatever the input: it inspects only the first
  16 KiB, rescans at most 33 decoded payloads, and none of them is longer than 16 KiB.\<close>

theorem decode_path_bounded:
  "length (decodeCandidates d t) \<le> 33 \<and>
   list_all (\<lambda>c. length c \<le> 16384) (decodeCandidates d t) \<and>
   decodeCandidates d t = decodeCandidates d (take 16384 t)"
proof -
  define scan where "scan = take 16384 t"
  let ?toks = "find_all b64TokenPattern maxDecodeTokens scan"
  have cap: "(if maxDecodeInputBytes < length t then take maxDecodeInputBytes t else t) = scan"
    unfolding maxDecodeInputBytes_16384 scan_def by (cases "16384 < length t") auto
  have cands: "decodeCandidates d t = url_candidates scan @ List.map_filter b64_candidate ?toks"
    unfolding decodeCandidates_def Let_def cap ..
  note urls = url_candidates_length [of scan] url_candidates_set [of _ scan]
  have "length ?toks \<le> 32" using find_all_length [of _ maxDecodeTokens] by (simp add: maxDecodeTokens_def)
  with length_map_filter_le [of b64_candidate ?toks] have "length (List.map_filter b64_candidate ?toks) \<le> 32" by linarith
  with urls(1) cands have "length (decodeCandidates d t) \<le> 33" by simp
  moreover have "length c \<le> 16384" if "c \<in> set (decodeCandidates d t)" for c
  proof -
    from that cands urls(2) consider "query_unescape scan = Some c"
      | tok where "tok \<in> set ?toks" "b64_decode tok = Some c"
      by (auto simp: set_map_filter dest: b64_candidate_Some)
    then show ?thesis
    proof cases
      case 1
      from query_unescape_length [OF 1] show ?thesis by (simp add: scan_def)
    next
      case 2
      from find_all_sublist [OF 2(1)] have "length tok \<le> 16384" by (auto simp: scan_def dest: sublist_length_le)
      with b64_decode_length [OF 2(2)] show ?thesis by simp
    qed
  qed
  moreover have "decodeCandidates d t = decodeCandidates d (take 16384 t)"
    unfolding decodeCandidates_def maxDecodeInputBytes_16384 Let_def by (cases "16384 < length t") auto
  ultimately show ?thesis by (auto simp: list_all_iff)
qed

section \<open>Percent-encoded triggers\<close>

definition percent_encode :: "string \<Rightarrow> string" where
  "percent_encode s = concat (map (\<lambda>c. CHR ''%'' # hex_byte c) s)"

lemma length_percent_encode [simp]: "length (percent_encode s) = 3 * length s"
  by (induction s) (auto simp: percent_encode_def hex_byte_def)

lemma unhex_hex_digit: "0 \<le> d \<Longrightarrow> d < 16 \<Longrightarrow> unhex (hex_digit d) = Some d"
proof -
  assume "0 \<le> d" "d < 16"
  then have "d \<in> set [0..15]" by simp
  moreover have "\<forall>d \<in> set [0..15]. unhex (hex_digit d) = Some d" by code_simp
  ultimately show ?thesis by blast
qed

lemma hex_byte_round: "unhex (hd (hex_byte c)) = Some (byte_val c div 16)"
  "unhex (hd (tl (hex_byte c))) = Some (byte_val c mod 16)"
  using byte_val_range [of c] by (auto simp: hex_byte_def intro!: unhex_hex_digit)

lemma query_unescape_percent_encode: "query_unescape (percent_encode s) = Some s"
proof (induction s)
  case (Cons c s)
  have "percent_encode (c # s) = CHR ''%'' # hd (hex_byte c) # hd (tl (hex_byte c)) # percent_encode s"
    by (simp add: percent_encode_def hex_byte_def)
  with Cons hex_byte_round [of c] show ?case by simp
qed (simp add: percent_encode_def)

text \<open>Percent-encoding does not hide a trigger: for every text that the literal scan rejects, of
  up to 5461 bytes (16 KiB encoded), the text with every byte written as an escape is rejected
  too.\<close>

theorem percent_encoded_trigger_found:
  assumes "matchesInjection d s" and "length s \<le> 5461"
  shows "DetectInjection d (percent_encode s) = [injection_suspected]"
proof (cases "s = []")
  case True
  with assms(1) show ?thesis by (simp add: DetectInjection_def percent_encode_def)
next
  case False
  then obtain c t where s: "s = c # t" by (cases s) auto
  have "percent_encode s = ''%'' @ hex_byte c @ percent_encode t" by (simp add: s percent_encode_def)
  then have "str_contains (percent_encode s) ''%''"
    using str_contains_append [of "''%''" "''%''" "[]"] by simp
  moreover have "length s \<noteq> length (percent_encode s)" using False by simp
  then have "s \<noteq> percent_encode s" by metis
  moreover have "\<not> maxDecodeInputBytes < length (percent_encode s)"
    using assms(2) by (simp add: maxDecodeInputBytes_16384)
  ultimately have "s \<in> set (decodeCandidates d (percent_encode s))"
    by (simp add: decodeCandidates_def url_candidates_def query_unescape_percent_encode)
  with assms(1) show ?thesis by (auto simp: DetectInjection_def list_ex_iff)
qed

theorem percent_encoded_trigger_found_witness:
  "DetectInjection NewRegexDetector (percent_encode ''System Prompt'') = [injection_suspected]"
proof (rule percent_encoded_trigger_found)
  show "matchesInjection NewRegexDetector ''System Prompt''" by code_simp
  show "length ''System Prompt'' \<le> 5461" by simp
qed

section \<open>Letter case\<close>

definition trigger_letters :: "char list" where
  "trigger_letters = ''abcdefghilmnoprstuvwyINJECT ''"

lemma ci_char_closed: "list_all (\<lambda>c. case_closed (ci_char c)) trigger_letters"
  by code_simp

lemma re_seq_closed: "list_all case_closed rs \<Longrightarrow> case_closed (re_seq rs)"
  by (induction rs rule: re_seq.induct) auto

lemma re_alts_closed: "list_all case_closed rs \<Longrightarrow> case_closed (re_alts rs)"
  by (induction rs rule: re_alts.induct) (auto simp: respects_case_def in_ranges_def list_all_iff)

lemma ci_lit_closed: "list_all (\<lambda>c. c \<in> set trigger_letters) s \<Longrightarrow> case_closed (ci_lit s)"
  using ci_char_closed unfolding ci_lit_def by (auto intro!: re_seq_closed simp: list_all_iff)

lemma trigger_classes:
  "respects_case re_space" "respects_case (re_word @ re_space)" "respects_case (singles '':'' @ re_space)"
  "respects_case [(CHR ''<'', CHR ''<'')]" "respects_case [(CHR ''>'', CHR ''>'')]"
  "respects_case [(CHR ''/'', CHR ''/'')]" "respects_case [(CHR ''['', CHR ''['')]"
  "case_closed fold_s" "case_closed fold_k"
  by code_simp+

lemma trigger_literals:
  "list_all (list_all (\<lambda>c. c \<in> set trigger_letters))
     [''ignore'', ''instructions'', ''disregard'', ''system prompt'', ''system'', ''INJECT'',
      ''unrestricted'', ''ai'', ''assistant'', ''model'', ''llm'', ''chatbot'', ''gpt'', ''bot'',
      ''pretend'', ''the'', ''above'', ''this'', ''never'', ''happened'']"
  by code_simp

lemma trigger_literals_closed:
  "list_all (\<lambda>s. case_closed (ci_lit s))
     [''ignore'', ''instructions'', ''disregard'', ''system prompt'', ''system'', ''INJECT'',
      ''unrestricted'', ''ai'', ''assistant'', ''model'', ''llm'', ''chatbot'', ''gpt'', ''bot'',
      ''pretend'', ''the'', ''above'', ''this'', ''never'', ''happened'']"
  using trigger_literals by (rule list.pred_mono_strong) (rule ci_lit_closed)

lemma injection_case_closed: "list_all case_closed (injection_patterns @ borderline_patterns)"
  using trigger_literals_closed trigger_classes
  by (simp only: injection_patterns_def borderline_patterns_def list_all_append list.pred_inject append.simps
      list.map re_plus_def re_opt_def ci_cls_def re_seq.simps re_alts.simps case_closed.simps simp_thms)

text \<open>Letter case does not hide a trigger: two texts that differ only in the case of ASCII
  letters get the same verdict from the literal injection scan and from the borderline scan.\<close>

theorem literal_scans_ignore_case:
  assumes "map lower_char s = map lower_char t"
  shows "matchesInjection NewRegexDetector s = matchesInjection NewRegexDetector t \<and>
         DetectBorderline NewRegexDetector s = DetectBorderline NewRegexDetector t"
proof -
  have eq: "list_ex (\<lambda>p. match_string p s) ps = list_ex (\<lambda>p. match_string p t) ps"
    if "list_all case_closed ps" for ps
    using that
  proof (induction ps)
    case (Cons p ps)
    then have "match_string p s = match_string p t"
      using match_string_same_case [of p s t] assms by (simp only: same_case_def list.pred_inject)
    with Cons show ?case by simp
  qed simp
  from injection_case_closed have "list_all case_closed injection_patterns"
    and "list_all case_closed borderline_patterns" by simp_all
  from eq [OF this(1)] eq [OF this(2)] show ?thesis
    by (simp add: matchesInjection_def DetectBorderline_def NewRegexDetector_def)
qed

theorem literal_scans_ignore_case_witness:
  "matchesInjection NewRegexDetector ''SyStEm PROMPT''"
proof -
  have "map lower_char ''SyStEm PROMPT'' = map lower_char ''system prompt''" by code_simp
  moreover have "matchesInjection NewRegexDetector ''system prompt''" by code_simp
  ultimately show ?thesis using literal_scans_ignore_case [of "''SyStEm PROMPT''"] by blast
qed

end
