(* ===== verification/AuditEvents.thy ===== *)
theory AuditEvents
  imports Prelude
begin

text \<open>
  The audit seam (\<open>audit.go\<close>): the OCSF event, its builders, the sinks, and \<open>emitSafe\<close>, the one
  place where the guard calls a sink; the bounded asynchronous dispatch of AsyncSink as a step
  relation; and the mapping of an event to the audit-trail wire event with the selection of the
  transport (\<open>audit_trail_sink.go\<close>). Wall-clock time is an argument.
\<close>

section \<open>Events\<close>

record OCSFProduct =
  pr_Name :: string
  pr_Version :: string

record OCSFMetadata =
  md_Product :: OCSFProduct
  md_Version :: string
  md_EventCode :: string

text \<open>Empty strings stand for omitted fields; \<open>fi_ResidueDetected\<close> is the nullable boolean.\<close>

record OCSFFinding =
  fi_Type :: string
  fi_Operation :: string
  fi_Flags :: "string list"
  fi_FlagCount :: int
  fi_StoredID :: string
  fi_SourceClass :: string
  fi_DeletionHash :: string
  fi_ResidueDetected :: "bool option"
  fi_RelatedEvents :: "string list"

record OCSFEvent =
  ev_ClassUID :: int
  ev_CategoryUID :: int
  ev_ActivityID :: int
  ev_SeverityID :: int
  ev_Time :: int
  ev_Metadata :: OCSFMetadata
  ev_Finding :: OCSFFinding

definition ocsfClassSecurityFinding :: int where "ocsfClassSecurityFinding = 2001"
definition ocsfCategoryFindings :: int where "ocsfCategoryFindings = 2"
definition ocsfActivityCreate :: int where "ocsfActivityCreate = 1"
definition ocsfSeverityInformational :: int where "ocsfSeverityInformational = 1"
definition ocsfSeverityLow :: int where "ocsfSeverityLow = 2"
definition ocsfSeverityMedium :: int where "ocsfSeverityMedium = 3"
definition ocsfSeverityHigh :: int where "ocsfSeverityHigh = 4"
definition ocsfSchemaVersion :: string where "ocsfSchemaVersion = ''1.1.0''"

lemmas ocsf_consts = ocsfClassSecurityFinding_def ocsfCategoryFindings_def ocsfActivityCreate_def
  ocsfSeverityInformational_def ocsfSeverityLow_def ocsfSeverityMedium_def ocsfSeverityHigh_def
  ocsfSchemaVersion_def

definition newEventEnvelope :: "int \<Rightarrow> int \<Rightarrow> OCSFFinding \<Rightarrow> OCSFEvent" where
  "newEventEnvelope now severityID finding =
     \<lparr>ev_ClassUID = ocsfClassSecurityFinding, ev_CategoryUID = ocsfCategoryFindings,
      ev_ActivityID = ocsfActivityCreate, ev_SeverityID = severityID, ev_Time = now,
      ev_Metadata = \<lparr>md_Product = \<lparr>pr_Name = ''memory-guard'', pr_Version = []\<rparr>,
                     md_Version = ocsfSchemaVersion, md_EventCode = []\<rparr>,
      ev_Finding = finding\<rparr>"

definition BuildPIIRedactionEvent :: "int \<Rightarrow> string list \<Rightarrow> string \<Rightarrow> string \<Rightarrow> OCSFEvent" where
  "BuildPIIRedactionEvent now flags storedID sourceClass =
     newEventEnvelope now ocsfSeverityLow
       \<lparr>fi_Type = ''pii_redaction'', fi_Operation = ''validate_write'', fi_Flags = flags,
        fi_FlagCount = int (length flags), fi_StoredID = storedID, fi_SourceClass = sourceClass,
        fi_DeletionHash = [], fi_ResidueDetected = None, fi_RelatedEvents = []\<rparr>"

definition BuildInjectionRejectedEvent :: "int \<Rightarrow> string list \<Rightarrow> string \<Rightarrow> OCSFEvent" where
  "BuildInjectionRejectedEvent now flags sourceClass =
     newEventEnvelope now ocsfSeverityHigh
       \<lparr>fi_Type = ''injection_rejected'', fi_Operation = ''validate_write'', fi_Flags = flags,
        fi_FlagCount = int (length flags), fi_StoredID = [], fi_SourceClass = sourceClass,
        fi_DeletionHash = [], fi_ResidueDetected = None, fi_RelatedEvents = []\<rparr>"

definition BuildDeletionEvent :: "int \<Rightarrow> string \<Rightarrow> bool \<Rightarrow> string list \<Rightarrow> OCSFEvent" where
  "BuildDeletionEvent now deletionHash residueDetected residueFlags =
     (let detType = (if residueDetected then ''residue_found'' else ''deletion_verified'');
          severity = (if residueDetected then ocsfSeverityMedium else ocsfSeverityInformational)
      in newEventEnvelope now severity
           \<lparr>fi_Type = detType, fi_Operation = ''verify_delete'', fi_Flags = residueFlags,
            fi_FlagCount = int (length residueFlags), fi_StoredID = [], fi_SourceClass = [],
            fi_DeletionHash = deletionHash, fi_ResidueDetected = Some residueDetected,
            fi_RelatedEvents = []\<rparr>)"

lemmas event_builders = BuildPIIRedactionEvent_def BuildInjectionRejectedEvent_def
  BuildDeletionEvent_def newEventEnvelope_def

section \<open>Sinks\<close>

text \<open>Calling \<open>Emit\<close> ends in nil, in an error, or in a panic, and may change the sink's state.\<close>

datatype emit_outcome = EmitOk | EmitErr string | EmitPanic string

record 'k audit_sink =
  as_Emit :: "OCSFEvent \<Rightarrow> 'k \<Rightarrow> emit_outcome \<times> 'k"

text \<open>\<open>None\<close> is the nil sink. The outcome is swallowed, a panic included: only the sink's own
  state remains.\<close>

definition emitSafe :: "'k audit_sink option \<Rightarrow> OCSFEvent \<Rightarrow> 'k \<Rightarrow> 'k" where
  "emitSafe sink event k =
     (case sink of
        None \<Rightarrow> k
      | Some s \<Rightarrow>
          (case as_Emit s event k of
             (EmitOk, k') \<Rightarrow> k'
           | (EmitErr _, k') \<Rightarrow> k'
           | (EmitPanic _, k') \<Rightarrow> k'))"

record 'k AuditConfig =
  ac_Enabled :: bool
  ac_Sink :: "'k audit_sink option"

definition isActive :: "'k AuditConfig \<Rightarrow> bool" where
  "isActive c = (ac_Enabled c \<and> ac_Sink c \<noteq> None)"

text \<open>The contract a sink owes its readers: an emission records its event once or drops it, and
  changes nothing recorded before. \<open>recorded\<close> is what the sink holds.\<close>

locale audit_sink_contract =
  fixes sink :: "'k audit_sink" and recorded :: "'k \<Rightarrow> OCSFEvent list"
  assumes append_or_drop:
    "recorded (snd (as_Emit sink e k)) = recorded k @ [e] \<or> recorded (snd (as_Emit sink e k)) = recorded k"
begin

definition emit_all :: "OCSFEvent list \<Rightarrow> 'k \<Rightarrow> 'k" where
  "emit_all es k = fold (emitSafe (Some sink)) es k"

lemma emitSafe_recorded:
  "recorded (emitSafe (Some sink) e k) = recorded k @ [e] \<or> recorded (emitSafe (Some sink) e k) = recorded k"
  using append_or_drop [of e k] by (auto simp: emitSafe_def split: prod.splits emit_outcome.splits)

lemma recorded_subseq: "\<exists>es'. subseq es' es \<and> recorded (emit_all es k) = recorded k @ es'"
proof (induction es arbitrary: k)
  case (Cons e es)
  let ?k = "emitSafe (Some sink) e k"
  from Cons [of ?k] obtain es' where es': "subseq es' es" "recorded (emit_all es ?k) = recorded ?k @ es'"
    by blast
  from emitSafe_recorded [of e k] show ?case
  proof
    assume "recorded ?k = recorded k @ [e]"
    with es' show ?thesis by (intro exI [of _ "e # es'"]) (simp add: emit_all_def)
  next
    assume "recorded ?k = recorded k"
    with es' show ?thesis by (intro exI [of _ es']) (auto simp: emit_all_def)
  qed
qed (simp add: emit_all_def)

end

definition NoOpSink :: "unit audit_sink" where
  "NoOpSink = \<lparr>as_Emit = (\<lambda>_ k. (EmitOk, k))\<rparr>"

definition FailingSink :: "unit audit_sink" where
  "FailingSink = \<lparr>as_Emit = (\<lambda>_ k. (EmitErr ''FailingSink: simulated emission failure'', k))\<rparr>"

definition PanicSink :: "unit audit_sink" where
  "PanicSink = \<lparr>as_Emit = (\<lambda>_ k. (EmitPanic ''PanicSink: intentional panic to test recovery'', k))\<rparr>"

text \<open>CollectingSink's state is its event slice; ChannelSink's is the channel buffer.\<close>

definition CollectingSink :: "OCSFEvent list audit_sink" where
  "CollectingSink = \<lparr>as_Emit = (\<lambda>e k. (EmitOk, k @ [e]))\<rparr>"

text \<open>A snapshot is a copy: later emissions do not reach it.\<close>

definition collecting_Events :: "OCSFEvent list \<Rightarrow> OCSFEvent list" where
  "collecting_Events k = k"

definition collecting_Count :: "OCSFEvent list \<Rightarrow> int" where
  "collecting_Count k = int (length k)"

definition ChannelSink :: "nat \<Rightarrow> OCSFEvent list audit_sink" where
  "ChannelSink n =
     \<lparr>as_Emit = (\<lambda>e k. if length k < n then (EmitOk, k @ [e])
                        else (EmitErr ''ChannelSink: buffer full, event dropped'', k))\<rparr>"

definition channel_Drain :: "OCSFEvent list \<Rightarrow> OCSFEvent list \<times> OCSFEvent list" where
  "channel_Drain k = (k, [])"

text \<open>SlowSink sleeps for its delay in the calling goroutine, then signals on a channel of capacity one without
  waiting. Its state is the time spent asleep and whether a signal is pending.\<close>

record slow_state =
  sl_slept :: int
  sl_done :: bool

definition NewSlowSink :: slow_state where
  "NewSlowSink = \<lparr>sl_slept = 0, sl_done = False\<rparr>"

definition SlowSink :: "int \<Rightarrow> slow_state audit_sink" where
  "SlowSink delay =
     \<lparr>as_Emit = (\<lambda>_ k. (EmitOk, k\<lparr>sl_slept := sl_slept k + max 0 delay, sl_done := True\<rparr>))\<rparr>"

text \<open>A receive on the channel \<open>Done\<close> returns: \<open>None\<close> while no Emit has completed.\<close>

definition slow_Done :: "slow_state \<Rightarrow> slow_state option" where
  "slow_Done k = (if sl_done k then Some (k\<lparr>sl_done := False\<rparr>) else None)"

interpretation slow: audit_sink_contract "SlowSink delay" "\<lambda>_. []" for delay
  by unfold_locales simp

interpretation noop: audit_sink_contract NoOpSink "\<lambda>_. []"
  by unfold_locales simp

interpretation failing: audit_sink_contract FailingSink "\<lambda>_. []"
  by unfold_locales simp

interpretation panicking: audit_sink_contract PanicSink "\<lambda>_. []"
  by unfold_locales simp

interpretation collecting: audit_sink_contract CollectingSink "\<lambda>k. k"
  by unfold_locales (simp add: CollectingSink_def)

interpretation channel: audit_sink_contract "ChannelSink n" "\<lambda>k. k" for n
  by unfold_locales (simp add: ChannelSink_def)

lemma emit_collecting [simp]: "emitSafe (Some CollectingSink) e k = k @ [e]"
  by (simp add: emitSafe_def CollectingSink_def)

lemma emit_channel [simp]:
  "emitSafe (Some (ChannelSink n)) e k = (if length k < n then k @ [e] else k)"
  by (simp add: emitSafe_def ChannelSink_def)

lemma fold_collecting: "fold (emitSafe (Some CollectingSink)) es k = k @ es"
  by (induction es arbitrary: k) simp_all

lemma fold_channel: "fold (emitSafe (Some (ChannelSink n))) es k = k @ take (n - length k) es"
proof (induction es arbitrary: k)
  case (Cons e es)
  then show ?case by (cases "length k < n") (auto simp: take_Cons' Suc_diff_Suc)
qed simp

text \<open>A channel sink of capacity n keeps the first n events in order and drops the rest,
  whatever is emitted and whether or not it is full, while a collecting sink keeps them all.\<close>

theorem channel_keeps_first:
  "fold (emitSafe (Some (ChannelSink n))) es [] = take n es \<and>
   fold (emitSafe (Some CollectingSink)) es [] = es"
  using fold_channel [of n es "[]"] fold_collecting [of es "[]"] by simp

section \<open>AsyncSink\<close>

text \<open>
  The bounded channel, the closed flag and the drain goroutine. \<open>Looping\<close> is the outer select,
  \<open>Forwarding e\<close> the call of the wrapped sink from there, \<open>Finishing\<close> and \<open>FinishForwarding e\<close>
  the same in the best-effort drain after the close, \<open>Exited\<close> the returned goroutine.
  \<open>sy_accepted\<close> and \<open>sy_forwarded\<close> are histories: the events whose Emit returned nil, and the
  events the wrapped sink was called with.
\<close>

datatype drain_mode = Looping | Forwarding OCSFEvent | Finishing | FinishForwarding OCSFEvent | Exited

record async_state =
  sy_cap :: nat
  sy_ch :: "OCSFEvent list"
  sy_closed :: bool
  sy_mode :: drain_mode
  sy_accepted :: "OCSFEvent list"
  sy_forwarded :: "OCSFEvent list"

definition NewAsyncSink :: "nat \<Rightarrow> async_state" where
  "NewAsyncSink n =
     \<lparr>sy_cap = (if n < 1 then 1 else n), sy_ch = [], sy_closed = False, sy_mode = Looping,
      sy_accepted = [], sy_forwarded = []\<rparr>"

text \<open>What an observer sees of a step: an Emit with its error, if any, a Close, or a step of the
  drain goroutine.\<close>

datatype async_label = EmitCall OCSFEvent "string option" | CloseCall | DrainStep

text \<open>A select with several ready cases picks any of them, so an Emit on a closed sink with room
  in the buffer may go either way; the default case is taken only when no other is ready. The
  wrapped sink's outcome does not matter: errors and panics are dropped in \<open>forward\<close>.\<close>

inductive async_step :: "async_label \<Rightarrow> async_state \<Rightarrow> async_state \<Rightarrow> bool" where
  emit_ok: "length (sy_ch s) < sy_cap s \<Longrightarrow>
     async_step (EmitCall e None) s
       (s\<lparr>sy_ch := sy_ch s @ [e], sy_accepted := sy_accepted s @ [e]\<rparr>)"
| emit_closed: "sy_closed s \<Longrightarrow>
     async_step (EmitCall e (Some ''AsyncSink: closed, event dropped'')) s s"
| emit_full: "\<not> length (sy_ch s) < sy_cap s \<Longrightarrow> \<not> sy_closed s \<Longrightarrow>
     async_step (EmitCall e (Some ''AsyncSink: buffer full, event dropped'')) s s"
| close: "async_step CloseCall s (s\<lparr>sy_closed := True\<rparr>)"
| receive: "sy_mode s = Looping \<Longrightarrow> sy_ch s = e # r \<Longrightarrow>
     async_step DrainStep s (s\<lparr>sy_ch := r, sy_mode := Forwarding e\<rparr>)"
| forward: "sy_mode s = Forwarding e \<Longrightarrow>
     async_step DrainStep s (s\<lparr>sy_mode := Looping, sy_forwarded := sy_forwarded s @ [e]\<rparr>)"
| see_closed: "sy_mode s = Looping \<Longrightarrow> sy_closed s \<Longrightarrow>
     async_step DrainStep s (s\<lparr>sy_mode := Finishing\<rparr>)"
| finish_receive: "sy_mode s = Finishing \<Longrightarrow> sy_ch s = e # r \<Longrightarrow>
     async_step DrainStep s (s\<lparr>sy_ch := r, sy_mode := FinishForwarding e\<rparr>)"
| finish_forward: "sy_mode s = FinishForwarding e \<Longrightarrow>
     async_step DrainStep s (s\<lparr>sy_mode := Finishing, sy_forwarded := sy_forwarded s @ [e]\<rparr>)"
| finish_exit: "sy_mode s = Finishing \<Longrightarrow> sy_ch s = [] \<Longrightarrow>
     async_step DrainStep s (s\<lparr>sy_mode := Exited\<rparr>)"

inductive_cases async_drainE: "async_step DrainStep s t"
inductive_cases async_emitE: "async_step (EmitCall e err) s t"

inductive async_run :: "nat \<Rightarrow> async_label list \<Rightarrow> async_state \<Rightarrow> bool" for n where
  start: "async_run n [] (NewAsyncSink n)"
| step: "async_run n ls s \<Longrightarrow> async_step l s t \<Longrightarrow> async_run n (ls @ [l]) t"

definition in_flight :: "async_state \<Rightarrow> OCSFEvent list" where
  "in_flight s = (case sy_mode s of Forwarding e \<Rightarrow> [e] | FinishForwarding e \<Rightarrow> [e] | _ \<Rightarrow> [])"

definition async_inv :: "async_state \<Rightarrow> bool" where
  "async_inv s \<longleftrightarrow>
     sy_accepted s = sy_forwarded s @ in_flight s @ sy_ch s \<and>
     length (sy_ch s) \<le> sy_cap s \<and> 1 \<le> sy_cap s \<and>
     (sy_mode s \<notin> {Looping} \<union> range Forwarding \<longrightarrow> sy_closed s)"

lemma async_step_inv: "async_step l s t \<Longrightarrow> async_inv s \<Longrightarrow> async_inv t \<and> sy_cap t = sy_cap s"
  by (induction rule: async_step.induct) (auto simp: async_inv_def in_flight_def)

lemma async_run_inv: "async_run n ls s \<Longrightarrow> async_inv s \<and> sy_cap s = max 1 n"
proof (induction rule: async_run.induct)
  case start
  then show ?case by (simp add: NewAsyncSink_def async_inv_def in_flight_def max_def)
next
  case (step ls s l t)
  then show ?case using async_step_inv by metis
qed

lemma async_run_accepted:
  "async_run n ls s \<Longrightarrow>
     sy_accepted s = List.map_filter (\<lambda>l. case l of EmitCall e None \<Rightarrow> Some e | _ \<Rightarrow> None) ls"
proof (induction rule: async_run.induct)
  case (step ls s l t)
  from step.hyps(2) step.IH show ?case
    by (cases rule: async_step.cases) (simp_all add: map_filter_def)
qed (simp add: NewAsyncSink_def map_filter_simps)

text \<open>C27: The dispatch is bounded, lossless in order, and never invents an event: at every
  reachable state the buffer holds at most max(1, n) events, and the events whose Emit returned
  nil are, in order, those already forwarded, the one in flight, and those in the buffer.\<close>

theorem async_sink_fifo:
  assumes "async_run n ls s"
  shows "length (sy_ch s) \<le> max 1 n \<and>
         List.map_filter (\<lambda>l. case l of EmitCall e None \<Rightarrow> Some e | _ \<Rightarrow> None) ls =
           sy_forwarded s @ in_flight s @ sy_ch s"
  using async_run_inv [OF assms] async_run_accepted [OF assms] by (auto simp: async_inv_def)

text \<open>Emit never blocks. In every state, the buffer full, the sink closed or the drain
  goroutine stuck inside the wrapped sink included, an Emit has a step, and it touches neither
  the drain goroutine nor what was forwarded.\<close>

theorem async_emit_never_blocks:
  "(\<exists>err t. async_step (EmitCall e err) s t) \<and>
   (\<forall>err t. async_step (EmitCall e err) s t \<longrightarrow>
      sy_mode t = sy_mode s \<and> sy_forwarded t = sy_forwarded s \<and>
      (err = None \<longleftrightarrow> sy_accepted t = sy_accepted s @ [e]))"
proof -
  have "\<exists>err t. async_step (EmitCall e err) s t"
    by (cases "length (sy_ch s) < sy_cap s"; cases "sy_closed s") (blast intro: async_step.intros)+
  moreover have "sy_mode t = sy_mode s \<and> sy_forwarded t = sy_forwarded s \<and>
      (err = None \<longleftrightarrow> sy_accepted t = sy_accepted s @ [e])"
    if "async_step (EmitCall e err) s t" for err t
    using that by (cases rule: async_emitE) auto
  ultimately show ?thesis by blast
qed

text \<open>A concrete run: a full buffer drops the second event, the close lets the first one out.\<close>

definition sample_event :: OCSFEvent where
  "sample_event = BuildDeletionEvent 0 ''00'' False []"

definition one_buffered :: async_state where
  "one_buffered = (NewAsyncSink 0)\<lparr>sy_ch := [sample_event], sy_accepted := [sample_event]\<rparr>"

lemma run_one_buffered: "async_run 0 [EmitCall sample_event None] one_buffered"
  using async_run.step [OF async_run.start async_step.emit_ok, of 0 sample_event]
  by (simp add: one_buffered_def NewAsyncSink_def)

theorem async_emit_never_blocks_witness:
  "sy_mode (one_buffered\<lparr>sy_mode := Forwarding sample_event\<rparr>) = Forwarding sample_event \<and>
   (\<exists>err t. async_step (EmitCall sample_event err) (one_buffered\<lparr>sy_mode := Forwarding sample_event\<rparr>) t \<and>
      sy_mode t = Forwarding sample_event)"
  using async_emit_never_blocks [of sample_event "one_buffered\<lparr>sy_mode := Forwarding sample_event\<rparr>"]
  by (auto simp del: split_paired_Ex)

theorem async_sink_fifo_witness:
  "\<exists>s. async_run 0 [EmitCall sample_event None, EmitCall sample_event (Some ''AsyncSink: buffer full, event dropped'')] s \<and>
     sy_forwarded s @ in_flight s @ sy_ch s = [sample_event]"
proof -
  have "async_step (EmitCall sample_event (Some ''AsyncSink: buffer full, event dropped'')) one_buffered one_buffered"
    by (rule async_step.emit_full) (simp_all add: one_buffered_def NewAsyncSink_def)
  from async_run.step [OF run_one_buffered this]
  have run: "async_run 0 [EmitCall sample_event None,
      EmitCall sample_event (Some ''AsyncSink: buffer full, event dropped'')] one_buffered" by simp
  with async_sink_fifo [OF run] show ?thesis by (auto simp: map_filter_simps)
qed

text \<open>How many steps the drain goroutine has left.\<close>

definition drain_work :: "async_state \<Rightarrow> nat" where
  "drain_work s = 2 * length (sy_ch s) +
     (case sy_mode s of Looping \<Rightarrow> 2 | Forwarding _ \<Rightarrow> 3 | Finishing \<Rightarrow> 1 | FinishForwarding _ \<Rightarrow> 2 | Exited \<Rightarrow> 0)"

lemma drain_step_work: "async_step DrainStep s t \<Longrightarrow> drain_work s = Suc (drain_work t)"
  by (cases rule: async_drainE) (auto simp: drain_work_def)

lemma drain_step_keeps:
  "async_step DrainStep s t \<Longrightarrow> sy_accepted t = sy_accepted s \<and> sy_closed t = sy_closed s"
  by (cases rule: async_drainE) auto

lemma drain_step_exit: "async_step DrainStep s t \<Longrightarrow> sy_mode t = Exited \<Longrightarrow> sy_ch t = []"
  by (auto elim!: async_drainE)

lemma drain_progress: "sy_closed s \<Longrightarrow> sy_mode s \<noteq> Exited \<Longrightarrow> \<exists>t. async_step DrainStep s t"
proof -
  assume "sy_closed s" "sy_mode s \<noteq> Exited"
  then show ?thesis
    by (cases "sy_mode s"; cases "sy_ch s") (blast intro: async_step.intros)+
qed

lemma drain_run:
  "(async_step DrainStep ^^ k) s t \<Longrightarrow> async_inv s \<Longrightarrow> sy_closed s \<Longrightarrow>
     drain_work s = k + drain_work t \<and> async_inv t \<and> sy_closed t \<and> sy_accepted t = sy_accepted s \<and>
     (k \<noteq> 0 \<and> sy_mode t = Exited \<longrightarrow> sy_ch t = [])"
proof (induction k arbitrary: t)
  case (Suc k)
  then obtain u where su: "(async_step DrainStep ^^ k) s u" and ut: "async_step DrainStep u t" by auto
  from Suc.IH [OF su Suc.prems(2,3)] drain_step_work [OF ut] drain_step_keeps [OF ut]
    async_step_inv [OF ut] drain_step_exit [OF ut]
  show ?case by auto
qed simp

text \<open>C28: After Close the drain goroutine finishes: left to itself it takes at most
  2 * max(1, n) + 3 more steps, it is stuck only when it has returned, and by then every event
  accepted so far has been forwarded, in order and once.\<close>

theorem async_close_flushes:
  assumes "async_run n ls s" and "sy_closed s" and "sy_mode s \<noteq> Exited"
    and "(async_step DrainStep ^^ k) s t"
  shows "k \<le> 2 * max 1 n + 3 \<and>
         ((\<exists>u. async_step DrainStep t u) \<or> sy_mode t = Exited \<and> sy_forwarded t = sy_accepted s)"
proof -
  from async_run_inv [OF assms(1)] have inv: "async_inv s" and cap: "sy_cap s = max 1 n" by auto
  note run = drain_run [OF assms(4) inv assms(2)]
  have "drain_work s \<le> 2 * max 1 n + 3"
    using inv cap unfolding drain_work_def async_inv_def by (cases "sy_mode s") auto
  with run have "k \<le> 2 * max 1 n + 3" by linarith
  moreover have "sy_forwarded t = sy_accepted s" if "sy_mode t = Exited"
  proof -
    have "k \<noteq> 0" using assms(3,4) that by (cases k) auto
    with run that show ?thesis by (auto simp: async_inv_def in_flight_def)
  qed
  moreover have "sy_mode t = Exited \<or> (\<exists>u. async_step DrainStep t u)"
    using drain_progress run by blast
  ultimately show ?thesis by blast
qed

definition closed_one :: async_state where
  "closed_one = one_buffered\<lparr>sy_closed := True\<rparr>"

lemma run_closed_one: "async_run 0 [EmitCall sample_event None, CloseCall] closed_one"
  using async_run.step [OF run_one_buffered async_step.close] by (simp add: closed_one_def)

definition exited_one :: async_state where
  "exited_one = closed_one\<lparr>sy_ch := [], sy_mode := Exited, sy_forwarded := [sample_event]\<rparr>"

lemma async_flush_steps: "(async_step DrainStep ^^ 4) closed_one exited_one"
proof -
  let ?a = "closed_one\<lparr>sy_ch := [], sy_mode := Forwarding sample_event\<rparr>"
  let ?b = "closed_one\<lparr>sy_ch := [], sy_mode := Looping, sy_forwarded := [sample_event]\<rparr>"
  let ?c = "closed_one\<lparr>sy_ch := [], sy_mode := Finishing, sy_forwarded := [sample_event]\<rparr>"
  have "async_step DrainStep closed_one ?a"
    by (rule async_step.receive) (simp_all add: closed_one_def one_buffered_def NewAsyncSink_def)
  moreover have "async_step DrainStep ?a ?b"
    using async_step.forward [of ?a sample_event] by (simp add: closed_one_def one_buffered_def NewAsyncSink_def)
  moreover have "async_step DrainStep ?b ?c"
    using async_step.see_closed [of ?b] by (simp add: closed_one_def one_buffered_def NewAsyncSink_def)
  moreover have "async_step DrainStep ?c exited_one"
    using async_step.finish_exit [of ?c]
    by (simp add: exited_one_def closed_one_def one_buffered_def NewAsyncSink_def)
  ultimately show ?thesis by (auto simp: numeral_eq_Suc)
qed

theorem async_close_flushes_witness:
  "\<exists>s t. sy_closed s \<and> (async_step DrainStep ^^ 4) s t \<and> sy_mode t = Exited \<and> sy_forwarded t = sy_accepted s"
proof -
  have "sy_closed closed_one" "sy_mode closed_one \<noteq> Exited"
    by (simp_all add: closed_one_def one_buffered_def NewAsyncSink_def)
  from async_close_flushes [OF run_closed_one this async_flush_steps]
  have "(\<exists>u. async_step DrainStep exited_one u) \<or>
      sy_mode exited_one = Exited \<and> sy_forwarded exited_one = sy_accepted closed_one" by blast
  moreover have "\<not> (\<exists>u. async_step DrainStep exited_one u)"
    by (auto simp: exited_one_def elim: async_drainE)
  ultimately show ?thesis using \<open>sy_closed closed_one\<close> async_flush_steps by blast
qed

text \<open>Emit on a closed sink can report success and lose the event. The select of Emit may
  choose the free buffer slot although the sink is closed; when the drain goroutine has returned,
  no step is left that could forward what was accepted.\<close>

theorem async_accepts_after_exit:
  "\<exists>ls s. async_run 0 (ls @ [EmitCall sample_event None]) s \<and> CloseCall \<in> set ls \<and>
     sy_mode s = Exited \<and> sy_accepted s = sy_forwarded s @ [sample_event] \<and>
     (\<forall>t. \<not> async_step DrainStep s t)"
proof -
  let ?s = "exited_one\<lparr>sy_ch := [sample_event], sy_accepted := [sample_event, sample_event]\<rparr>"
  have "\<exists>ls. async_run 0 (ls @ replicate k DrainStep) t \<and> CloseCall \<in> set ls"
    if "(async_step DrainStep ^^ k) closed_one t" for k t
    using that
  proof (induction k arbitrary: t)
    case 0
    with run_closed_one show ?case
      by (intro exI [of _ "[EmitCall sample_event None, CloseCall]"]) simp
  next
    case (Suc k)
    then obtain u where "(async_step DrainStep ^^ k) closed_one u" "async_step DrainStep u t" by auto
    with Suc.IH [of u] obtain ls where "async_run 0 (ls @ replicate k DrainStep) u" "CloseCall \<in> set ls" by blast
    with async_run.step [OF this(1) \<open>async_step DrainStep u t\<close>] show ?case
      by (metis append.assoc replicate_Suc replicate_append_same)
  qed
  from this [OF async_flush_steps] obtain ls where
    run: "async_run 0 (ls @ replicate 4 DrainStep) exited_one" and "CloseCall \<in> set ls" by blast
  have "async_step (EmitCall sample_event None) exited_one ?s"
    using async_step.emit_ok [of exited_one sample_event]
    by (simp add: exited_one_def closed_one_def one_buffered_def NewAsyncSink_def)
  from async_run.step [OF run this]
  have "async_run 0 ((ls @ replicate 4 DrainStep) @ [EmitCall sample_event None]) ?s" .
  moreover have "\<forall>t. \<not> async_step DrainStep ?s t"
    by (auto simp: exited_one_def elim: async_drainE)
  moreover have "CloseCall \<in> set (ls @ replicate 4 DrainStep)" using \<open>CloseCall \<in> set ls\<close> by simp
  moreover have "sy_mode ?s = Exited" "sy_accepted ?s = sy_forwarded ?s @ [sample_event]"
    by (simp_all add: exited_one_def)
  ultimately show ?thesis by blast
qed

section \<open>The audit-trail transport\<close>

text \<open>A value of the plain wire event: strings, integers, lists and objects, no other kind.\<close>

datatype wire = WStr string | WInt int | WArr "wire list" | WObj "(string \<times> wire) list"

definition auditActor :: string where
  "auditActor = ''memory-guard''"

definition mapToAuditTrailEvent :: "OCSFEvent \<Rightarrow> (string \<times> wire) list" where
  "mapToAuditTrailEvent e =
     (let f = ev_Finding e;
          target = (if fi_StoredID f = [] then ''memory-store'' else fi_StoredID f);
          refs = (if fi_DeletionHash f \<noteq> []
                  then [WObj [(''type'', WStr ''deletion_hash''), (''id'', WStr (fi_DeletionHash f))]]
                  else []);
          rd = (if fi_ResidueDetected f = Some True then 1 else 0);
          ctx = [(''finding_type'', WStr (fi_Type f)),
                 (''flags'', WStr (join '','' (fi_Flags f))),
                 (''flag_count'', WInt (fi_FlagCount f)),
                 (''severity_id'', WInt (ev_SeverityID e)),
                 (''ocsf_class_uid'', WInt (ev_ClassUID e))] @
                (if fi_Operation f = ''verify_delete'' then [(''residue_detected'', WInt rd)] else []);
          decision = (if fi_Type f = ''injection_rejected'' then [(''decision'', WStr ''deny'')]
                      else if fi_Type f = ''pii_redaction'' then [(''decision'', WStr ''allow'')]
                      else [])
      in [(''ts'', WInt (ev_Time e)), (''actor'', WStr auditActor), (''action'', WStr (fi_Operation f)),
          (''target'', WStr target), (''refs'', WArr refs), (''context'', WObj ctx)] @ decision)"

text \<open>Times in nanoseconds, as \<open>time.Duration\<close> counts.\<close>

definition defaultAuditTimeout :: int where
  "defaultAuditTimeout = 2 * 1000000000"

record AuditTrailSink =
  at_socketPath :: string
  at_timeout :: int

definition NewAuditTrailSink :: "string \<Rightarrow> int \<Rightarrow> AuditTrailSink" where
  "NewAuditTrailSink socketPath timeout =
     \<lparr>at_socketPath = socketPath, at_timeout = (if timeout \<le> 0 then defaultAuditTimeout else timeout)\<rparr>"

definition resolveAuditSocket :: "string \<Rightarrow> string \<Rightarrow> string" where
  "resolveAuditSocket flagVal envVal = (if flagVal \<noteq> [] then flagVal else envVal)"

text \<open>AsyncSink's Emit as a sink value. Where the select has two ready cases (closed, with room)
  it sends.\<close>

definition AsyncSink_Emit :: "async_state audit_sink" where
  "AsyncSink_Emit =
     \<lparr>as_Emit = (\<lambda>e s.
        if length (sy_ch s) < sy_cap s then
          (EmitOk, s\<lparr>sy_ch := sy_ch s @ [e], sy_accepted := sy_accepted s @ [e]\<rparr>)
        else if sy_closed s then (EmitErr ''AsyncSink: closed, event dropped'', s)
        else (EmitErr ''AsyncSink: buffer full, event dropped'', s))\<rparr>"

text \<open>The configuration, and for an enabled one the wrapped transport and the fresh dispatcher.\<close>

definition buildAuditConfig :: "string \<Rightarrow> async_state AuditConfig \<times> (AuditTrailSink \<times> async_state) option" where
  "buildAuditConfig socketPath =
     (if socketPath = [] then (\<lparr>ac_Enabled = False, ac_Sink = None\<rparr>, None)
      else (\<lparr>ac_Enabled = True, ac_Sink = Some AsyncSink_Emit\<rparr>,
            Some (NewAuditTrailSink socketPath defaultAuditTimeout, NewAsyncSink 256)))"

lemma AsyncSink_Emit_step:
  "as_Emit AsyncSink_Emit e s = (out, t) \<Longrightarrow>
     async_step (EmitCall e (case out of EmitOk \<Rightarrow> None | EmitErr m \<Rightarrow> Some m | EmitPanic m \<Rightarrow> Some m)) s t"
  by (auto simp: AsyncSink_Emit_def intro: async_step.intros split: if_splits)

interpretation async: audit_sink_contract AsyncSink_Emit sy_accepted
  by unfold_locales (simp add: AsyncSink_Emit_def)

lemmas wire_defs = mapToAuditTrailEvent_def event_builders Let_def ocsf_consts

text \<open>The gate verdict crosses the wire as documented: deny exactly for a rejected injection,
  allow for a redaction, no decision for a deletion; the deletion hash rides in refs of deletion
  events only, and residue_detected in the context of deletion events only.\<close>

theorem wire_event_decision:
  "map_of (mapToAuditTrailEvent (BuildInjectionRejectedEvent now fl sc)) ''decision'' = Some (WStr ''deny'') \<and>
   map_of (mapToAuditTrailEvent (BuildPIIRedactionEvent now fl i sc)) ''decision'' = Some (WStr ''allow'') \<and>
   map_of (mapToAuditTrailEvent (BuildDeletionEvent now h rd rfl)) ''decision'' = None \<and>
   map_of (mapToAuditTrailEvent (BuildDeletionEvent now h rd rfl)) ''refs'' =
     Some (WArr (if h = [] then [] else [WObj [(''type'', WStr ''deletion_hash''), (''id'', WStr h)]])) \<and>
   map_of (mapToAuditTrailEvent (BuildPIIRedactionEvent now fl i sc)) ''refs'' = Some (WArr []) \<and>
   (\<exists>ctx. map_of (mapToAuditTrailEvent (BuildDeletionEvent now h rd rfl)) ''context'' = Some (WObj ctx) \<and>
      map_of ctx ''residue_detected'' = Some (WInt (if rd then 1 else 0)))"
  by (simp add: wire_defs)

text \<open>The audit-trail wire event carries no provenance: events that differ in source_class only
  are the same on the wire, although the finding has the field and the builders fill it.\<close>

theorem wire_event_drops_source_class:
  "mapToAuditTrailEvent (BuildPIIRedactionEvent now fl i sc) =
     mapToAuditTrailEvent (BuildPIIRedactionEvent now fl i sc') \<and>
   mapToAuditTrailEvent (BuildInjectionRejectedEvent now fl sc) =
     mapToAuditTrailEvent (BuildInjectionRejectedEvent now fl sc') \<and>
   fi_SourceClass (ev_Finding (BuildPIIRedactionEvent now fl i sc)) = sc"
  by (simp add: wire_defs)

text \<open>Configuration: no socket on either side means disabled, with no sink and no transport; the
  flag wins over the environment; an enabled configuration always dispatches through a bounded
  buffer of 256 events with a positive timeout.\<close>

theorem audit_config_selection:
  "case buildAuditConfig (resolveAuditSocket flagVal envVal) of (cfg, transport) \<Rightarrow>
     (isActive cfg \<longleftrightarrow> \<not> (flagVal = [] \<and> envVal = [])) \<and>
     (if isActive cfg
      then \<exists>t a. transport = Some (t, a) \<and> sy_cap a = 256 \<and> 0 < at_timeout t \<and>
             at_socketPath t = (if flagVal = [] then envVal else flagVal)
      else transport = None)"
  by (simp add: buildAuditConfig_def resolveAuditSocket_def isActive_def NewAuditTrailSink_def
      NewAsyncSink_def defaultAuditTimeout_def)

end
