(* ===== verification/Float64.thy ===== *)
theory Float64
  imports Complex_Main
begin

text \<open>
  IEEE binary64 arithmetic as Go's float64 performs it on the finite values the inspectors reach:
  a value is the rational it denotes, and every operation is the exact operation followed by
  \<open>fl\<close>, rounding to nearest with ties to even (gradual underflow included). Overflow is not
  modelled: sizes, counts and their squares stay below \<open>2 ^ 200\<close>.
\<close>

section \<open>Rounding to an integer\<close>

definition rne :: "rat \<Rightarrow> int" where
  "rne x = (let f = \<lfloor>x\<rfloor>; d = x - of_int f in
            if d < 1 / 2 then f else if 1 / 2 < d then f + 1 else if even f then f else f + 1)"

lemma rne_error: "\<bar>of_int (rne x) - x\<bar> \<le> 1 / 2"
proof -
  have "of_int \<lfloor>x\<rfloor> \<le> x" "x < of_int \<lfloor>x\<rfloor> + 1" by linarith+
  then show ?thesis by (auto simp: rne_def Let_def abs_le_iff)
qed

lemma rne_int [simp]: "rne (of_int n) = n"
  by (simp add: rne_def)

lemma rne_mono: "x \<le> y \<Longrightarrow> rne x \<le> rne y"
proof (rule ccontr)
  assume xy: "x \<le> y" and "\<not> rne x \<le> rne y"
  then have "rne y + 1 \<le> rne x" by linarith
  then have "of_int (rne y) + 1 \<le> (of_int (rne x) :: rat)" by (metis of_int_1 of_int_add of_int_le_iff)
  with rne_error [of x] rne_error [of y] xy have "x = y" by (simp add: abs_le_iff)
  with \<open>\<not> rne x \<le> rne y\<close> show False by simp
qed

lemma rne_ge: "of_int n \<le> x \<Longrightarrow> n \<le> rne x"
  using rne_mono [of "of_int n" x] by simp

lemma rne_le: "x \<le> of_int n \<Longrightarrow> rne x \<le> n"
  using rne_mono [of x "of_int n"] by simp

section \<open>Exponents\<close>

function blen :: "int \<Rightarrow> int" where
  "blen n = (if n \<le> 0 then 0 else 1 + blen (n div 2))"
  by pat_completeness auto
termination by (relation "measure nat") auto

declare blen.simps [simp del]

definition pow2 :: "int \<Rightarrow> rat" where
  "pow2 e = (if 0 \<le> e then 2 ^ nat e else 1 / 2 ^ nat (- e))"

lemma pow2_powi: "pow2 e = 2 powi e"
  by (simp add: pow2_def power_int_def inverse_eq_divide power_one_over)

lemma pow2_pos [simp]: "0 < pow2 e"
  by (simp add: pow2_def)

lemma pow2_nonneg [simp]: "0 \<le> pow2 e"
  by (simp add: pow2_def)

lemma pow2_0 [simp]: "pow2 0 = 1"
  by (simp add: pow2_def)

lemma pow2_ne [simp]: "pow2 e \<noteq> 0"
  by (metis less_irrefl pow2_pos)

lemma pow2_add: "pow2 (a + b) = pow2 a * pow2 b"
  by (simp add: pow2_powi power_int_add)

lemma pow2_mono: "a \<le> b \<Longrightarrow> pow2 a \<le> pow2 b"
  by (simp add: pow2_powi power_int_increasing)

lemma pow2_less: "a < b \<Longrightarrow> pow2 a < pow2 b"
  by (simp add: pow2_powi power_int_strict_increasing)

lemma pow2_1: "pow2 (e + 1) = 2 * pow2 e"
  by (simp add: pow2_add) (simp add: pow2_def)

lemma blen_nonneg: "0 \<le> blen n"
  by (induction n rule: blen.induct) (subst blen.simps, auto)

lemma blen_bounds: "0 < n \<Longrightarrow> pow2 (blen n - 1) \<le> of_int n \<and> of_int n < pow2 (blen n)"
proof (induction n rule: blen.induct)
  case (1 n)
  show ?case
  proof (cases "n = 1")
    case True
    then show ?thesis by (simp add: blen.simps [of 1] blen.simps [of 0] pow2_def)
  next
    case False
    with "1.prems" have pos: "0 < n div 2" by auto
    from "1.IH" [OF _ this] "1.prems"
    have IH: "pow2 (blen (n div 2) - 1) \<le> of_int (n div 2)" "of_int (n div 2) < pow2 (blen (n div 2))"
      by auto
    have b: "blen n = blen (n div 2) + 1" using "1.prems" by (simp add: blen.simps [of n])
    have "2 * (n div 2) \<le> n" by simp
    then have "of_int (2 * (n div 2)) \<le> (of_int n :: rat)" by (simp only: of_int_le_iff)
    then have low: "2 * of_int (n div 2) \<le> (of_int n :: rat)" by simp
    have "pow2 (blen n - 1) = 2 * pow2 (blen (n div 2) - 1)"
      using pow2_1 [of "blen (n div 2) - 1"] by (simp add: b)
    with IH(1) low have 1: "pow2 (blen n - 1) \<le> of_int n" by linarith
    have "\<exists>k::nat. pow2 (blen (n div 2)) = of_int (2 ^ k)"
      using blen_nonneg [of "n div 2"] by (auto simp: pow2_def)
    then obtain k where k: "pow2 (blen (n div 2)) = of_int (2 ^ k)" by blast
    with IH(2) have "n div 2 < 2 ^ k" by (metis of_int_less_iff)
    then have "n < 2 * 2 ^ k" by linarith
    then have "of_int n < (of_int (2 * 2 ^ k) :: rat)" by (simp only: of_int_less_iff)
    also have "\<dots> = pow2 (blen n)" by (simp add: b pow2_1 k)
    finally show ?thesis using 1 by blast
  qed
qed

definition fl_exp :: "rat \<Rightarrow> int" where
  "fl_exp x =
     (let (a, b) = quotient_of x; e = blen a - blen b - 53
      in if 2 ^ 53 \<le> x / pow2 e then e + 1 else e)"

lemma quotient_bounds:
  assumes "0 < x" and "quotient_of x = (a, b)"
  shows "pow2 (blen a - blen b - 1) < x" and "x < pow2 (blen a - blen b + 1)"
proof -
  have b: "0 < b" using quotient_of_denom_pos [OF assms(2)] .
  have x: "x = of_int a / of_int b" using quotient_of_div [OF assms(2)] .
  with assms(1) b have a: "0 < a" by (simp add: zero_less_divide_iff)
  note A = blen_bounds [OF a] and B = blen_bounds [OF b]
  have bpos: "(0::rat) < of_int b" using b by simp
  have "pow2 (blen a - blen b - 1) * pow2 (blen b) = pow2 (blen a - 1)"
    by (simp flip: pow2_add)
  moreover have "pow2 (blen a - blen b - 1) * of_int b < pow2 (blen a - blen b - 1) * pow2 (blen b)"
    using B by (intro mult_strict_left_mono) auto
  ultimately have "pow2 (blen a - blen b - 1) * of_int b < of_int a" using A by linarith
  then show "pow2 (blen a - blen b - 1) < x" using bpos by (simp add: x pos_less_divide_eq)
  have "pow2 (blen a - blen b + 1) * pow2 (blen b - 1) = pow2 (blen a)"
    by (simp flip: pow2_add)
  moreover have "pow2 (blen a - blen b + 1) * pow2 (blen b - 1) \<le> pow2 (blen a - blen b + 1) * of_int b"
    using B by (intro mult_left_mono) auto
  ultimately have "of_int a < pow2 (blen a - blen b + 1) * of_int b" using A by linarith
  then show "x < pow2 (blen a - blen b + 1)" using bpos by (simp add: x pos_divide_less_eq)
qed

lemma pow2_52: "pow2 52 = 2 ^ 52" and pow2_53: "pow2 53 = 2 ^ 53"
  by (simp_all add: pow2_def)

lemma fl_exp_range:
  assumes "0 < x"
  shows "pow2 52 * pow2 (fl_exp x) \<le> x" and "x < pow2 53 * pow2 (fl_exp x)"
proof -
  obtain a b where q: "quotient_of x = (a, b)" by (cases "quotient_of x")
  define e where "e = blen a - blen b - 53"
  note bounds = quotient_bounds [OF assms q]
  have low: "pow2 52 * pow2 e < x" and high: "x < pow2 53 * (2 * pow2 e)"
    using bounds pow2_add [of 52 e] pow2_add [of 53 "e + 1"] pow2_1 [of e] by (simp_all add: e_def algebra_simps)
  have fe: "fl_exp x = (if 2 ^ 53 \<le> x / pow2 e then e + 1 else e)"
    by (simp add: fl_exp_def q e_def)
  have iff: "2 ^ 53 \<le> x / pow2 e \<longleftrightarrow> pow2 53 * pow2 e \<le> x"
    by (simp add: pos_le_divide_eq pow2_53)
  show "pow2 52 * pow2 (fl_exp x) \<le> x"
    using low iff by (auto simp: fe pow2_1 pow2_52 pow2_53)
  show "x < pow2 53 * pow2 (fl_exp x)"
    using high iff by (auto simp: fe pow2_1)
qed

lemma fl_exp_unique:
  assumes "pow2 52 * pow2 e \<le> x" and "x < pow2 53 * pow2 e"
  shows "fl_exp x = e"
proof -
  have "0 < x" using assms(1) by (metis less_le_trans mult_pos_pos pow2_pos)
  note r = fl_exp_range [OF this]
  have "\<not> e < fl_exp x"
  proof
    assume "e < fl_exp x"
    then have "pow2 (53 + e) \<le> pow2 (52 + fl_exp x)" by (intro pow2_mono) simp
    with r(1) assms(2) show False by (simp add: pow2_add)
  qed
  moreover have "\<not> fl_exp x < e"
  proof
    assume "fl_exp x < e"
    then have "pow2 (53 + fl_exp x) \<le> pow2 (52 + e)" by (intro pow2_mono) simp
    with r(2) assms(1) show False by (simp add: pow2_add)
  qed
  ultimately show ?thesis by simp
qed

lemma fl_exp_mono: "0 < x \<Longrightarrow> x \<le> y \<Longrightarrow> fl_exp x \<le> fl_exp y"
proof (rule ccontr)
  assume "0 < x" "x \<le> y" "\<not> fl_exp x \<le> fl_exp y"
  then have "pow2 (53 + fl_exp y) \<le> pow2 (52 + fl_exp x)" by (intro pow2_mono) simp
  with fl_exp_range(1) [OF \<open>0 < x\<close>] fl_exp_range(2) [of y] \<open>0 < x\<close> \<open>x \<le> y\<close> show False
    by (simp add: pow2_add)
qed

section \<open>Rounding to binary64\<close>

definition fl_pos :: "rat \<Rightarrow> rat" where
  "fl_pos x = (let e = max (fl_exp x) (- 1074) in of_int (rne (x / pow2 e)) * pow2 e)"

definition fl :: "rat \<Rightarrow> rat" where
  "fl x = (if x = 0 then 0 else if x < 0 then - fl_pos (- x) else fl_pos x)"

lemma fl_0 [simp]: "fl 0 = 0"
  by (simp add: fl_def)

lemma fl_pos_nonneg: "0 < x \<Longrightarrow> 0 \<le> fl_pos x"
  unfolding fl_pos_def Let_def by (intro mult_nonneg_nonneg) (auto intro: rne_ge)

lemma fl_nonneg: "0 \<le> x \<Longrightarrow> 0 \<le> fl x"
  using fl_pos_nonneg by (simp add: fl_def)

lemma fl_pos_upper: "0 < x \<Longrightarrow> fl_pos x \<le> pow2 53 * pow2 (max (fl_exp x) (- 1074))"
proof -
  assume x: "0 < x"
  let ?e = "max (fl_exp x) (- 1074)"
  have "pow2 53 * pow2 (fl_exp x) \<le> pow2 53 * pow2 ?e" by (intro mult_left_mono pow2_mono) auto
  with fl_exp_range(2) [OF x] have "x / pow2 ?e \<le> of_int (2 ^ 53)"
    by (simp add: pos_divide_le_eq pow2_53)
  from rne_le [OF this] have "of_int (rne (x / pow2 ?e)) \<le> (of_int (2 ^ 53) :: rat)"
    by (simp only: of_int_le_iff)
  then show ?thesis unfolding fl_pos_def Let_def by (intro mult_right_mono) (auto simp: pow2_53)
qed

lemma fl_pos_lower: "0 < x \<Longrightarrow> - 1074 \<le> fl_exp x \<Longrightarrow> pow2 52 * pow2 (fl_exp x) \<le> fl_pos x"
proof -
  assume x: "0 < x" and e: "- 1074 \<le> fl_exp x"
  from fl_exp_range(1) [OF x] have "of_int (2 ^ 52) \<le> x / pow2 (fl_exp x)"
    by (simp add: pos_le_divide_eq pow2_52)
  from rne_ge [OF this] have "(of_int (2 ^ 52) :: rat) \<le> of_int (rne (x / pow2 (fl_exp x)))"
    by (simp only: of_int_le_iff)
  moreover have "max (fl_exp x) (- 1074) = fl_exp x" using e by simp
  ultimately show ?thesis unfolding fl_pos_def Let_def
    by (simp only:) (intro mult_right_mono, auto simp: pow2_52)
qed

lemma fl_pos_mono:
  assumes "0 < x" and "x \<le> y"
  shows "fl_pos x \<le> fl_pos y"
proof -
  define e f where "e = max (fl_exp x) (- 1074)" and "f = max (fl_exp y) (- 1074)"
  have "e \<le> f" unfolding e_def f_def using fl_exp_mono [OF assms] by auto
  then consider "e = f" | "e < f" by linarith
  then show ?thesis
  proof cases
    case 1
    have "rne (x / pow2 f) \<le> rne (y / pow2 f)"
      using assms by (intro rne_mono divide_right_mono) auto
    then show ?thesis unfolding fl_pos_def Let_def e_def [symmetric] f_def [symmetric] 1
      by (intro mult_right_mono) auto
  next
    case 2
    then have f: "f = fl_exp y" "- 1074 \<le> fl_exp y" by (auto simp: e_def f_def)
    have "fl_pos x \<le> pow2 53 * pow2 e" unfolding e_def using fl_pos_upper [OF assms(1)] .
    also have "\<dots> \<le> pow2 52 * pow2 f"
      using 2 pow2_mono [of "53 + e" "52 + f"] pow2_add [of 53 e] pow2_add [of 52 f] by simp
    also have "\<dots> \<le> fl_pos y" using fl_pos_lower [of y] f assms by simp
    finally show ?thesis .
  qed
qed

lemma fl_mono: "x \<le> y \<Longrightarrow> fl x \<le> fl y"
  using fl_pos_mono [of x y] fl_pos_mono [of "- y" "- x"] fl_pos_nonneg [of "- x"] fl_pos_nonneg [of y]
  by (auto simp: fl_def)

text \<open>Just below one the spacing is \<open>2 ^ - 53\<close>.\<close>

lemma fl_error_below_one:
  assumes "1 / 2 \<le> x" and "x < 1"
  shows "\<bar>fl x - x\<bar> \<le> 1 / 2 ^ 54"
proof -
  have e: "fl_exp x = - 53"
    using assms by (intro fl_exp_unique) (auto simp: pow2_def)
  have "fl x - x = (of_int (rne (x / pow2 (- 53))) - x / pow2 (- 53)) * pow2 (- 53)"
    using assms by (simp add: fl_def fl_pos_def e left_diff_distrib)
  then have "\<bar>fl x - x\<bar> = \<bar>of_int (rne (x / pow2 (- 53))) - x / pow2 (- 53)\<bar> * pow2 (- 53)"
    by (simp add: abs_mult)
  also have "\<dots> \<le> 1 / 2 * pow2 (- 53)"
    by (intro mult_right_mono rne_error) simp
  finally show ?thesis by (simp add: pow2_def)
qed

lemma fl_near:
  assumes "1 / 2 \<le> x" and "x < 1"
  shows "fl x \<le> x + 1 / 18014398509481984" and "x - 1 / 18014398509481984 \<le> fl x"
proof -
  have "\<bar>fl x - x\<bar> \<le> 1 / 18014398509481984" using fl_error_below_one [OF assms] by simp
  then show "fl x \<le> x + 1 / 18014398509481984" and "x - 1 / 18014398509481984 \<le> fl x" by linarith+
qed

text \<open>Integers up to \<open>2 ^ 53\<close> are exact.\<close>

lemma fl_int:
  assumes "\<bar>n\<bar> < 2 ^ 53"
  shows "fl (of_int n) = of_int n"
proof -
  have pos: "fl_pos (of_int n) = of_int n" if n: "0 < n" "n < 2 ^ 53" for n
  proof -
    let ?x = "of_int n :: rat"
    have "1 \<le> ?x" using n by simp
    have "?x < of_int (2 ^ 53)" using n(2) by (simp only: of_int_less_iff)
    then have lt: "?x < pow2 53" by (simp add: pow2_53)
    have "fl_exp ?x \<le> 0"
    proof (rule ccontr)
      assume "\<not> fl_exp ?x \<le> 0"
      then have "pow2 (53 + 0) \<le> pow2 (52 + fl_exp ?x)" by (intro pow2_mono) simp
      with fl_exp_range(1) [of ?x] lt \<open>1 \<le> ?x\<close> show False using pow2_add [of 52 "fl_exp ?x"] by simp
    qed
    moreover have "- 1074 \<le> fl_exp ?x"
    proof (rule ccontr)
      assume "\<not> - 1074 \<le> fl_exp ?x"
      then have "pow2 (53 + fl_exp ?x) \<le> pow2 0" by (intro pow2_mono) simp
      with fl_exp_range(2) [of ?x] \<open>1 \<le> ?x\<close> show False using pow2_add [of 53 "fl_exp ?x"] by simp
    qed
    ultimately obtain k where k: "max (fl_exp ?x) (- 1074) = - int k"
      by (metis max.absorb1 nonneg_int_cases neg_0_le_iff_le minus_minus)
    have "?x / pow2 (- int k) = of_int (n * 2 ^ k)" by (simp add: pow2_def)
    then have "fl_pos ?x = of_int (n * 2 ^ k) * pow2 (- int k)"
      unfolding fl_pos_def Let_def k by (simp only: rne_int)
    then show ?thesis by (simp add: pow2_def)
  qed
  from pos [of n] pos [of "- n"] assms show ?thesis by (auto simp: fl_def abs_less_iff)
qed

section \<open>Operations\<close>

definition fadd :: "rat \<Rightarrow> rat \<Rightarrow> rat" where "fadd x y = fl (x + y)"
definition fsub :: "rat \<Rightarrow> rat \<Rightarrow> rat" where "fsub x y = fl (x - y)"
definition fmul :: "rat \<Rightarrow> rat \<Rightarrow> rat" where "fmul x y = fl (x * y)"
definition fdiv :: "rat \<Rightarrow> rat \<Rightarrow> rat" where "fdiv x y = fl (x / y)"
definition f_of_int :: "int \<Rightarrow> rat" where "f_of_int n = fl (of_int n)"

text \<open>\<open>math.Sqrt\<close>, correctly rounded: the integer square root of the argument scaled to
  between \<open>2 ^ 104\<close> and \<open>2 ^ 106\<close>, then the tie rule on the exact square.\<close>

function isqrt :: "int \<Rightarrow> int" where
  "isqrt n = (if n \<le> 0 then 0
              else let r = 2 * isqrt (n div 4) in if (r + 1) ^ 2 \<le> n then r + 1 else r)"
  by pat_completeness auto
termination by (relation "measure nat") auto

declare isqrt.simps [simp del]

definition fsqrt :: "rat \<Rightarrow> rat" where
  "fsqrt x =
     (if x \<le> 0 then 0
      else let e = (fl_exp x - 52) div 2;
               y = x / (pow2 e * pow2 e);
               f = isqrt \<lfloor>y\<rfloor>;
               mid = (of_int f + 1 / 2) ^ 2;
               m = (if y < mid then f else if mid < y then f + 1 else if even f then f else f + 1)
           in of_int m * pow2 e)"

lemma fsqrt_0 [simp]: "fsqrt 0 = 0"
  by (simp add: fsqrt_def)

lemma isqrt_bounds: "0 \<le> n \<Longrightarrow> 0 \<le> isqrt n \<and> isqrt n ^ 2 \<le> n \<and> n < (isqrt n + 1) ^ 2"
proof (induction n rule: isqrt.induct)
  case (1 n)
  show ?case
  proof (cases "n = 0")
    case True
    then show ?thesis by (simp add: isqrt.simps [of 0])
  next
    case False
    with "1.prems" have n: "\<not> n \<le> 0" by simp
    define q where "q = isqrt (n div 4)"
    from "1.IH" [OF n] n have q: "0 \<le> q" "q ^ 2 \<le> n div 4" "n div 4 < (q + 1) ^ 2"
      unfolding q_def by (auto simp: pos_imp_zdiv_nonneg_iff)
    have "4 * q ^ 2 \<le> n" "n < 4 * (q + 1) ^ 2" using q(2,3) by linarith+
    then have "(2 * q) ^ 2 \<le> n" "n < (2 * q + 2) ^ 2" by (simp_all add: power2_eq_square algebra_simps)
    moreover have "isqrt n = (if (2 * q + 1) ^ 2 \<le> n then 2 * q + 1 else 2 * q)"
      using n by (simp add: isqrt.simps [of n] q_def Let_def)
    ultimately show ?thesis using q(1) by (auto simp: add.assoc)
  qed
qed

lemma fsqrt_pos: "0 < x \<Longrightarrow> 0 < fsqrt x"
proof -
  assume x: "0 < x"
  define e where "e = (fl_exp x - 52) div 2"
  define y where "y = x / (pow2 e * pow2 e)"
  have "2 * e + 52 \<le> fl_exp x" unfolding e_def by linarith
  then have "pow2 (52 + (e + e)) \<le> pow2 (fl_exp x)" by (intro pow2_mono) simp
  then have "pow2 52 * (pow2 e * pow2 e) \<le> pow2 (fl_exp x)"
    using pow2_add [of 52 "e + e"] pow2_add [of e e] by simp
  also have "\<dots> \<le> pow2 52 * pow2 (fl_exp x)" by (simp add: pow2_52)
  also have "\<dots> \<le> x" by (rule fl_exp_range(1) [OF x])
  finally have "pow2 52 * (pow2 e * pow2 e) \<le> x" .
  then have "2 ^ 52 \<le> y" unfolding y_def by (simp add: pos_le_divide_eq pow2_52)
  then have fy: "2 ^ 52 \<le> \<lfloor>y\<rfloor>" by (simp add: le_floor_iff)
  then have "0 < isqrt \<lfloor>y\<rfloor>"
    using isqrt_bounds [of "\<lfloor>y\<rfloor>"] by (cases "isqrt \<lfloor>y\<rfloor> = 0") auto
  then show ?thesis
    using x by (auto simp: fsqrt_def Let_def simp flip: e_def y_def intro!: mult_pos_pos)
qed

end
