(* ===== verification/Inspectors.thy ===== *)
theory Inspectors
  imports Prelude Regexp Float64
begin

text \<open>
  The WriteInspector seam (\<open>write_inspector.go\<close>) and its three implementations: the
  self-reinforcement detector (\<open>self_reinforcement.go\<close>), the size-anomaly detector and the
  combinator (\<open>detector_size.go\<close>). Inspectors keep state, so Inspect takes and returns it. The
  clock reading is the argument \<open>now\<close>, in nanoseconds; \<open>ul\<close> is the rune table
  \<open>unicode.ToLower\<close>. A Go map with slice values is a function: a missing key reads as \<open>[]\<close>.
  Thresholds are rationals (neither NaN nor infinite), and products are rounded before they are
  added, as without a fused multiply-add.
\<close>

section \<open>The interface\<close>

record WriteContext =
  wc_Key :: string
  wc_SourceClass :: string

text \<open>The guard appends an inspector's flags to the flags it routes on, so an inspector must not
  raise a routing flag of the Detector seam.\<close>

locale write_inspector =
  fixes inspect :: "int \<Rightarrow> string \<Rightarrow> WriteContext \<Rightarrow> 'i \<Rightarrow> string list \<times> 'i"
  assumes no_routing_flags:
    "set (fst (inspect now content ctx i)) \<inter> {''injection_suspected'', ''borderline_suspected''} = {}"
begin

lemma routing_flags_unchanged:
  "f \<in> {''injection_suspected'', ''borderline_suspected''} \<Longrightarrow>
     f \<in> set (flags @ fst (inspect now content ctx i)) \<longleftrightarrow> f \<in> set flags"
  using no_routing_flags by fastforce

end

section \<open>Self-reinforcement\<close>

definition selfReinforcementFlag :: string where
  "selfReinforcementFlag = ''self_reinforcement_suspected''"

definition humanAuthoredSourceClass :: string where
  "humanAuthoredSourceClass = ''human_authored''"

definition defaultSimilarityThreshold :: rat where
  "defaultSimilarityThreshold = fl (85 / 100)"

definition defaultCooldown :: int where
  "defaultCooldown = 5 * 60 * 1000000000"

definition defaultMaxSelfWrites :: int where
  "defaultMaxSelfWrites = 3"

definition defaultMaxHistoryPerSubject :: int where
  "defaultMaxHistoryPerSubject = 256"

definition tokenPattern :: re where
  "tokenPattern = re_plus (cls [(CHR ''a'', CHR ''z''), (CHR ''0'', CHR ''9'')])"

record writeRecord =
  wr_tokens :: "string list"
  wr_at :: int

record SelfReinforcementDetector =
  sr_similarityThreshold :: rat
  sr_cooldown :: int
  sr_maxSelfWrites :: int
  sr_maxHistoryPerSubject :: int
  sr_history :: "string \<Rightarrow> writeRecord list"

type_synonym SelfReinforcementOption = "SelfReinforcementDetector \<Rightarrow> SelfReinforcementDetector"

definition WithSimilarityThreshold :: "rat \<Rightarrow> SelfReinforcementOption" where
  "WithSimilarityThreshold t = (\<lambda>d. d\<lparr>sr_similarityThreshold := t\<rparr>)"

definition WithCooldown :: "int \<Rightarrow> SelfReinforcementOption" where
  "WithCooldown c = (\<lambda>d. d\<lparr>sr_cooldown := c\<rparr>)"

definition WithMaxSelfWrites :: "int \<Rightarrow> SelfReinforcementOption" where
  "WithMaxSelfWrites n = (\<lambda>d. d\<lparr>sr_maxSelfWrites := n\<rparr>)"

definition WithMaxHistoryPerSubject :: "int \<Rightarrow> SelfReinforcementOption" where
  "WithMaxHistoryPerSubject n = (\<lambda>d. d\<lparr>sr_maxHistoryPerSubject := n\<rparr>)"

definition NewSelfReinforcementDetector :: "SelfReinforcementOption list \<Rightarrow> SelfReinforcementDetector" where
  "NewSelfReinforcementDetector opts =
     (let d0 = \<lparr>sr_similarityThreshold = defaultSimilarityThreshold, sr_cooldown = defaultCooldown,
                sr_maxSelfWrites = defaultMaxSelfWrites,
                sr_maxHistoryPerSubject = defaultMaxHistoryPerSubject, sr_history = (\<lambda>_. [])\<rparr>;
          d = foldl (\<lambda>d opt. opt d) d0 opts
      in if sr_maxHistoryPerSubject d < 1
         then d\<lparr>sr_maxHistoryPerSubject := defaultMaxHistoryPerSubject\<rparr> else d)"

definition treatedAsAgentAuthored :: "string \<Rightarrow> bool" where
  "treatedAsAgentAuthored sourceClass = (trim_space sourceClass \<noteq> humanAuthoredSourceClass)"

text \<open>A token set is a list without repetitions.\<close>

definition tokenSet :: "(rune \<Rightarrow> rune) \<Rightarrow> string \<Rightarrow> string list" where
  "tokenSet ul content = remdups (find_all_unbounded tokenPattern (to_lower ul content))"

definition overlapCoefficient :: "string list \<Rightarrow> string list \<Rightarrow> rat" where
  "overlapCoefficient a b =
     (if length a = 0 \<or> length b = 0 then 0
      else let (small, large) = (if length b < length a then (b, a) else (a, b));
               inter = length (filter (\<lambda>t. t \<in> set large) small)
           in fdiv (f_of_int (int inter)) (f_of_int (int (length small))))"

definition pruneLocked ::
  "string \<Rightarrow> int \<Rightarrow> SelfReinforcementDetector \<Rightarrow> writeRecord list \<times> SelfReinforcementDetector" where
  "pruneLocked key now d =
     (let recs = sr_history d key in
      if length recs = 0 then (recs, d)
      else let kept = filter (\<lambda>r. now - wr_at r < sr_cooldown d) recs
           in (kept, d\<lparr>sr_history := (sr_history d)(key := kept)\<rparr>))"

definition count_similar :: "rat \<Rightarrow> string list \<Rightarrow> writeRecord list \<Rightarrow> int" where
  "count_similar threshold tokens recent =
     int (length (filter (\<lambda>r. threshold \<le> overlapCoefficient tokens (wr_tokens r)) recent))"

definition sr_Inspect ::
  "(rune \<Rightarrow> rune) \<Rightarrow> int \<Rightarrow> string \<Rightarrow> WriteContext \<Rightarrow> SelfReinforcementDetector \<Rightarrow>
   string list \<times> SelfReinforcementDetector" where
  "sr_Inspect ul now content ctx d =
     (if \<not> treatedAsAgentAuthored (wc_SourceClass ctx) then ([], d)
      else
        let tokens = tokenSet ul content;
            (recent, d1) = pruneLocked (wc_Key ctx) now d;
            similar = count_similar (sr_similarityThreshold d) tokens recent;
            recent1 = recent @ [\<lparr>wr_tokens = tokens, wr_at = now\<rparr>];
            recent2 = (if sr_maxHistoryPerSubject d < int (length recent1)
                       then drop (length recent1 - nat (sr_maxHistoryPerSubject d)) recent1
                       else recent1);
            d2 = d1\<lparr>sr_history := (sr_history d1)(wc_Key ctx := recent2)\<rparr>
        in (if sr_maxSelfWrites d \<le> similar then [selfReinforcementFlag] else [], d2))"

definition historySize :: "string \<Rightarrow> SelfReinforcementDetector \<Rightarrow> int" where
  "historySize key d = int (length (sr_history d key))"

definition similarCount ::
  "(rune \<Rightarrow> rune) \<Rightarrow> string \<Rightarrow> string \<Rightarrow> int \<Rightarrow> SelfReinforcementDetector \<Rightarrow> int \<times> SelfReinforcementDetector" where
  "similarCount ul key content now d =
     (let tokens = tokenSet ul content; (recent, d1) = pruneLocked key now d
      in (count_similar (sr_similarityThreshold d) tokens recent, d1))"

section \<open>Size anomaly\<close>

definition sizeAnomalyFlag :: string where
  "sizeAnomalyFlag = ''size_anomaly_suspected''"

definition defaultSizeWindowSize :: int where "defaultSizeWindowSize = 20"
definition defaultSizeSigmaThreshold :: rat where "defaultSizeSigmaThreshold = 3"
definition defaultSizeMinSamples :: int where "defaultSizeMinSamples = 5"

record SizeAnomalyConfig =
  sc_WindowSize :: int
  sc_SigmaThreshold :: rat
  sc_MinSamples :: int

record SizeAnomalyDetector =
  sz_windowSize :: int
  sz_sigmaThreshold :: rat
  sz_minSamples :: int
  sz_buffers :: "string \<Rightarrow> int list"

definition NewSizeAnomalyDetector :: "SizeAnomalyConfig \<Rightarrow> SizeAnomalyDetector" where
  "NewSizeAnomalyDetector cfg =
     \<lparr>sz_windowSize = (if sc_WindowSize cfg < 1 then defaultSizeWindowSize else sc_WindowSize cfg),
      sz_sigmaThreshold = (if sc_SigmaThreshold cfg \<le> 0 then defaultSizeSigmaThreshold else sc_SigmaThreshold cfg),
      sz_minSamples = (if sc_MinSamples cfg < 1 then defaultSizeMinSamples else sc_MinSamples cfg),
      sz_buffers = (\<lambda>_. [])\<rparr>"

definition meanStddev :: "int list \<Rightarrow> rat \<times> rat" where
  "meanStddev xs =
     (let n = f_of_int (int (length xs));
          s = foldl (\<lambda>acc x. fadd acc (f_of_int x)) 0 xs;
          mean = fdiv s n;
          sq = foldl (\<lambda>acc x. let diff = fsub (f_of_int x) mean in fadd acc (fmul diff diff)) 0 xs
      in (mean, fsqrt (fdiv sq n)))"

definition sz_Inspect ::
  "int \<Rightarrow> string \<Rightarrow> WriteContext \<Rightarrow> SizeAnomalyDetector \<Rightarrow> string list \<times> SizeAnomalyDetector" where
  "sz_Inspect now content ctx d =
     (let size = int (length content);
          buf = sz_buffers d (wc_Key ctx);
          flags = (if sz_minSamples d \<le> int (length buf) then
                     (let (mean, stddev) = meanStddev buf in
                      if fmul (sz_sigmaThreshold d) stddev < \<bar>fsub (f_of_int size) mean\<bar>
                      then [sizeAnomalyFlag] else [])
                   else []);
          buf1 = buf @ [size];
          buf2 = (if sz_windowSize d < int (length buf1)
                  then drop (length buf1 - nat (sz_windowSize d)) buf1 else buf1)
      in (flags, d\<lparr>sz_buffers := (sz_buffers d)(wc_Key ctx := buf2)\<rparr>))"

definition bufferFor :: "string \<Rightarrow> SizeAnomalyDetector \<Rightarrow> int list" where
  "bufferFor key d = sz_buffers d key"

section \<open>Combining\<close>

text \<open>The non-nil WriteInspector values of the program, each with its state.\<close>

datatype inspector =
    SelfReinforcement SelfReinforcementDetector
  | SizeAnomaly SizeAnomalyDetector
  | Combined "inspector list"

fun CombineInspectors :: "inspector option list \<Rightarrow> inspector" where
  "CombineInspectors ins = Combined (List.map_filter (\<lambda>i. i) ins)"

text \<open>Appending to the union the flags not seen yet.\<close>

fun union_flags :: "string list \<Rightarrow> string list \<Rightarrow> string list" where
  "union_flags acc [] = acc"
| "union_flags acc (f # fs) = (if f \<in> set acc then union_flags acc fs else union_flags (acc @ [f]) fs)"

fun wi_Inspect :: "(rune \<Rightarrow> rune) \<Rightarrow> int \<Rightarrow> string \<Rightarrow> WriteContext \<Rightarrow> inspector \<Rightarrow> string list \<times> inspector"
  and inspect_each ::
    "(rune \<Rightarrow> rune) \<Rightarrow> int \<Rightarrow> string \<Rightarrow> WriteContext \<Rightarrow> string list \<Rightarrow> inspector list \<Rightarrow>
     string list \<times> inspector list" where
  "wi_Inspect ul now content ctx (SelfReinforcement d) =
     (let (flags, d') = sr_Inspect ul now content ctx d in (flags, SelfReinforcement d'))"
| "wi_Inspect ul now content ctx (SizeAnomaly d) =
     (let (flags, d') = sz_Inspect now content ctx d in (flags, SizeAnomaly d'))"
| "wi_Inspect ul now content ctx (Combined ins) =
     (let (acc, ins') = inspect_each ul now content ctx [] ins in (acc, Combined ins'))"
| "inspect_each ul now content ctx acc [] = (acc, [])"
| "inspect_each ul now content ctx acc (i # ins) =
     (let (flags, i') = wi_Inspect ul now content ctx i;
          (acc', ins') = inspect_each ul now content ctx (union_flags acc flags) ins
      in (acc', i' # ins'))"

section \<open>Flags\<close>

definition behavioral_flags :: "string set" where
  "behavioral_flags = {selfReinforcementFlag, sizeAnomalyFlag}"

lemma sr_flags: "set (fst (sr_Inspect ul now content ctx d)) \<subseteq> behavioral_flags"
  by (auto simp: sr_Inspect_def behavioral_flags_def Let_def split: prod.splits)

lemma sz_flags: "set (fst (sz_Inspect now content ctx d)) \<subseteq> behavioral_flags"
  by (auto simp: sz_Inspect_def behavioral_flags_def Let_def split: prod.splits if_splits)

lemma set_union_flags [simp]: "set (union_flags u fs) = set u \<union> set fs"
  by (induction u fs rule: union_flags.induct) auto

lemma distinct_union_flags: "distinct u \<Longrightarrow> distinct (union_flags u fs)"
  by (induction u fs rule: union_flags.induct) auto

lemma wi_flags:
  "set (fst (wi_Inspect ul now content ctx i)) \<subseteq> behavioral_flags"
  "set (fst (inspect_each ul now content ctx u ins)) \<subseteq> set u \<union> behavioral_flags"
proof (induction ul now content ctx i and ul now content ctx u ins rule: wi_Inspect_inspect_each.induct)
  case (1 ul now content ctx d)
  then show ?case using sr_flags [of ul now content ctx d] by (auto split: prod.splits)
next
  case (2 ul now content ctx d)
  then show ?case using sz_flags [of now content ctx d] by (auto split: prod.splits)
qed (fastforce split: prod.splits)+

interpretation sr: write_inspector "sr_Inspect ul" for ul
  using sr_flags
  by unfold_locales (fastforce simp: behavioral_flags_def selfReinforcementFlag_def sizeAnomalyFlag_def)

interpretation sz: write_inspector sz_Inspect
  using sz_flags
  by unfold_locales (fastforce simp: behavioral_flags_def selfReinforcementFlag_def sizeAnomalyFlag_def)

interpretation wi: write_inspector "wi_Inspect ul" for ul
  using wi_flags(1)
  by unfold_locales (fastforce simp: behavioral_flags_def selfReinforcementFlag_def sizeAnomalyFlag_def)

section \<open>The combinator\<close>

lemma union_flags_append: "union_flags u (xs @ ys) = union_flags (union_flags u xs) ys"
  by (induction u xs rule: union_flags.induct) auto

lemma inspect_each_eq:
  "inspect_each ul now content ctx u ins =
     (let rs = map (wi_Inspect ul now content ctx) ins
      in (union_flags u (concat (map fst rs)), map snd rs))"
  by (induction ins arbitrary: u) (auto simp: Let_def union_flags_append split: prod.splits)

lemma union_flags_first:
  "distinct u \<Longrightarrow> union_flags u fs = u @ rev (remdups (rev (filter (\<lambda>f. f \<notin> set u) fs)))"
proof (induction u fs rule: union_flags.induct)
  case (2 u f fs)
  show ?case
  proof (cases "f \<in> set u")
    case True
    with 2 show ?thesis by simp
  next
    case False
    have "remdups (rev (filter (\<lambda>g. g \<notin> set u) fs) @ [f]) =
        remdups (rev (filter (\<lambda>g. g \<notin> set (u @ [f])) fs)) @ [f]"
      by (induction fs rule: rev_induct) (use False in auto)
    with 2 False show ?thesis by simp
  qed
qed simp

text \<open>Combining is transparent. Every wrapped inspector sees the write exactly once with its own
  state, as it would alone, and the combined flags are the concatenation of their flags with
  every repetition after the first dropped; nil inspectors vanish at construction.\<close>

theorem combined_inspector_union:
  "wi_Inspect ul now content ctx (CombineInspectors opts) =
     (let rs = map (wi_Inspect ul now content ctx) (List.map_filter (\<lambda>i. i) opts)
      in (rev (remdups (rev (concat (map fst rs)))), Combined (map snd rs)))"
  by (simp add: inspect_each_eq Let_def union_flags_first)

section \<open>The similarity threshold\<close>

lemma f_of_int_exact: "\<bar>n\<bar> < 2 ^ 53 \<Longrightarrow> f_of_int n = of_int n"
  by (simp add: f_of_int_def fl_int)

lemma ratio_threshold:
  assumes "0 \<le> i" "i \<le> n" "0 < n" "n < 2 ^ 48"
  shows "fl (85 / 100) \<le> fl (of_int i / of_int n) \<longleftrightarrow> 17 * n \<le> 20 * i"
proof
  assume "17 * n \<le> 20 * i"
  then have "(17::rat) * of_int n \<le> 20 * of_int i"
    by (metis of_int_le_iff of_int_mult of_int_numeral)
  then have "(85::rat) / 100 \<le> of_int i / of_int n" using assms(3) by (simp add: field_simps)
  then show "fl (85 / 100) \<le> fl (of_int i / of_int n)" by (rule fl_mono)
next
  assume le: "fl (85 / 100) \<le> fl (of_int i / of_int n)"
  show "17 * n \<le> 20 * i"
  proof (rule ccontr)
    assume "\<not> 17 * n \<le> 20 * i"
    then have "20 * i + 1 \<le> 17 * n" by linarith
    then have "of_int (20 * i + 1) \<le> (of_int (17 * n) :: rat)" by (simp only: of_int_le_iff)
    then have gap: "(20::rat) * of_int i + 1 \<le> 17 * of_int n" by simp
    let ?x = "of_int i / of_int n :: rat"
    have n: "(0::rat) < of_int n" using assms(3) by simp
    have "(of_int n :: rat) < of_int (2 ^ 48)" using assms(4) by (simp only: of_int_less_iff)
    then have "(1::rat) / 9007199254740992 < 1 / (20 * of_int n)" using n by (simp add: field_simps)
    moreover have "?x \<le> 17 / 20 - 1 / (20 * of_int n)" using gap n by (simp add: field_simps)
    ultimately have x: "?x < 17 / 20 - 1 / 9007199254740992" by linarith
    note t = fl_near(2) [of "17 / 20"]
    show False
    proof (cases "1 / 2 \<le> ?x")
      case True
      have "?x < 1" by (rule less_trans [OF x]) simp
      from fl_near(1) [OF True this] x t le show False by simp
    next
      case False
      then have "fl ?x \<le> fl (1 / 2)" by (intro fl_mono) simp
      with fl_near(1) [of "1 / 2"] t le show False by simp
    qed
  qed
qed

lemma length_filter_mem: "distinct xs \<Longrightarrow> length (filter (\<lambda>t. t \<in> set ys) xs) = card (set xs \<inter> set ys)"
  by (metis Int_def distinct_card distinct_filter set_filter mem_Collect_eq)

text \<open>The floating-point comparison at the default threshold is exact. For token sets of fewer
  than \<open>2 ^ 48\<close> tokens two writes count as near-duplicates if and only if both sets are non-empty
  and 20 times their common tokens reach 17 times the smaller set: neither the rounded quotient
  nor the rounded constant 0.85 ever flips a comparison.\<close>

theorem default_similarity_exact:
  assumes "distinct a" and "distinct b" and "min (length a) (length b) < 2 ^ 48"
  shows "defaultSimilarityThreshold \<le> overlapCoefficient a b \<longleftrightarrow>
           a \<noteq> [] \<and> b \<noteq> [] \<and> 17 * min (length a) (length b) \<le> 20 * card (set a \<inter> set b)"
proof (cases "a = [] \<or> b = []")
  case True
  have "0 < fl (85 / 100)" using fl_near(2) [of "17 / 20"] by simp
  with True show ?thesis by (auto simp: overlapCoefficient_def defaultSimilarityThreshold_def)
next
  case False
  define i where "i = card (set a \<inter> set b)"
  define n where "n = min (length a) (length b)"
  have le: "i \<le> n"
    unfolding i_def n_def using card_mono [of "set a" "set a \<inter> set b"] card_mono [of "set b" "set a \<inter> set b"]
      distinct_card [OF assms(1)] distinct_card [OF assms(2)] by simp
  have n: "0 < n" "n < 2 ^ 48" using False assms(3) by (auto simp: n_def)
  then have bounds: "int n < 2 ^ 48" by (metis of_nat_less_iff of_nat_numeral of_nat_power)
  have "overlapCoefficient a b = fdiv (f_of_int (int i)) (f_of_int (int n))"
    using False length_filter_mem [OF assms(1), of b] length_filter_mem [OF assms(2), of a]
    by (auto simp: overlapCoefficient_def i_def n_def Int_commute min_def)
  also have "\<dots> = fl (of_int (int i) / of_int (int n))"
    using bounds le by (simp add: fdiv_def f_of_int_exact)
  finally have "defaultSimilarityThreshold \<le> overlapCoefficient a b \<longleftrightarrow> 17 * int n \<le> 20 * int i"
    using ratio_threshold [of "int i" "int n"] le n bounds by (simp add: defaultSimilarityThreshold_def)
  also have "\<dots> \<longleftrightarrow> 17 * n \<le> 20 * i" by linarith
  finally show ?thesis using False by (simp add: i_def n_def)
qed

theorem default_similarity_exact_witness:
  "defaultSimilarityThreshold \<le> overlapCoefficient [''a'', ''b''] [''b'', ''a'', ''c''] \<and>
   \<not> defaultSimilarityThreshold \<le> overlapCoefficient [''a'', ''b''] [''b'', ''c'']"
  using default_similarity_exact [of "[''a'', ''b'']" "[''b'', ''a'', ''c'']"]
    default_similarity_exact [of "[''a'', ''b'']" "[''b'', ''c'']"]
  by (simp add: card_insert_if)

section \<open>The self-reinforcement detector against its log\<close>

text \<open>The specification knows no pruning and no eviction: it looks at the whole log of writes so
  far, takes the records of the subject, the last M of them, and those inside the window.\<close>

type_synonym logged_write = "int \<times> string \<times> WriteContext"

definition last_n :: "nat \<Rightarrow> 'a list \<Rightarrow> 'a list" where
  "last_n m xs = drop (length xs - m) xs"

definition sr_relevant :: "string \<Rightarrow> logged_write \<Rightarrow> bool" where
  "sr_relevant key w = (case w of (now, c, ctx) \<Rightarrow>
     wc_Key ctx = key \<and> treatedAsAgentAuthored (wc_SourceClass ctx))"

definition sr_record :: "(rune \<Rightarrow> rune) \<Rightarrow> logged_write \<Rightarrow> writeRecord" where
  "sr_record ul w = (case w of (now, c, ctx) \<Rightarrow> \<lparr>wr_tokens = tokenSet ul c, wr_at = now\<rparr>)"

definition sr_records :: "(rune \<Rightarrow> rune) \<Rightarrow> string \<Rightarrow> logged_write list \<Rightarrow> writeRecord list" where
  "sr_records ul key ws = map (sr_record ul) (filter (sr_relevant key) ws)"

definition sr_run ::
  "(rune \<Rightarrow> rune) \<Rightarrow> SelfReinforcementDetector \<Rightarrow> logged_write list \<Rightarrow> SelfReinforcementDetector" where
  "sr_run ul d ws = foldl (\<lambda>d (now, c, ctx). snd (sr_Inspect ul now c ctx d)) d ws"

definition in_window :: "int \<Rightarrow> int \<Rightarrow> writeRecord \<Rightarrow> bool" where
  "in_window cooldown now r = (now - wr_at r < cooldown)"

lemma in_window_fun: "(\<lambda>r. now - wr_at r < c) = in_window c now"
  by (simp add: fun_eq_iff in_window_def)

lemma last_n_append: "last_n m (xs @ ys) = last_n (m - length ys) xs @ last_n m ys"
  by (cases "length ys \<le> m") (simp_all add: last_n_def)

lemma last_n_last_n: "k \<le> m \<Longrightarrow> last_n k (last_n m xs) = last_n k xs"
  by (cases "length xs \<le> m") (simp_all add: last_n_def)

lemma last_n_Nil [simp]: "last_n m [] = []"
  by (simp add: last_n_def)

lemma length_last_n [simp]: "length (last_n m xs) = min (length xs) m"
  by (simp add: last_n_def)

lemma set_last_n: "set (last_n m xs) \<subseteq> set xs"
  unfolding last_n_def by (rule set_drop_subset)

text \<open>In a list ordered by time the records inside the window are a suffix.\<close>

lemma window_suffix:
  "sorted (map wr_at rs) \<Longrightarrow> \<exists>old. rs = old @ filter (in_window c now) rs \<and> (\<forall>r \<in> set old. \<not> in_window c now r)"
proof (induction rs)
  case (Cons r rs)
  show ?case
  proof (cases "in_window c now r")
    case True
    with Cons.prems have "\<forall>q \<in> set rs. in_window c now q" by (auto simp: in_window_def)
    then have "filter (in_window c now) rs = rs" by simp
    with True show ?thesis by (intro exI [of _ "[]"]) simp
  next
    case False
    from Cons obtain old where "rs = old @ filter (in_window c now) rs" "\<forall>r \<in> set old. \<not> in_window c now r"
      by auto
    with False show ?thesis by (intro exI [of _ "r # old"]) simp
  qed
qed simp

lemma sr_Inspect_history:
  "sr_history (snd (sr_Inspect ul now c ctx d)) key =
     (if sr_relevant key (now, c, ctx)
      then last_n (nat (sr_maxHistoryPerSubject d))
             (filter (in_window (sr_cooldown d) now) (sr_history d key) @ [sr_record ul (now, c, ctx)])
      else sr_history d key)"
  if "1 \<le> sr_maxHistoryPerSubject d"
  using that
  by (auto simp: sr_Inspect_def sr_relevant_def pruneLocked_def Let_def last_n_def in_window_fun sr_record_def)

lemma sr_Inspect_params:
  "sr_similarityThreshold (snd (sr_Inspect ul now c ctx d)) = sr_similarityThreshold d"
  "sr_cooldown (snd (sr_Inspect ul now c ctx d)) = sr_cooldown d"
  "sr_maxSelfWrites (snd (sr_Inspect ul now c ctx d)) = sr_maxSelfWrites d"
  "sr_maxHistoryPerSubject (snd (sr_Inspect ul now c ctx d)) = sr_maxHistoryPerSubject d"
  by (simp_all add: sr_Inspect_def pruneLocked_def Let_def)

lemma sr_run_snoc: "sr_run ul d (ws @ [(now, c, ctx)]) = snd (sr_Inspect ul now c ctx (sr_run ul d ws))"
  by (simp add: sr_run_def)

lemma sr_run_params:
  "sr_similarityThreshold (sr_run ul d ws) = sr_similarityThreshold d \<and>
   sr_cooldown (sr_run ul d ws) = sr_cooldown d \<and>
   sr_maxSelfWrites (sr_run ul d ws) = sr_maxSelfWrites d \<and>
   sr_maxHistoryPerSubject (sr_run ul d ws) = sr_maxHistoryPerSubject d"
proof (induction ws rule: rev_induct)
  case (snoc w ws)
  then show ?case by (cases w) (simp add: sr_run_snoc sr_Inspect_params)
qed (simp add: sr_run_def)

text \<open>What the history retains of the last M records of a subject: all but some that have left the
  window for good.\<close>

definition retains :: "nat \<Rightarrow> int \<Rightarrow> int \<Rightarrow> writeRecord list \<Rightarrow> writeRecord list \<Rightarrow> bool" where
  "retains m cooldown now rs h \<longleftrightarrow>
     (\<exists>old. last_n m rs = old @ h \<and> (\<forall>r \<in> set old. \<not> in_window cooldown now r))"

lemma retains_later: "retains m c now rs h \<Longrightarrow> now \<le> now' \<Longrightarrow> retains m c now' rs h"
  unfolding retains_def in_window_def by force

lemma retains_window:
  "retains m c now rs h \<Longrightarrow> filter (in_window c now) h = filter (in_window c now) (last_n m rs)"
  unfolding retains_def by auto

lemma retains_step:
  assumes "retains m c now rs h" and "sorted (map wr_at rs)" and "1 \<le> m"
  shows "retains m c now (rs @ [r]) (last_n m (filter (in_window c now) h @ [r]))"
proof -
  from assms(1) obtain old where old: "last_n m rs = old @ h" "\<forall>r \<in> set old. \<not> in_window c now r"
    by (auto simp: retains_def)
  have "sorted (map wr_at (last_n m rs))" using assms(2) 
    by (simp add: last_n_def sorted_wrt_drop flip: drop_map)
  with old(1) have "sorted (map wr_at h)" by (simp add: sorted_append)
  from window_suffix [OF this, of c now] obtain gone where
    gone: "h = gone @ filter (in_window c now) h" "\<forall>r \<in> set gone. \<not> in_window c now r" by blast
  let ?k = "filter (in_window c now) h @ [r]"
  have "last_n m (rs @ [r]) = last_n m (last_n m rs @ [r])"
    using assms(3) by (simp add: last_n_append last_n_last_n)
  also have "\<dots> = last_n m ((old @ gone) @ ?k)"
    unfolding old(1) by (subst gone(1)) simp
  also have "\<dots> = last_n (m - length ?k) (old @ gone) @ last_n m ?k" by (rule last_n_append)
  finally show ?thesis
    unfolding retains_def using old(2) gone(2) set_last_n [of "m - length ?k" "old @ gone"]
    by (intro exI [of _ "last_n (m - length ?k) (old @ gone)"]) auto
qed

lemma sr_run_retains:
  assumes "sr_history d = (\<lambda>_. [])" and "1 \<le> sr_maxHistoryPerSubject d"
  shows "sorted (map fst ws) \<Longrightarrow> \<forall>w \<in> set ws. fst w \<le> now \<Longrightarrow>
     retains (nat (sr_maxHistoryPerSubject d)) (sr_cooldown d) now (sr_records ul key ws) (sr_history (sr_run ul d ws) key)"
proof (induction ws arbitrary: now rule: rev_induct)
  case Nil
  then show ?case by (simp add: retains_def sr_records_def sr_run_def assms(1) last_n_def)
next
  case (snoc w ws)
  obtain t c ctx where w: "w = (t, c, ctx)" by (cases w) auto
  let ?m = "nat (sr_maxHistoryPerSubject d)" and ?h = "sr_history (sr_run ul d ws) key"
  have sorted: "sorted (map fst ws)" and before: "\<forall>w \<in> set ws. fst w \<le> t"
    using snoc.prems(1) by (auto simp: w sorted_append)
  have t: "t \<le> now" using snoc.prems(2) by (simp add: w)
  from snoc.IH [OF sorted before]
  have IH: "retains ?m (sr_cooldown d) t (sr_records ul key ws) ?h" .
  have cap: "1 \<le> sr_maxHistoryPerSubject (sr_run ul d ws)" using assms(2) sr_run_params by simp
  show ?case
  proof (cases "sr_relevant key w")
    case True
    have "sorted (map wr_at (sr_records ul key ws))"
    proof -
      have "map wr_at (sr_records ul key ws) = map fst (filter (sr_relevant key) ws)"
        by (auto simp: sr_records_def sr_record_def)
      then show ?thesis using sorted by (simp add: sorted_filter)
    qed
    from retains_step [OF IH this] assms(2)
    have "retains ?m (sr_cooldown d) t (sr_records ul key ws @ [sr_record ul w])
        (last_n ?m (filter (in_window (sr_cooldown d) t) ?h @ [sr_record ul w]))" by simp
    with True t show ?thesis
      using sr_Inspect_history [OF cap, of ul t c ctx key] sr_run_params [of ul d ws]
      by (auto simp: w sr_run_snoc sr_records_def intro: retains_later)
  next
    case False
    with IH t show ?thesis
      using sr_Inspect_history [OF cap, of ul t c ctx key]
      by (auto simp: w sr_run_snoc sr_records_def intro: retains_later)
  qed
qed

text \<open>C29: Pruning and eviction are invisible. On a clock that does not run backwards, the detector's
  answer after any log of writes is the specification's: the flag is raised exactly when the
  write is not human-authored and at least maxSelfWrites of the subject's last M agent-authored
  writes lie inside the cooldown window and are near-duplicates; and no subject's history ever
  exceeds M records.\<close>

theorem self_reinforcement_refines_log:
  assumes "sr_history d = (\<lambda>_. [])" and "1 \<le> sr_maxHistoryPerSubject d"
    and "sorted (map fst ws)" and "\<forall>w \<in> set ws. fst w \<le> now"
  shows "fst (sr_Inspect ul now c ctx (sr_run ul d ws)) =
      (if treatedAsAgentAuthored (wc_SourceClass ctx) \<and>
          sr_maxSelfWrites d \<le> count_similar (sr_similarityThreshold d) (tokenSet ul c)
            (filter (in_window (sr_cooldown d) now)
              (last_n (nat (sr_maxHistoryPerSubject d)) (sr_records ul (wc_Key ctx) ws)))
       then [selfReinforcementFlag] else []) \<and>
    historySize key (sr_run ul d ws) \<le> sr_maxHistoryPerSubject d"
proof -
  note ret = sr_run_retains [OF assms(1-4), of ul]
  from retains_window [OF ret]
  have win: "filter (in_window (sr_cooldown d) now) (sr_history (sr_run ul d ws) (wc_Key ctx)) =
      filter (in_window (sr_cooldown d) now) (last_n (nat (sr_maxHistoryPerSubject d)) (sr_records ul (wc_Key ctx) ws))" .
  have "fst (sr_Inspect ul now c ctx (sr_run ul d ws)) =
      (if treatedAsAgentAuthored (wc_SourceClass ctx) \<and>
          sr_maxSelfWrites d \<le> count_similar (sr_similarityThreshold d) (tokenSet ul c)
            (filter (in_window (sr_cooldown d) now) (sr_history (sr_run ul d ws) (wc_Key ctx)))
       then [selfReinforcementFlag] else [])"
    using sr_run_params [of ul d ws]
    by (auto simp: sr_Inspect_def pruneLocked_def Let_def in_window_fun)
  moreover have "length (sr_history (sr_run ul d ws) key) \<le> nat (sr_maxHistoryPerSubject d)"
    using ret [of key] unfolding retains_def by (metis length_append length_last_n le_add2 min.bounded_iff order_refl)
  ultimately show ?thesis using assms(2) by (simp add: win historySize_def)
qed

theorem self_reinforcement_refines_log_witness:
  "fst (sr_Inspect id 4 ''build ok'' \<lparr>wc_Key = ''k'', wc_SourceClass = []\<rparr>
     (sr_run id (NewSelfReinforcementDetector [])
        (map (\<lambda>t. (t, ''build ok'', \<lparr>wc_Key = ''k'', wc_SourceClass = []\<rparr>)) [1, 2, 3]))) =
   [selfReinforcementFlag]"
proof -
  let ?d = "NewSelfReinforcementDetector []"
  let ?ctx = "\<lparr>wc_Key = ''k'', wc_SourceClass = []\<rparr>"
  let ?ws = "map (\<lambda>t. (t, ''build ok'', ?ctx)) [1, 2, 3 :: int]"
  have d: "sr_history ?d = (\<lambda>_. [])" "1 \<le> sr_maxHistoryPerSubject ?d" "sr_maxSelfWrites ?d = 3"
    "sr_cooldown ?d = 300000000000" "sr_similarityThreshold ?d = defaultSimilarityThreshold"
    "sr_maxHistoryPerSubject ?d = 256"
    by (simp_all add: NewSelfReinforcementDetector_def defaultMaxHistoryPerSubject_def
        defaultMaxSelfWrites_def defaultCooldown_def)
  have toks: "tokenSet id ''build ok'' = [''build'', ''ok'']" by code_simp
  have agent: "treatedAsAgentAuthored (wc_SourceClass ?ctx)" by code_simp
  have near: "defaultSimilarityThreshold \<le> overlapCoefficient [''build'', ''ok''] [''build'', ''ok'']"
    using default_similarity_exact [of "[''build'', ''ok'']" "[''build'', ''ok'']"] by simp
  have "sorted (map fst ?ws)" "\<forall>w \<in> set ?ws. fst w \<le> (4 :: int)" by simp_all
  from conjunct1 [OF self_reinforcement_refines_log [OF d(1,2) this]]
  show ?thesis
    using near agent
    by (simp add: toks d sr_records_def sr_relevant_def sr_record_def last_n_def in_window_def count_similar_def)
qed

section \<open>The size detector against its log\<close>

definition sz_run :: "SizeAnomalyDetector \<Rightarrow> logged_write list \<Rightarrow> SizeAnomalyDetector" where
  "sz_run d ws = foldl (\<lambda>d (now, c, ctx). snd (sz_Inspect now c ctx d)) d ws"

definition sz_sizes :: "string \<Rightarrow> logged_write list \<Rightarrow> int list" where
  "sz_sizes key ws = map (\<lambda>(now, c, ctx). int (length c)) (filter (\<lambda>(now, c, ctx). wc_Key ctx = key) ws)"

lemma sz_Inspect_buffer:
  "1 \<le> sz_windowSize d \<Longrightarrow>
   sz_buffers (snd (sz_Inspect now c ctx d)) key =
     (if key = wc_Key ctx then last_n (nat (sz_windowSize d)) (sz_buffers d key @ [int (length c)])
      else sz_buffers d key)"
  by (auto simp: sz_Inspect_def Let_def last_n_def)

lemma sz_Inspect_params:
  "sz_windowSize (snd (sz_Inspect now c ctx d)) = sz_windowSize d"
  "sz_sigmaThreshold (snd (sz_Inspect now c ctx d)) = sz_sigmaThreshold d"
  "sz_minSamples (snd (sz_Inspect now c ctx d)) = sz_minSamples d"
  by (simp_all add: sz_Inspect_def Let_def)

lemma sz_run_snoc: "sz_run d (ws @ [(now, c, ctx)]) = snd (sz_Inspect now c ctx (sz_run d ws))"
  by (simp add: sz_run_def)

lemma sz_run_params:
  "sz_windowSize (sz_run d ws) = sz_windowSize d \<and> sz_sigmaThreshold (sz_run d ws) = sz_sigmaThreshold d \<and>
   sz_minSamples (sz_run d ws) = sz_minSamples d"
proof (induction ws rule: rev_induct)
  case (snoc w ws)
  then show ?case by (cases w) (simp add: sz_run_snoc sz_Inspect_params)
qed (simp add: sz_run_def)

lemma sz_run_buffer:
  assumes "sz_buffers d = (\<lambda>_. [])" and "1 \<le> sz_windowSize d"
  shows "sz_buffers (sz_run d ws) key = last_n (nat (sz_windowSize d)) (sz_sizes key ws)"
proof (induction ws rule: rev_induct)
  case Nil
  then show ?case by (simp add: sz_run_def sz_sizes_def assms(1) last_n_def)
next
  case (snoc w ws)
  obtain now c ctx where w: "w = (now, c, ctx)" by (cases w)
  have "1 \<le> sz_windowSize (sz_run d ws)" using assms(2) sz_run_params by simp
  from sz_Inspect_buffer [OF this, of now c ctx key] snoc sz_run_params [of d ws] assms(2)
  show ?case by (auto simp: w sz_run_snoc sz_sizes_def last_n_append last_n_last_n)
qed

lemma NewSizeAnomalyDetector_valid:
  "sz_buffers (NewSizeAnomalyDetector cfg) = (\<lambda>_. [])"
  "1 \<le> sz_windowSize (NewSizeAnomalyDetector cfg)"
  "1 \<le> sz_minSamples (NewSizeAnomalyDetector cfg)"
  "0 < sz_sigmaThreshold (NewSizeAnomalyDetector cfg)"
  by (simp_all add: NewSizeAnomalyDetector_def defaultSizeWindowSize_def defaultSizeMinSamples_def
      defaultSizeSigmaThreshold_def)

text \<open>C30: Compare then update. After any log of writes a key's buffer is exactly the sizes of its
  last WindowSize writes, whatever other keys wrote in between, and the flag of the next write is
  decided by those sizes alone, before its own size enters the buffer.\<close>

theorem size_detector_refines_log:
  "let d = NewSizeAnomalyDetector cfg;
       window = last_n (nat (sz_windowSize d)) (sz_sizes (wc_Key ctx) ws)
   in bufferFor (wc_Key ctx) (sz_run d ws) = window \<and>
      fst (sz_Inspect now c ctx (sz_run d ws)) =
        (if sz_minSamples d \<le> int (length window) \<and>
            fmul (sz_sigmaThreshold d) (snd (meanStddev window))
              < \<bar>fsub (f_of_int (int (length c))) (fst (meanStddev window))\<bar>
         then [sizeAnomalyFlag] else [])"
  using sz_run_buffer [OF NewSizeAnomalyDetector_valid(1,2), of cfg ws "wc_Key ctx"]
    sz_run_params [of "NewSizeAnomalyDetector cfg" ws]
  by (simp add: Let_def bufferFor_def sz_Inspect_def split: prod.splits)

text \<open>A configuration whose window is smaller than its minimum sample count switches the size
  detector off: the buffer can never hold enough samples, so no write is ever flagged. The
  constructor accepts such a configuration.\<close>

theorem size_detector_window_below_min:
  assumes "sc_WindowSize cfg < sc_MinSamples cfg" and "1 \<le> sc_WindowSize cfg"
  shows "fst (sz_Inspect now c ctx (sz_run (NewSizeAnomalyDetector cfg) ws)) = []"
proof -
  let ?d = "NewSizeAnomalyDetector cfg"
  have "sz_windowSize ?d = sc_WindowSize cfg" "sz_minSamples ?d = sc_MinSamples cfg"
    using assms by (simp_all add: NewSizeAnomalyDetector_def)
  moreover have "length (sz_buffers (sz_run ?d ws) (wc_Key ctx)) \<le> nat (sz_windowSize ?d)"
    using sz_run_buffer [OF NewSizeAnomalyDetector_valid(1,2), of cfg ws "wc_Key ctx"] by simp
  ultimately have "int (length (sz_buffers (sz_run ?d ws) (wc_Key ctx))) < sz_minSamples (sz_run ?d ws)"
    using assms sz_run_params [of ?d ws] by linarith
  then show ?thesis by (simp add: sz_Inspect_def Let_def)
qed

theorem size_detector_window_below_min_witness:
  "fst (sz_Inspect 0 (replicate 100000 CHR ''x'') \<lparr>wc_Key = ''k'', wc_SourceClass = []\<rparr>
     (sz_run (NewSizeAnomalyDetector \<lparr>sc_WindowSize = 4, sc_SigmaThreshold = 3, sc_MinSamples = 5\<rparr>) [])) = []"
  by (rule size_detector_window_below_min) simp_all

lemma fold_sum_exact:
  "\<forall>x \<in> set xs. 0 \<le> x \<Longrightarrow> 0 \<le> a \<Longrightarrow> a + sum_list xs < 2 ^ 53 \<Longrightarrow>
   foldl (\<lambda>acc x. fadd acc (f_of_int x)) (of_int a) xs = of_int (a + sum_list xs)"
proof (induction xs arbitrary: a)
  case (Cons x xs)
  then have x: "0 \<le> x" "0 \<le> sum_list xs" by (auto simp: sum_list_nonneg)
  with Cons.prems have "fadd (of_int a) (f_of_int x) = of_int (a + x)"
    by (simp add: f_of_int_exact fadd_def fl_int flip: of_int_add)
  with Cons.IH [of "a + x"] Cons.prems x show ?case by (simp add: add.assoc)
qed simp

lemma meanStddev_constant:
  assumes "n \<noteq> 0" and "0 \<le> x" and "int n * x < 2 ^ 53" and "n < 2 ^ 53"
  shows "meanStddev (replicate n x) = (of_int x, 0)"
proof -
  have n: "int n < 2 ^ 53" using assms(4) by (metis of_nat_less_iff of_nat_numeral of_nat_power)
  have "1 * x \<le> int n * x" using assms(1,2) by (intro mult_right_mono) auto
  with assms(3) have x: "x < 2 ^ 53" by simp
  have sum: "foldl (\<lambda>acc x. fadd acc (f_of_int x)) 0 (replicate n x) = of_int (int n * x)"
    using fold_sum_exact [of "replicate n x" 0] assms by (simp add: sum_list_replicate)
  have mean: "fdiv (of_int (int n * x)) (f_of_int (int n)) = of_int x"
    using n x assms(1,2) by (simp add: f_of_int_exact fdiv_def fl_int)
  have diff: "fsub (f_of_int x) (of_int x) = 0" using x assms(2) by (simp add: f_of_int_exact fsub_def)
  have sq: "foldl (\<lambda>acc y. fadd acc (fmul (fsub (f_of_int y) (of_int x)) (fsub (f_of_int y) (of_int x)))) 0
      (replicate n x) = 0"
    by (induction n) (simp_all add: diff fadd_def fmul_def)
  show ?thesis unfolding meanStddev_def Let_def length_replicate sum mean sq by (simp add: fdiv_def)
qed

text \<open>The zero-variance edge holds in floating point: once a key's window is full of equal sizes
  (at least MinSamples of them, fewer than \<open>2 ^ 53\<close> bytes in all), the next write is flagged
  exactly when its size differs, by one byte or by any amount, whatever the sigma threshold.\<close>

theorem size_detector_zero_variance:
  assumes "bufferFor (wc_Key ctx) d = replicate n x" and "n \<noteq> 0" and "sz_minSamples d \<le> int n"
    and "0 \<le> x" and "int n * x < 2 ^ 53" and "n < 2 ^ 53" and "length c < 2 ^ 53"
  shows "fst (sz_Inspect now c ctx d) = (if int (length c) = x then [] else [sizeAnomalyFlag])"
proof -
  have "1 * x \<le> int n * x" using assms(2,4) by (intro mult_right_mono) auto
  with assms(5) have x: "x < 2 ^ 53" by simp
  have len: "int (length c) < 2 ^ 53" using assms(7) by (metis of_nat_less_iff of_nat_numeral of_nat_power)
  have diff: "fsub (f_of_int (int (length c))) (of_int x) = of_int (int (length c) - x)"
  proof -
    have "\<bar>int (length c) - x\<bar> < 2 ^ 53" using x len assms(4) by linarith
    from fl_int [OF this] show ?thesis using len by (simp add: f_of_int_exact fsub_def)
  qed
  have buf: "sz_buffers d (wc_Key ctx) = replicate n x" using assms(1) by (simp add: bufferFor_def)
  have zero: "fmul (sz_sigmaThreshold d) 0 = 0" by (simp add: fmul_def)
  have "\<bar>of_int (int (length c) - x) :: rat\<bar> = of_int \<bar>int (length c) - x\<bar>" by simp
  then have "0 < \<bar>of_int (int (length c) - x) :: rat\<bar> \<longleftrightarrow> int (length c) \<noteq> x"
    by (simp del: of_int_diff)
  then show ?thesis
    using assms(3) meanStddev_constant [OF assms(2,4-6)]
    by (simp add: sz_Inspect_def Let_def buf zero diff del: of_int_diff)
qed

theorem size_detector_zero_variance_witness:
  "fst (sz_Inspect 0 ''eleven bytes'' \<lparr>wc_Key = ''k'', wc_SourceClass = []\<rparr>
     (sz_run (NewSizeAnomalyDetector \<lparr>sc_WindowSize = 0, sc_SigmaThreshold = 0, sc_MinSamples = 0\<rparr>)
        (replicate 5 (0, ''twelve'', \<lparr>wc_Key = ''k'', wc_SourceClass = []\<rparr>)))) = [sizeAnomalyFlag]"
proof -
  let ?d = "sz_run (NewSizeAnomalyDetector \<lparr>sc_WindowSize = 0, sc_SigmaThreshold = 0, sc_MinSamples = 0\<rparr>)
        (replicate 5 (0, ''twelve'', \<lparr>wc_Key = ''k'', wc_SourceClass = []\<rparr>))"
  let ?ctx = "\<lparr>wc_Key = ''k'', wc_SourceClass = []\<rparr>"
  have buf: "bufferFor (wc_Key ?ctx) ?d = replicate 5 6"
    by (simp add: bufferFor_def sz_run_def sz_Inspect_def NewSizeAnomalyDetector_def Let_def
        defaultSizeWindowSize_def numeral_eq_Suc)
  have min: "sz_minSamples ?d \<le> int 5"
    using sz_run_params by (simp add: NewSizeAnomalyDetector_def defaultSizeMinSamples_def)
  from size_detector_zero_variance [OF buf _ min, of "''eleven bytes''" 0] show ?thesis by simp
qed

end
