(* ===== verification/Residue.thy ===== *)
theory Residue
  imports Prelude Regexp Float64 Store Sha256 "HOL-Library.Word"
begin

text \<open>
  Post-deletion residue detection (\<open>residue.go\<close>): normalization (number words in 64-bit
  arithmetic, thousands separators, k/m/b magnitudes, punctuation), the four matching tiers, and
  the scan over every named index in its deterministic order. What depends on Unicode tables or
  on the platform is the record \<open>residue_env\<close>.
\<close>

section \<open>Environment, constants, patterns\<close>

text \<open>\<open>unicode.ToLower\<close>, \<open>unicode.IsPrint\<close> beyond ASCII, and the value of \<open>int64(f)\<close> for a
  positive \<open>f\<close> out of range, which Go leaves to the implementation.\<close>

record residue_env =
  re_ToLower :: "rune \<Rightarrow> rune"
  re_IsPrint :: "rune \<Rightarrow> bool"
  re_OutOfRange :: int

definition tokenOverlapThreshold :: rat where "tokenOverlapThreshold = fl (7 / 10)"
definition minDistinctiveTokens :: nat where "minDistinctiveTokens = 3"
definition phraseMinTokens :: nat where "phraseMinTokens = 3"
definition strongTokenMinLen :: nat where "strongTokenMinLen = 8"

text \<open>\<open>[^\w$%.]+\<close>, \<open>\s+\<close>, \<open>\$?(\d+(?:\.\d+)?)\s*([kmb])\b\<close>, \<open>\d{1,3}(?:,\d{3})+\<close>.\<close>

definition punctFold :: re where
  "punctFold = re_plus (Cls True (re_word @ singles ''$%.''))"

definition wsFold :: re where
  "wsFold = re_plus (cls re_space)"

definition currencyKShort :: re where
  "currencyKShort =
     re_seq [re_opt (cls (singles ''$'')),
             Grp 1 (Cat (re_plus (cls re_digit))
                      (re_opt (Cat (cls (singles ''.'')) (re_plus (cls re_digit))))),
             Star (cls re_space), Grp 2 (cls (singles ''kmb'')), WordB]"

definition numWithCommas :: re where
  "numWithCommas =
     Cat (Rep 1 3 (cls re_digit)) (re_plus (Cat (cls (singles '','')) (Rep 3 3 (cls re_digit))))"

section \<open>Number words\<close>

definition numberWordUnits :: "(string \<times> 64 word) list" where
  "numberWordUnits =
     [(''zero'', 0), (''one'', 1), (''two'', 2), (''three'', 3), (''four'', 4), (''five'', 5),
      (''six'', 6), (''seven'', 7), (''eight'', 8), (''nine'', 9), (''ten'', 10),
      (''eleven'', 11), (''twelve'', 12), (''thirteen'', 13), (''fourteen'', 14), (''fifteen'', 15),
      (''sixteen'', 16), (''seventeen'', 17), (''eighteen'', 18), (''nineteen'', 19),
      (''twenty'', 20), (''thirty'', 30), (''forty'', 40), (''fifty'', 50), (''sixty'', 60),
      (''seventy'', 70), (''eighty'', 80), (''ninety'', 90)]"

definition numberWordScales :: "(string \<times> 64 word) list" where
  "numberWordScales =
     [(''hundred'', 100), (''thousand'', 1000), (''million'', 1000000), (''billion'', 1000000000)]"

text \<open>The inner loop: the run from here on, in \<open>int64\<close> arithmetic. The result is the value of the
  run and the tokens after it.\<close>

fun number_run :: "string list \<Rightarrow> 64 word \<Rightarrow> 64 word \<Rightarrow> bool \<Rightarrow> 64 word \<times> string list" where
  "number_run [] current tot seen = (tot + current, [])"
| "number_run (t # ts) current tot seen =
     (let tw = trim_set ''.,$%'' t in
      case map_of numberWordUnits tw of
        Some v \<Rightarrow> number_run ts (current + v) tot True
      | None \<Rightarrow>
          (case map_of numberWordScales tw of
             Some sc \<Rightarrow>
               (let cur = (if current = 0 then 1 else current) in
                if sc = 100 then number_run ts (cur * 100) tot True
                else number_run ts 0 (tot + cur * sc) True)
           | None \<Rightarrow>
               if tw = ''and'' \<and> seen then number_run ts current tot seen
               else (tot + current, t # ts)))"

definition is_number_word :: "string \<Rightarrow> bool" where
  "is_number_word t =
     (let w = trim_set ''.,$%'' t in
      map_of numberWordUnits w \<noteq> None \<or> map_of numberWordScales w \<noteq> None)"

lemma number_run_length: "length (snd (number_run ts c t seen)) \<le> length ts"
  by (induction ts arbitrary: c t seen) (simp_all add: Let_def le_SucI split: option.split)

declare number_run.simps [simp del]

lemma number_run_word:
  "is_number_word t \<Longrightarrow> \<exists>c' tot'. number_run (t # ts) c tot seen = number_run ts c' tot' True"
proof -
  assume "is_number_word t"
  then consider v where "map_of numberWordUnits (trim_set ''.,$%'' t) = Some v"
    | sc where "map_of numberWordUnits (trim_set ''.,$%'' t) = None"
        "map_of numberWordScales (trim_set ''.,$%'' t) = Some sc"
    by (auto simp: is_number_word_def Let_def)
  then show ?thesis by cases (auto simp: number_run.simps(2) Let_def)
qed

lemma number_run_shorter:
  assumes "is_number_word t"
  shows "length (snd (number_run (t # ts) c tot seen)) < length (t # ts)"
proof -
  from number_run_word [OF assms] obtain c' tot' where
    "number_run (t # ts) c tot seen = number_run ts c' tot' True" by blast
  with number_run_length [of ts c' tot' True] show ?thesis by simp
qed

lemma number_run_shorter_sym:
  "(v, rest) = number_run (t # ts) c tot seen \<Longrightarrow> is_number_word t \<Longrightarrow> length rest < Suc (length ts)"
  using number_run_shorter [of t ts c tot seen] by (cases "number_run (t # ts) c tot seen") simp

function canon_tokens :: "string list \<Rightarrow> string list" where
  "canon_tokens [] = []"
| "canon_tokens (t # ts) =
     (if is_number_word t
      then (let (v, rest) = number_run (t # ts) 0 0 False in int_dec (sint v) # canon_tokens rest)
      else t # canon_tokens ts)"
  by pat_completeness auto
termination
  by (relation "measure length") (auto dest: number_run_shorter_sym)

definition canonicalizeNumberWords :: "string \<Rightarrow> string" where
  "canonicalizeNumberWords s = join '' '' (canon_tokens (Fields s))"

section \<open>Normalization\<close>

text \<open>\<open>strconv.ParseFloat\<close> on \<open>\d+(?:\.\d+)?\<close>, correctly rounded. (A value past the float64 range
  is larger than any int64 here and \<open>+Inf\<close> in Go; the conversion below treats both alike.)\<close>

definition digits_value :: "string \<Rightarrow> int" where
  "digits_value ds = foldl (\<lambda>n c. 10 * n + (byte_val c - 48)) 0 ds"

definition parse_decimal :: "string \<Rightarrow> rat" where
  "parse_decimal s =
     (let ip = takeWhile (\<lambda>c. c \<noteq> CHR ''.'') s; fp = drop 1 (dropWhile (\<lambda>c. c \<noteq> CHR ''.'') s)
      in fl (of_int (digits_value (ip @ fp)) / 10 ^ length fp))"

definition int64_of_float :: "residue_env \<Rightarrow> rat \<Rightarrow> int" where
  "int64_of_float env v = (if v < 2 ^ 63 then \<lfloor>v\<rfloor> else re_OutOfRange env)"

definition expand_magnitude :: "residue_env \<Rightarrow> string \<Rightarrow> string" where
  "expand_magnitude env m =
     (let val = parse_decimal (submatch currencyKShort 1 m);
          unit = submatch currencyKShort 2 m;
          val' = (if unit = ''k'' then fmul val 1000
                  else if unit = ''m'' then fmul val 1000000
                  else if unit = ''b'' then fmul val 1000000000
                  else val);
          prefix = (if has_prefix m ''$'' then ''$'' else [])
      in prefix @ int_dec (int64_of_float env val'))"

definition normalizeForResidue :: "residue_env \<Rightarrow> string \<Rightarrow> string" where
  "normalizeForResidue env s =
     (let s1 = to_lower (re_ToLower env) s;
          s2 = canonicalizeNumberWords s1;
          s3 = replace_all_func numWithCommas (filter (\<lambda>c. c \<noteq> CHR '','')) s2;
          s4 = replace_all_func currencyKShort (expand_magnitude env) s3;
          s5 = replace_all punctFold '' '' s4;
          s6 = replace_all wsFold '' '' s5
      in trim_space s6)"

section \<open>Tokens\<close>

definition stopWords :: "string list" where
  "stopWords =
     [''the'', ''and'', ''for'', ''with'', ''that'', ''this'', ''are'', ''was'', ''has'', ''have'',
      ''from'', ''you'', ''your'', ''his'', ''her'', ''our'', ''their'', ''but'', ''not'', ''all'',
      ''any'', ''can'', ''may'', ''will'']"

definition is_digit :: "char \<Rightarrow> bool" where
  "is_digit c = (CHR ''0'' \<le> c \<and> c \<le> CHR ''9'')"

text \<open>\<open>strconv.Atoi\<close> succeeds: used on strings of at most two bytes, where no value is out of
  range.\<close>

definition atoi_ok :: "string \<Rightarrow> bool" where
  "atoi_ok s =
     (let ds = (case s of c # cs \<Rightarrow> if c = CHR ''-'' \<or> c = CHR ''+'' then cs else s | [] \<Rightarrow> [])
      in ds \<noteq> [] \<and> list_all is_digit ds)"

definition distinctiveTokens :: "residue_env \<Rightarrow> string \<Rightarrow> string list" where
  "distinctiveTokens env text =
     (let raw = Fields (to_lower (re_ToLower env) (replace_all punctFold '' '' text));
          trimmed = map (trim_set ''.$%'') raw
      in filter (\<lambda>t. (3 \<le> length t \<or> atoi_ok t) \<and> t \<notin> set stopWords) trimmed)"

definition isStrongToken :: "string \<Rightarrow> bool" where
  "isStrongToken tok = (strongTokenMinLen \<le> length tok \<or> list_ex is_digit tok)"

definition countDistinctive :: "string list \<Rightarrow> nat" where
  "countDistinctive window =
     length (filter (\<lambda>w. w \<notin> set stopWords \<and> (3 \<le> length w \<or> atoi_ok w)) (map (trim_set ''.$%'') window))"

section \<open>The tiers\<close>

definition exactFragmentMatch :: "residue_env \<Rightarrow> string \<Rightarrow> string \<Rightarrow> string" where
  "exactFragmentMatch env deleted survivor =
     (if str_contains survivor deleted then deleted
      else foldl (\<lambda>best tok. if isStrongToken tok \<and> str_contains survivor tok \<and> length best < length tok
                             then tok else best) [] (distinctiveTokens env deleted))"

definition normalizedFragmentMatch :: "residue_env \<Rightarrow> string \<Rightarrow> string \<Rightarrow> string" where
  "normalizedFragmentMatch env normDeleted survivor =
     (let normSurvivor = normalizeForResidue env survivor in
      if normDeleted \<noteq> [] \<and> str_contains normSurvivor normDeleted then normDeleted
      else (case List.find (\<lambda>frag. isStrongToken frag \<and> str_contains normSurvivor frag)
                   (distinctiveTokens env normDeleted) of
              Some frag \<Rightarrow> frag | None \<Rightarrow> []))"

text \<open>The windows in the order of the two loops: sizes downwards to the minimum, starts upwards.\<close>

definition phrase_windows :: "string list \<Rightarrow> string list list" where
  "phrase_windows words =
     concat (map (\<lambda>size. map (\<lambda>start. take size (drop start words)) [0..<Suc (length words - size)])
       (rev [phraseMinTokens..<Suc (length words)]))"

definition phraseMatch :: "residue_env \<Rightarrow> string \<Rightarrow> string \<Rightarrow> string" where
  "phraseMatch env normDeleted survivor =
     (let words = Fields normDeleted in
      if length words < phraseMinTokens then []
      else let normSurvivor = normalizeForResidue env survivor in
        case List.find (\<lambda>w. phraseMinTokens \<le> countDistinctive w \<and> str_contains normSurvivor (join '' '' w))
               (phrase_windows words) of
          Some w \<Rightarrow> join '' '' w | None \<Rightarrow> [])"

definition tokenOverlapMatch :: "residue_env \<Rightarrow> string list \<Rightarrow> string \<Rightarrow> rat \<times> bool" where
  "tokenOverlapMatch env delTokens survivor =
     (if length delTokens < minDistinctiveTokens then (0, False)
      else
        let survSet = map (normalizeForResidue env) (distinctiveTokens env survivor);
            hits = length (filter (\<lambda>t. normalizeForResidue env t \<in> set survSet) delTokens);
            ratio = fdiv (f_of_int (int hits)) (f_of_int (int (length delTokens)))
        in (ratio, tokenOverlapThreshold \<le> ratio))"

text \<open>\<open>%.0f\<close> of a float64: its exact value rounded to an integer, ties to even.\<close>

definition format_float0 :: "rat \<Rightarrow> string" where
  "format_float0 x = int_dec (rne x)"

definition matchSurvivor ::
  "residue_env \<Rightarrow> string \<Rightarrow> string \<Rightarrow> string list \<Rightarrow> string \<Rightarrow> string \<times> string" where
  "matchSurvivor env deleted normDeleted delTokens survivor =
     (let f1 = exactFragmentMatch env deleted survivor in
      if f1 \<noteq> [] then (''verbatim'', f1)
      else let f2 = normalizedFragmentMatch env normDeleted survivor in
        if f2 \<noteq> [] then (''normalized'', f2)
        else let f3 = phraseMatch env normDeleted survivor in
          if f3 \<noteq> [] then (''phrase'', f3)
          else let (ratio, ok) = tokenOverlapMatch env delTokens survivor in
            if ok then (''token-overlap '' @ format_float0 (fmul ratio 100) @ ''%'', survivor)
            else ([], []))"

section \<open>The summary\<close>

text \<open>\<open>%q\<close>, that is \<open>strconv.Quote\<close>.\<close>

definition hex_pad :: "nat \<Rightarrow> int \<Rightarrow> string" where
  "hex_pad n r = map (\<lambda>i. hex_digit (r div 16 ^ i mod 16)) (rev [0..<n])"

definition ellipsis :: string where
  "ellipsis = [CHR 0xE2, CHR 0x80, CHR 0xA6]"

definition quote_rune :: "residue_env \<Rightarrow> rune \<Rightarrow> string" where
  "quote_rune env r =
     (if r = 34 then [CHR 0x5C, CHR 0x22] else if r = 92 then [CHR 0x5C, CHR 0x5C]
      else if (if r < 128 then 32 \<le> r \<and> r < 127 else re_IsPrint env r) then encode_rune r
      else if r = 7 then [CHR 0x5C, CHR ''a''] else if r = 8 then [CHR 0x5C, CHR ''b'']
      else if r = 12 then [CHR 0x5C, CHR ''f''] else if r = 10 then [CHR 0x5C, CHR ''n'']
      else if r = 13 then [CHR 0x5C, CHR ''r''] else if r = 9 then [CHR 0x5C, CHR ''t'']
      else if r = 11 then [CHR 0x5C, CHR ''v'']
      else if r < 32 \<or> r = 127 then [CHR 0x5C, CHR ''x''] @ hex_pad 2 r
      else if r < 65536 then [CHR 0x5C, CHR ''u''] @ hex_pad 4 r
      else [CHR 0x5C, CHR ''U''] @ hex_pad 8 r)"

function quote_bytes :: "residue_env \<Rightarrow> string \<Rightarrow> string" where
  "quote_bytes env [] = []"
| "quote_bytes env (c # s) =
     (let (r, n) = decode_rune c s in
      (if r = rune_error \<and> n = 1 then [CHR 0x5C, CHR ''x''] @ hex_pad 2 (byte_val c) else quote_rune env r)
      @ quote_bytes env (drop (n - 1) s))"
  by pat_completeness auto
termination by (relation "measure (\<lambda>(env, s). length s)") auto

declare quote_bytes.simps(2) [simp del]

definition go_quote :: "residue_env \<Rightarrow> string \<Rightarrow> string" where
  "go_quote env s = [CHR 0x22] @ quote_bytes env s @ [CHR 0x22]"

definition residueSummaryInIndex :: "residue_env \<Rightarrow> string \<Rightarrow> string \<Rightarrow> string \<Rightarrow> string \<Rightarrow> string" where
  "residueSummaryInIndex env class indexName sref fragment =
     (let frag = (if 80 < length fragment then take 80 fragment @ ellipsis else fragment)
      in class @ '' residue of deleted content survives in index '' @ go_quote env indexName @
         '', entry '' @ sref @ '': '' @ go_quote env frag)"

definition survivorRef :: "residue_env \<Rightarrow> string \<Rightarrow> string" where
  "survivorRef env content =
     go_quote env (if 32 < length content then take 32 content @ ellipsis else content)"

section \<open>The order of the indexes\<close>

text \<open>Index names compare as the scan visits them: "primary" first, the others by their bytes.\<close>

datatype index_name = IndexName (the_name: string)

instantiation index_name :: linorder
begin

definition less_eq_index_name :: "index_name \<Rightarrow> index_name \<Rightarrow> bool" where
  "a \<le> b \<longleftrightarrow> the_name a = primaryIndexName \<or>
     (the_name b \<noteq> primaryIndexName \<and> the_name a \<le> the_name b)"

definition less_index_name :: "index_name \<Rightarrow> index_name \<Rightarrow> bool" where
  "a < b \<longleftrightarrow> the_name b \<noteq> primaryIndexName \<and>
     (the_name a = primaryIndexName \<or> the_name a < the_name b)"

instance
proof
  fix a b c :: index_name
  show "a < b \<longleftrightarrow> a \<le> b \<and> \<not> b \<le> a"
    by (cases a; cases b) (auto simp: less_eq_index_name_def less_index_name_def)
  show "a \<le> a" by (cases a) (auto simp: less_eq_index_name_def)
  show "a \<le> b \<Longrightarrow> b \<le> c \<Longrightarrow> a \<le> c"
    by (cases a; cases b; cases c) (auto simp: less_eq_index_name_def)
  show "a \<le> b \<Longrightarrow> b \<le> a \<Longrightarrow> a = b"
    by (cases a; cases b) (auto simp: less_eq_index_name_def)
  show "a \<le> b \<or> b \<le> a"
    by (cases a; cases b) (auto simp: less_eq_index_name_def)
qed

end

section \<open>The scan\<close>

definition scan_index ::
  "residue_env \<Rightarrow> string \<Rightarrow> entry list gomap \<Rightarrow> string \<Rightarrow> (string \<times> string \<times> string) option" where
  "scan_index env deleted byIndex name =
     (let normDeleted = normalizeForResidue env deleted;
          delTokens = distinctiveTokens env deleted;
          entries = (case map_of byIndex name of Some es \<Rightarrow> es | None \<Rightarrow> []);
          contents = sort (map e_content entries)
      in (case List.find (\<lambda>survivor. fst (matchSurvivor env deleted normDeleted delTokens survivor) \<noteq> []) contents of
            Some survivor \<Rightarrow>
              (let (class, frag) = matchSurvivor env deleted normDeleted delTokens survivor
               in Some (class, survivor, frag))
          | None \<Rightarrow> None))"

text \<open>The map of indexes is ranged over in the order \<open>ord\<close>, then sorted.\<close>

definition residueScanIndexes ::
  "residue_env \<Rightarrow> map_order \<Rightarrow> string \<Rightarrow> entry list gomap \<Rightarrow> bool \<times> string" where
  "residueScanIndexes env ord deletedContent byIndex =
     (let deleted = trim_space deletedContent in
      if deleted = [] then (False, [])
      else
        let indexNames = map the_name (sort (map IndexName (iterate ord (map fst byIndex)))) in
        case List.find (\<lambda>name. scan_index env deleted byIndex name \<noteq> None) indexNames of
          None \<Rightarrow> (False, [])
        | Some name \<Rightarrow>
            (case scan_index env deleted byIndex name of
               Some (class, survivor, frag) \<Rightarrow>
                 (True, residueSummaryInIndex env class name (survivorRef env survivor) frag)
             | None \<Rightarrow> (False, [])))"

definition residueScan :: "residue_env \<Rightarrow> string \<Rightarrow> entry list \<Rightarrow> bool \<times> string" where
  "residueScan env deletedContent survivors =
     residueScanIndexes env insertion_order deletedContent [(primaryIndexName, survivors)]"

section \<open>What the scan decides\<close>

definition survivor_hit :: "residue_env \<Rightarrow> string \<Rightarrow> string \<Rightarrow> bool" where
  "survivor_hit env deleted content \<longleftrightarrow>
     fst (matchSurvivor env deleted (normalizeForResidue env deleted) (distinctiveTokens env deleted) content) \<noteq> []"

lemma scan_index_None:
  "scan_index env deleted byIndex name = None \<longleftrightarrow>
     (\<forall>es. map_of byIndex name = Some es \<longrightarrow> (\<forall>e \<in> set es. \<not> survivor_hit env deleted (e_content e)))"
  by (cases "map_of byIndex name")
    (auto simp: scan_index_def Let_def survivor_hit_def find_None_ball split: option.splits prod.splits
      dest!: find_SomeD)

lemma residueScanIndexes_iff:
  "fst (residueScanIndexes env ord content byIndex) \<longleftrightarrow>
     trim_space content \<noteq> [] \<and>
     (\<exists>name es e. map_of byIndex name = Some es \<and> e \<in> set es \<and>
        survivor_hit env (trim_space content) (e_content e))"
proof (cases "trim_space content = []")
  case True
  then show ?thesis by (simp add: residueScanIndexes_def)
next
  case False
  let ?names = "map the_name (sort (map IndexName (iterate ord (map fst byIndex))))"
  let ?P = "\<lambda>name. scan_index env (trim_space content) byIndex name \<noteq> None"
  have set: "set ?names = dom (map_of byIndex)"
    by (simp add: dom_map_of_conv_image_fst image_image)
  have "fst (residueScanIndexes env ord content byIndex) \<longleftrightarrow> List.find ?P ?names \<noteq> None"
  proof (cases "List.find ?P ?names")
    case None
    with False show ?thesis by (simp add: residueScanIndexes_def Let_def del: not_None_eq)
  next
    case (Some name)
    with find_SomeD [OF Some] False show ?thesis
      by (simp add: residueScanIndexes_def Let_def del: not_None_eq split: option.split prod.split)
  qed
  also have "\<dots> \<longleftrightarrow> (\<exists>name \<in> dom (map_of byIndex). ?P name)"
    unfolding set [symmetric] by (simp add: find_None_ball del: set_map not_None_eq)
  also have "\<dots> \<longleftrightarrow> (\<exists>name es e. map_of byIndex name = Some es \<and> e \<in> set es \<and>
      survivor_hit env (trim_space content) (e_content e))"
    by (auto simp: scan_index_None dom_def simp del: not_None_eq)
  finally show ?thesis using False by simp
qed

lemma verbatim_hit: "deleted \<noteq> [] \<Longrightarrow> str_contains content deleted \<Longrightarrow> survivor_hit env deleted content"
  by (simp add: survivor_hit_def matchSurvivor_def exactFragmentMatch_def)

lemma verbatim_summary:
  assumes "trim_space content = c" and "c \<noteq> []" and "str_contains (e_content e) c"
  shows "residueScanIndexes env ord content [(primaryIndexName, [e])] =
     (True, residueSummaryInIndex env ''verbatim'' primaryIndexName (survivorRef env (e_content e)) c)"
proof -
  have "iterate ord [primaryIndexName] = [primaryIndexName]"
    using mset_iterate [of ord "[primaryIndexName]"] by (simp flip: mset_single_iff_right)
  with assms show ?thesis
    by (simp add: residueScanIndexes_def scan_index_def matchSurvivor_def exactFragmentMatch_def Let_def)
qed

text \<open>A verbatim copy never escapes. Whenever the trimmed deleted content is not empty and occurs
  in the content of a surviving entry of any backing index, primary or not, the scan reports
  residue, whatever the order of iteration and whatever else survives.\<close>

theorem residue_verbatim_detected:
  assumes "trim_space content \<noteq> []" and "map_of byIndex name = Some es" and "e \<in> set es"
    and "str_contains (e_content e) (trim_space content)"
  shows "fst (residueScanIndexes env ord content byIndex)"
  unfolding residueScanIndexes_iff using assms verbatim_hit [OF assms(1,4)] by blast

definition ascii_env :: residue_env where
  "ascii_env = \<lparr>re_ToLower = (\<lambda>r. r), re_IsPrint = (\<lambda>_. True), re_OutOfRange = 0\<rparr>"

theorem residue_verbatim_detected_witness:
  "fst (residueScanIndexes ascii_env reverse_order '' gate 7 ''
     [(''primary'', []), (''content'', [zero_entry\<lparr>e_content := ''open gate 7 now''\<rparr>])])"
proof (rule residue_verbatim_detected [where name = "''content''"])
  show "trim_space '' gate 7 '' \<noteq> []" by code_simp
  show "str_contains (e_content (zero_entry\<lparr>e_content := ''open gate 7 now''\<rparr>)) (trim_space '' gate 7 '')"
    by code_simp
  show "zero_entry\<lparr>e_content := ''open gate 7 now''\<rparr> \<in> set [zero_entry\<lparr>e_content := ''open gate 7 now''\<rparr>]"
    by (rule list.set_intros)
qed simp

lemma mset_map_the_name: "mset xs = mset ys \<Longrightarrow>
    map the_name (sort (map IndexName xs)) = map the_name (sort (map IndexName ys))"
  by (metis mset_map_cong sort_perm_eq)

lemma scan_index_cong:
  assumes "rel_option (\<lambda>es fs. mset (map e_content es) = mset (map e_content fs)) (map_of a name) (map_of b name)"
  shows "scan_index env deleted a name = scan_index env deleted b name"
proof (cases "map_of a name")
  case None
  with assms show ?thesis by (simp add: scan_index_def)
next
  case (Some es)
  with assms obtain fs where "map_of b name = Some fs" "mset (map e_content es) = mset (map e_content fs)"
    by (auto simp: option_rel_Some1)
  with Some sort_perm_eq [OF this(2)] show ?thesis by (simp add: scan_index_def Let_def)
qed

text \<open>The report is deterministic. Go ranges over the index map in an arbitrary order and a store
  lists an index in an arbitrary order; neither changes the verdict or one byte of the summary:
  it depends only on which index names there are and on the bag of contents under each.\<close>

theorem residue_report_deterministic:
  assumes "mset (map fst a) = mset (map fst b)"
    and "\<And>name. rel_option (\<lambda>es fs. mset (map e_content es) = mset (map e_content fs)) (map_of a name) (map_of b name)"
  shows "residueScanIndexes env ord content a = residueScanIndexes env ord' content b"
proof -
  have "mset (iterate ord (map fst a)) = mset (iterate ord' (map fst b))" using assms(1) by simp
  from mset_map_the_name [OF this]
  show ?thesis unfolding residueScanIndexes_def Let_def scan_index_cong [OF assms(2)] by simp
qed

theorem residue_report_deterministic_witness:
  "residueScanIndexes ascii_env insertion_order ''gate''
     [(''primary'', [zero_entry, zero_entry\<lparr>e_content := ''gate''\<rparr>]), (''content'', [])] =
   residueScanIndexes ascii_env reverse_order ''gate''
     [(''content'', []), (''primary'', [zero_entry\<lparr>e_content := ''gate''\<rparr>, zero_entry])]"
  by (rule residue_report_deterministic) (auto simp: option_rel_Some1)

section \<open>One report for every backing\<close>

lemma sort_least:
  fixes x :: "'a::linorder"
  assumes "x \<in> set xs" and "\<forall>y \<in> set xs. x \<le> y"
  shows "\<exists>ys. sort xs = x # ys"
proof (cases "sort xs")
  case Nil
  with assms(1) show ?thesis by (metis empty_iff empty_set set_sort)
next
  case (Cons h ys)
  have "h \<in> set xs" using Cons by (metis list.set_intros(1) set_sort)
  moreover have "h \<le> x"
  proof -
    have "sorted (h # ys)" "x \<in> set (h # ys)" using Cons assms(1) by (metis sorted_sort, metis set_sort)
    then show ?thesis by auto
  qed
  ultimately show ?thesis using assms(2) Cons by auto
qed

context memory_store
begin

text \<open>The primary index is visited first and holds every content, so it alone decides the report.\<close>

lemma residue_primary:
  assumes "inv s" and "mset (map e_content es) = image_mset e_content (stored (abs s))"
  shows "residueScanIndexes env ord content (ms_AllByIndex ops s) = residueScan env content es"
proof -
  let ?B = "ms_AllByIndex ops s"
  let ?keys = "iterate ord (map fst ?B)"
  let ?scan = "scan_index env (trim_space content)"
  obtain ps where ps: "map_of ?B primaryIndexName = Some ps" "mset ps = stored (abs s)"
    using index_primary [OF assms(1)] by blast
  then have "primaryIndexName \<in> set ?keys" by (metis domI dom_map_of_conv_image_fst set_iterate set_map)
  moreover have "\<forall>n. IndexName primaryIndexName \<le> n" by (simp add: less_eq_index_name_def)
  ultimately obtain ns where ns: "sort (map IndexName ?keys) = IndexName primaryIndexName # ns"
    using sort_least [of "IndexName primaryIndexName" "map IndexName ?keys"] by auto
  have "mset (map e_content ps) = mset (map e_content es)" using ps(2) assms(2) by simp
  then have same: "?scan ?B primaryIndexName = ?scan [(primaryIndexName, es)] primaryIndexName"
    using ps(1) by (intro scan_index_cong) simp
  show ?thesis
  proof (cases "?scan ?B primaryIndexName")
    case (Some r)
    have new: "?scan [(primaryIndexName, es)] primaryIndexName = Some r" using same Some by simp
    show ?thesis
      by (simp add: residueScan_def residueScanIndexes_def Let_def ns Some new del: not_None_eq)
  next
    case None
    have "?scan ?B n = None" for n
    proof -
      have "\<not> survivor_hit env (trim_space content) (e_content e)"
        if n: "map_of ?B n = Some qs" "e \<in> set qs" for qs e
      proof -
        from index_contents [OF assms(1) map_of_SomeD [OF n(1)]]
        have "mset (map e_content qs) = mset (map e_content ps)" using ps(2) by simp
        then have "set (map e_content qs) = set (map e_content ps)" by (metis set_mset_mset)
        with n(2) obtain e' where "e' \<in> set ps" "e_content e' = e_content e" by (metis image_iff set_map)
        with None ps(1) show ?thesis unfolding scan_index_None by metis
      qed
      then show ?thesis unfolding scan_index_None by blast
    qed
    with None same show ?thesis
      by (simp add: residueScan_def residueScanIndexes_def Let_def find_None_ball ns split: option.split)
  qed
qed

end

text \<open>C26: The report does not depend on the backing. After the same sequence of store operations, the
  scan over InMemoryStore's one index and the scan over TwoIndexStore's two indexes give the same
  verdict and the same summary, in every pair of map iteration orders.\<close>

theorem residue_report_backing_independent:
  "residueScanIndexes env ord content (im_AllByIndex o1 (im_run o1 cs)) =
   residueScanIndexes env ord' content (ts_AllByIndex o2 (ts_run o2 cs))"
proof -
  let ?es = "im_All o1 (im_run o1 cs)"
  have es: "mset (map e_content ?es) = image_mset e_content (stored (map_of (im_run o1 cs)))"
    using im.all_abs [OF im_run_wf, of o1 o1 cs] by (simp add: im_defs)
  have "residueScanIndexes env ord content (im_AllByIndex o1 (im_run o1 cs)) = residueScan env content ?es"
    using im.residue_primary [OF im_run_wf es, of env ord content o1] by (simp add: in_memory_ops_def)
  moreover have "residueScanIndexes env ord' content (ts_AllByIndex o2 (ts_run o2 cs)) = residueScan env content ?es"
    using ts.residue_primary [OF ts_run_inv es [unfolded runs_agree [of o1 cs o2]], of env ord' content o2]
    by (simp add: two_index_ops_def)
  ultimately show ?thesis by simp
qed

section \<open>English cardinals\<close>

text \<open>The words of a number, as a paraphrase would spell it.\<close>

definition one_words :: "string list" where
  "one_words =
     [''zero'', ''one'', ''two'', ''three'', ''four'', ''five'', ''six'', ''seven'', ''eight'', ''nine'',
      ''ten'', ''eleven'', ''twelve'', ''thirteen'', ''fourteen'', ''fifteen'', ''sixteen'',
      ''seventeen'', ''eighteen'', ''nineteen'']"

definition ten_words :: "string list" where
  "ten_words =
     [''zero'', ''ten'', ''twenty'', ''thirty'', ''forty'', ''fifty'', ''sixty'', ''seventy'', ''eighty'', ''ninety'']"

definition spell_small :: "nat \<Rightarrow> string list" where
  "spell_small n =
     (if n < 20 then [one_words ! n]
      else ten_words ! (n div 10) # (if n mod 10 = 0 then [] else [one_words ! (n mod 10)]))"

definition spell_group :: "nat \<Rightarrow> string list" where
  "spell_group n =
     (if n < 100 then spell_small n
      else one_words ! (n div 100) # ''hundred'' # (if n mod 100 = 0 then [] else spell_small (n mod 100)))"

definition spell_scaled :: "nat \<Rightarrow> string \<Rightarrow> string list" where
  "spell_scaled g scale = (if g = 0 then [] else spell_group g @ [scale])"

definition spell :: "nat \<Rightarrow> string list" where
  "spell n =
     spell_scaled (n div 1000000000) ''billion'' @ spell_scaled (n div 1000000 mod 1000) ''million'' @
     spell_scaled (n div 1000 mod 1000) ''thousand'' @
     (if n mod 1000 = 0 then [] else spell_group (n mod 1000))"

lemma number_run_unit:
  "map_of numberWordUnits (trim_set ''.,$%'' w) = Some v \<Longrightarrow>
     number_run (w # ts) c tot seen = number_run ts (c + v) tot True"
  by (simp add: number_run.simps(2))

lemma one_words_value: "k < 20 \<Longrightarrow> map_of numberWordUnits (trim_set ''.,$%'' (one_words ! k)) = Some (of_nat k)"
proof -
  have "list_all (\<lambda>k. map_of numberWordUnits (trim_set ''.,$%'' (one_words ! k)) = Some (of_nat k)) [0..<20]"
    by code_simp
  then show "k < 20 \<Longrightarrow> ?thesis" by (simp add: list_all_iff)
qed

lemma ten_words_value:
  "2 \<le> k \<Longrightarrow> k < 10 \<Longrightarrow> map_of numberWordUnits (trim_set ''.,$%'' (ten_words ! k)) = Some (of_nat (10 * k))"
proof -
  have "list_all (\<lambda>k. map_of numberWordUnits (trim_set ''.,$%'' (ten_words ! k)) = Some (of_nat (10 * k))) [2..<10]"
    by code_simp
  moreover assume "2 \<le> k" "k < 10"
  then have "k \<in> set [2..<10]" by (simp only: set_upt atLeastLessThan_iff)
  ultimately show ?thesis unfolding list_all_iff by (rule bspec)
qed

lemma number_run_small:
  assumes "n < 100"
  shows "number_run (spell_small n @ ts) c tot seen = number_run ts (c + of_nat n) tot True"
proof (cases "n < 20")
  case True
  then show ?thesis by (simp add: spell_small_def number_run_unit [OF one_words_value])
next
  case False
  with assms have k: "2 \<le> n div 10" "n div 10 < 10" "n mod 10 < 20" by auto
  have n: "n = 10 * (n div 10) + n mod 10" by simp
  have "of_nat (10 * (n div 10)) + of_nat (n mod 10) = (of_nat n :: 64 word)"
    by (metis n of_nat_add)
  with False number_run_unit [OF ten_words_value [OF k(1,2)]] number_run_unit [OF one_words_value [OF k(3)]]
  show ?thesis by (cases "n mod 10 = 0") (simp_all add: spell_small_def add.assoc)
qed

lemma trim_scales [simp]:
  "trim_set ''.,$%'' ''hundred'' = ''hundred''" "trim_set ''.,$%'' ''thousand'' = ''thousand''"
  "trim_set ''.,$%'' ''million'' = ''million''" "trim_set ''.,$%'' ''billion'' = ''billion''"
  by code_simp+

lemma scale_lookup [simp]:
  "map_of numberWordUnits ''hundred'' = None" "map_of numberWordScales ''hundred'' = Some 100"
  "map_of numberWordUnits ''thousand'' = None" "map_of numberWordScales ''thousand'' = Some 1000"
  "map_of numberWordUnits ''million'' = None" "map_of numberWordScales ''million'' = Some 1000000"
  "map_of numberWordUnits ''billion'' = None" "map_of numberWordScales ''billion'' = Some 1000000000"
  by (simp_all add: numberWordUnits_def numberWordScales_def)

lemma number_run_hundred:
  "c \<noteq> 0 \<Longrightarrow> number_run (''hundred'' # ts) c tot seen = number_run ts (c * 100) tot True"
  by (simp add: number_run.simps(2))

lemma of_nat_word_ne_0: "0 < n \<Longrightarrow> n < 1000 \<Longrightarrow> (of_nat n :: 64 word) \<noteq> 0"
  by (simp add: word_of_nat_eq_0_iff nat_dvd_not_less)

lemma number_run_group:
  assumes "0 < g" and "g < 1000"
  shows "number_run (spell_group g @ ts) 0 tot seen = number_run ts (of_nat g) tot True"
proof (cases "g < 100")
  case True
  then show ?thesis by (simp add: spell_group_def number_run_small)
next
  case False
  define h r where "h = g div 100" and "r = g mod 100"
  have h: "0 < h" "h < 10" "r < 100" using False assms(2) by (auto simp: h_def r_def)
  have g: "g = h * 100 + r" by (simp add: h_def r_def)
  have hw: "(of_nat h :: 64 word) \<noteq> 0" using h by (intro of_nat_word_ne_0) auto
  have step: "number_run (one_words ! h # ''hundred'' # us) 0 tot seen = number_run us (of_nat (h * 100)) tot True" for us
    using h hw by (simp add: number_run_unit [OF one_words_value] number_run_hundred)
  show ?thesis
  proof (cases "r = 0")
    case True
    with False g step show ?thesis by (simp add: spell_group_def flip: h_def r_def)
  next
    case nz: False
    have "of_nat (h * 100) + of_nat r = (of_nat g :: 64 word)" by (simp only: g of_nat_add)
    with nz False step number_run_small [OF h(3)] show ?thesis
      by (simp add: spell_group_def flip: h_def r_def)
  qed
qed

lemma number_run_scale:
  assumes "map_of numberWordUnits scale = None" and "map_of numberWordScales scale = Some (of_nat sc)"
    and "trim_set ''.,$%'' scale = scale" and "(of_nat sc :: 64 word) \<noteq> 100" and "g < 1000"
  shows "number_run (spell_scaled g scale @ ts) 0 tot seen =
           number_run ts 0 (tot + of_nat (g * sc)) (seen \<or> g \<noteq> 0)"
proof (cases "g = 0")
  case True
  then show ?thesis by (simp add: spell_scaled_def)
next
  case False
  then have "number_run (spell_scaled g scale @ ts) 0 tot seen = number_run (scale # ts) (of_nat g) tot True"
    using number_run_group [of g "scale # ts"] assms(5) by (simp add: spell_scaled_def)
  then show ?thesis using assms False of_nat_word_ne_0 [of g] by (simp add: number_run.simps(2))
qed

lemma digit_groups:
  fixes n :: nat
  shows "n = n div 1000000000 * 1000000000 + n div 1000000 mod 1000 * 1000000 + n div 1000 mod 1000 * 1000 + n mod 1000"
proof -
  define a where "a = n div 1000"
  define b where "b = a div 1000"
  define c where "c = b div 1000"
  have ba: "n div 1000000 = b" using div_mult2_eq [of n 1000 1000] by (simp add: a_def b_def)
  have cb: "n div 1000000000 = c" using div_mult2_eq [of n 1000000 1000] by (simp add: ba c_def)
  have "a = b * 1000 + a mod 1000" unfolding b_def by (rule div_mult_mod_eq [symmetric])
  moreover have "b = c * 1000 + b mod 1000" unfolding c_def by (rule div_mult_mod_eq [symmetric])
  moreover have "n = a * 1000 + n mod 1000" unfolding a_def by (rule div_mult_mod_eq [symmetric])
  ultimately have "n = c * 1000000000 + b mod 1000 * 1000000 + a mod 1000 * 1000 + n mod 1000" 
    by linarith
  then show ?thesis unfolding ba cb a_def [symmetric] .
qed

lemma number_run_spell:
  assumes "0 < n" and "n < 1000000000000"
  shows "number_run (spell n) 0 0 False = (of_nat n, [])"
proof -
  define b m t r where "b = n div 1000000000" and "m = n div 1000000 mod 1000"
    and "t = n div 1000 mod 1000" and "r = n mod 1000"
  have lt: "b < 1000" "m < 1000" "t < 1000" "r < 1000" using assms(2) by (auto simp: b_def m_def t_def r_def)
  have n: "n = b * 1000000000 + m * 1000000 + t * 1000 + r"
    unfolding b_def m_def t_def r_def by (rule digit_groups)
  have sp: "spell n = spell_scaled b ''billion'' @ spell_scaled m ''million'' @ spell_scaled t ''thousand'' @
      (if r = 0 then [] else spell_group r)"
    by (simp add: spell_def b_def m_def t_def r_def)
  let ?v = "of_nat (b * 1000000000) + of_nat (m * 1000000) + of_nat (t * 1000) :: 64 word"
  have "number_run (spell n) 0 0 False =
      number_run (if r = 0 then [] else spell_group r) 0 ?v (b \<noteq> 0 \<or> m \<noteq> 0 \<or> t \<noteq> 0)"
    unfolding sp using lt
    by (simp add: number_run_scale [of "''billion''" 1000000000] number_run_scale [of "''million''" 1000000]
        number_run_scale [of "''thousand''" 1000])
  also have "\<dots> = (?v + of_nat r, [])"
  proof (cases "r = 0")
    case True
    then show ?thesis by (simp add: number_run.simps(1))
  next
    case False
    with number_run_group [of r "[]"] lt show ?thesis by (simp add: number_run.simps(1))
  qed
  also have "?v + of_nat r = of_nat n" unfolding n by (simp only: of_nat_add)
  finally show ?thesis .
qed

definition number_vocabulary :: "string list" where
  "number_vocabulary = one_words @ ten_words @ [''hundred'', ''thousand'', ''million'', ''billion'']"

lemma number_vocabulary_ok:
  "list_all (\<lambda>w. is_number_word w \<and> w \<noteq> [] \<and> list_all plain_char w) number_vocabulary"
  by code_simp

lemma spell_small_vocabulary: "n < 100 \<Longrightarrow> set (spell_small n) \<subseteq> set number_vocabulary"
proof -
  assume "n < 100"
  then have "n div 10 < length ten_words" "n mod 10 < length one_words" "n < 20 \<Longrightarrow> n < length one_words"
    by (auto simp: ten_words_def one_words_def)
  then show ?thesis
    by (auto simp: spell_small_def number_vocabulary_def dest: nth_mem split: if_splits)
qed

lemma spell_group_vocabulary: "g < 1000 \<Longrightarrow> set (spell_group g) \<subseteq> set number_vocabulary"
proof -
  assume "g < 1000"
  then have "one_words ! (g div 100) \<in> set one_words" by (intro nth_mem) (simp add: one_words_def)
  then show ?thesis
    using spell_small_vocabulary [of g] spell_small_vocabulary [of "g mod 100"]
    by (auto simp: spell_group_def number_vocabulary_def)
qed

lemma spell_vocabulary: "n < 1000000000000 \<Longrightarrow> set (spell n) \<subseteq> set number_vocabulary"
proof -
  assume "n < 1000000000000"
  then have "n div 1000000000 < 1000" by simp
  then show ?thesis
    using spell_group_vocabulary [of "n div 1000000000"] spell_group_vocabulary [of "n div 1000000 mod 1000"]
      spell_group_vocabulary [of "n div 1000 mod 1000"] spell_group_vocabulary [of "n mod 1000"]
    by (auto simp: spell_def spell_scaled_def number_vocabulary_def)
qed

text \<open>C39: Number words round-trip. For every number from one to 999,999,999,999 the English
  spelling, as words joined by spaces, canonicalizes to its decimal digits: no group, scale or
  zero is lost and the 64-bit arithmetic never wraps in that range.\<close>

theorem number_words_roundtrip:
  assumes "0 < n" and "n < 1000000000000"
  shows "canonicalizeNumberWords (join '' '' (spell n)) = int_dec (int n)"
proof -
  have words: "\<forall>w \<in> set (spell n). is_number_word w \<and> w \<noteq> [] \<and> list_all plain_char w"
    using spell_vocabulary [OF assms(2)] number_vocabulary_ok unfolding list_all_iff by blast
  then have "Fields (join '' '' (spell n)) = spell n" by (intro Fields_join) (simp add: list_all_iff)
  moreover obtain w ws where sp: "spell n = w # ws"
  proof (cases "spell n")
    case Nil
    with number_run_spell [OF assms] have "(of_nat n :: 64 word) = 0" by (simp add: number_run.simps(1))
    then have "2 ^ 64 dvd n" by (simp add: word_of_nat_eq_0_iff)
    then show ?thesis using assms by (auto dest: nat_dvd_not_less)
  qed (rule that)
  ultimately have "canonicalizeNumberWords (join '' '' (spell n)) = join '' '' (canon_tokens (w # ws))"
    by (simp add: canonicalizeNumberWords_def)
  also have "\<dots> = int_dec (sint (of_nat n :: 64 word))"
    using words number_run_spell [OF assms] by (simp add: sp)
  also have "sint (of_nat n :: 64 word) = int n"
    using assms(2) by (simp add: signed_of_nat signed_take_bit_int_eq_self_iff)
  finally show ?thesis .
qed

theorem number_words_roundtrip_witness:
  "canonicalizeNumberWords ''twelve million three hundred forty thousand five'' = ''12340005''"
proof -
  have "join '' '' (spell 12340005) = ''twelve million three hundred forty thousand five''"
    by (simp add: spell_def spell_scaled_def spell_group_def spell_small_def one_words_def ten_words_def)
  moreover have "int_dec 12340005 = ''12340005''" by code_simp
  ultimately show ?thesis using number_words_roundtrip [of 12340005] by simp
qed

section \<open>Findings\<close>

text \<open>Redaction placeholders count as residue. Two unrelated entries whose only common part is
  the placeholder of a redacted card number are residue of each other: "credit_card" is a token of
  more than eight bytes, hence "strong", and survives normalization in both. Deleting one of any
  two entries that had a card number, an IP address or a credential redacted therefore reports
  residue that is not there.\<close>

theorem placeholder_is_residue:
  "fst (residueScan ascii_env ''card <CREDIT_CARD>'' [zero_entry\<lparr>e_content := ''refund to <CREDIT_CARD>''\<rparr>]) \<and>
   fst (residueScan ascii_env ''host <IP_ADDRESS>'' [zero_entry\<lparr>e_content := ''ping <IP_ADDRESS>''\<rparr>]) \<and>
   \<not> fst (residueScan ascii_env ''mail <EMAIL>'' [zero_entry\<lparr>e_content := ''write <EMAIL>''\<rparr>])"
  by code_simp

text \<open>Number words wrap around in 64 bits. Thirty-two times "hundred" is \<open>100 ^ 32\<close>, a multiple
  of \<open>2 ^ 64\<close>, and normalizes to "0".\<close>

theorem number_words_wrap:
  "canonicalizeNumberWords (join '' '' (replicate 32 ''hundred'')) = ''0''"
  by code_simp

text \<open>Text without number words is not returned verbatim, as the comment of
  canonicalizeNumberWords says: its tokens are re-joined with single spaces, so every run of
  spaces, tabs and newlines collapses and leading and trailing space is lost.\<close>

theorem number_words_not_verbatim:
  "canonicalizeNumberWords '' no  numbers here '' = ''no numbers here''"
  by code_simp

end
