(* ===== verification/Guard.thy ===== *)
theory Guard
  imports Principal Sha256 Store Keys Detector AuditEvents Inspectors Residue
begin

text \<open>
  The guard (src/guard.go): the object that ties the seams together. Its fields that never change
  after construction (detector, store verbs, sink, inspector, key policy) are the record
  \<open>memory_guard\<close>; what its calls change (the backing, the inspector's and the sink's own state, the
  baseline registry) is the record \<open>guard_state\<close>, passed explicitly. A method value that Go calls
  through an interface is a field of the record, \<open>None\<close> is a nil interface.

  Everything a call reads from outside is in \<open>guard_env\<close>: the six random bytes of the id, the
  wall clock of an event (seconds) and of the inspector (nanoseconds), the order in which Go ranges
  over the map of indexes, and the Unicode tables. Each call runs to its end before the next: the
  guard serializes store and registry accesses under its mutex.
\<close>

section \<open>State\<close>

type_synonym 'i inspect = "int \<Rightarrow> string \<Rightarrow> WriteContext \<Rightarrow> 'i \<Rightarrow> string list \<times> 'i"

record ('s, 'i, 'k) memory_guard =
  mg_det :: detector
  mg_store :: "'s memory_store_ops"
  mg_audit :: "'k audit_sink option"
  mg_inspector :: "'i inspect option"
  mg_keyPolicy :: KeyPolicy

record ('s, 'i, 'k) guard_state =
  gs_store :: 's
  gs_inspector :: 'i
  gs_sink :: 'k
  gs_baselines :: baselines

record guard_env =
  ge_rand :: string
  ge_now :: int
  ge_clock :: int
  ge_order :: map_order
  ge_unicode :: residue_env

section \<open>Responses\<close>

text \<open>The response maps, one field per key. \<open>wr_stored_id = None\<close> is JSON null;
  \<open>dr_residue_summary = None\<close> is an absent key. A nil and an empty flag slice are both \<open>[]\<close>:
  \<open>flagsOrEmpty\<close> maps the one to the other.\<close>

record write_response =
  wr_allow :: bool
  wr_stored_id :: "string option"
  wr_state :: string
  wr_flags :: "string list"

record read_response =
  rr_allow :: bool
  rr_content_redacted :: string
  rr_flags :: "string list"

record review_response =
  qr_found :: bool
  qr_content_redacted :: string
  qr_flags :: "string list"

record delete_response =
  dr_confirmed :: bool
  dr_residue_detected :: bool
  dr_residue_summary :: "string option"
  dr_deletion_hash :: string

section \<open>Helpers\<close>

fun contains :: "string list \<Rightarrow> string \<Rightarrow> bool" where
  "contains [] w = False"
| "contains (x # xs) w = (if x = w then True else contains xs w)"

definition flagsOrEmpty :: "string list option \<Rightarrow> string list" where
  "flagsOrEmpty flags = (case flags of None \<Rightarrow> [] | Some fs \<Rightarrow> fs)"

text \<open>\<open>rand.Read\<close> fills a buffer of n bytes; the bytes are the argument.\<close>

definition randHex :: "nat \<Rightarrow> string \<Rightarrow> string" where
  "randHex n bytes = hex_encode (take n bytes)"

lemma contains_iff [simp]: "contains xs w \<longleftrightarrow> w \<in> set xs"
  by (induction xs) auto

section \<open>Construction\<close>

text \<open>An omitted or nil store becomes the default InMemoryStore: the guard's store is either the
  default or the backing passed in, and each verb is that of the one it is.\<close>

definition either_ops :: "'a memory_store_ops \<Rightarrow> 'b memory_store_ops \<Rightarrow> ('a + 'b) memory_store_ops" where
  "either_ops a b =
     \<lparr>ms_Put = (\<lambda>i e. map_sum (ms_Put a i e) (ms_Put b i e)),
      ms_Get = (\<lambda>i. case_sum (ms_Get a i) (ms_Get b i)),
      ms_Delete = (\<lambda>i. map_sum (ms_Delete a i) (ms_Delete b i)),
      ms_Scan = (\<lambda>q. case_sum (ms_Scan a q) (ms_Scan b q)),
      ms_ScanScoped = (\<lambda>q ks. case_sum (ms_ScanScoped a q ks) (ms_ScanScoped b q ks)),
      ms_All = case_sum (ms_All a) (ms_All b),
      ms_AllByIndex = case_sum (ms_AllByIndex a) (ms_AllByIndex b)\<rparr>"

locale two_stores =
  a: memory_store opsa absa inva + b: bounded_store opsb absb invb okb
  for opsa :: "'a memory_store_ops" and absa and inva
    and opsb :: "'b memory_store_ops" and absb and invb and okb

sublocale two_stores \<subseteq>
  either: bounded_store "either_ops opsa opsb" "case_sum absa absb" "case_sum inva invb" okb
proof (unfold_locales, goal_cases)
  case (1 s) then show ?case by (cases s) (simp_all add: a.finite_abs b.finite_abs)
next
  case (2 s i) then show ?case by (cases s) (simp_all add: either_ops_def a.get_abs b.get_abs)
next
  case (3 s i e) then show ?case by (cases s) (simp_all add: either_ops_def a.put_inv b.put_inv)
next
  case (4 s i e) then show ?case by (cases s) (simp_all add: either_ops_def a.put_abs b.put_abs)
next
  case (5 s i) then show ?case by (cases s) (simp_all add: either_ops_def a.delete_inv b.delete_inv)
next
  case (6 s i) then show ?case by (cases s) (simp_all add: either_ops_def a.delete_abs b.delete_abs)
next
  case (7 s q) then show ?case by (cases s) (simp_all add: either_ops_def a.scan_abs b.scan_abs)
next
  case (8 s q ks) then show ?case by (cases s) (simp_all add: either_ops_def a.scoped_abs b.scoped_abs)
next
  case (9 s) then show ?case by (cases s) (simp_all add: either_ops_def a.all_abs b.all_abs)
next
  case (10 s) then show ?case by (cases s) (simp_all add: either_ops_def a.index_wf b.index_wf)
next
  case (11 s) then show ?case by (cases s) (simp_all add: either_ops_def a.index_primary b.index_primary)
next
  case (12 s n es) then show ?case
    using a.index_contents [of _ n es] b.index_contents [of _ n es] by (cases s) (simp_all add: either_ops_def)
qed

context two_stores
begin

lemmas either_bounded = either.bounded_store_axioms

end

definition NewMemoryGuard ::
  "map_order \<Rightarrow> 'b memory_store_ops \<Rightarrow> detector option \<Rightarrow> 'b option list \<Rightarrow> 'i \<Rightarrow> 'k \<Rightarrow>
   (in_memory_store + 'b, 'i, 'k) memory_guard \<times> (in_memory_store + 'b, 'i, 'k) guard_state" where
  "NewMemoryGuard ord ops det stores i k =
     (let d = (case det of None \<Rightarrow> regex_detector NewRegexDetector | Some d \<Rightarrow> d);
          s = (case stores of [] \<Rightarrow> None | s # _ \<Rightarrow> s)
      in (\<lparr>mg_det = d, mg_store = either_ops (in_memory_ops ord) ops, mg_audit = None,
           mg_inspector = None, mg_keyPolicy = zero_policy\<rparr>,
          \<lparr>gs_store = (case s of None \<Rightarrow> Inl NewInMemoryStore | Some b \<Rightarrow> Inr b),
           gs_inspector = i, gs_sink = k, gs_baselines = (\<lambda>_. None)\<rparr>))"

definition WithAudit ::
  "'k AuditConfig \<Rightarrow> ('s, 'i, 'k) memory_guard \<Rightarrow> ('s, 'i, 'k) memory_guard" where
  "WithAudit cfg g = g\<lparr>mg_audit := (if isActive cfg then ac_Sink cfg else None)\<rparr>"

definition WithWriteInspector ::
  "'i inspect option \<Rightarrow> ('s, 'i, 'k) memory_guard \<Rightarrow> ('s, 'i, 'k) memory_guard" where
  "WithWriteInspector wi g = g\<lparr>mg_inspector := wi\<rparr>"

definition WithKeyPolicy ::
  "KeyPolicy \<Rightarrow> ('s, 'i, 'k) memory_guard \<Rightarrow> ('s, 'i, 'k) memory_guard" where
  "WithKeyPolicy policy g = g\<lparr>mg_keyPolicy := policy\<rparr>"

section \<open>The write gate\<close>

text \<open>The stages of \<open>ValidateWrite\<close>, in its order: the three detector calls, the injection
  gate, the named-key policy, the behavioral inspector, quarantine routing and storage.
  \<open>store_write\<close> is what follows the gates.\<close>

definition store_write ::
  "('s, 'i, 'k) memory_guard \<Rightarrow> guard_env \<Rightarrow> string \<Rightarrow> string list \<Rightarrow> string \<Rightarrow> string \<Rightarrow> string list \<Rightarrow>
   ('s, 'i, 'k) guard_state \<Rightarrow> write_response \<times> ('s, 'i, 'k) guard_state" where
  "store_write g env redacted piiFlags boundKey srcClass flags st =
     (let quarantined = contains flags ''borderline_suspected'';
          state = (if quarantined then ''quarantine'' else ''allow'');
          eid = ''mem-'' @ randHex 6 (ge_rand env);
          e = \<lparr>e_content = redacted, e_boundIdentity = boundKey, e_sourceClass = srcClass,
               e_flags = flags, e_quarantined = quarantined\<rparr>;
          st1 = st\<lparr>gs_store := ms_Put (mg_store g) eid e (gs_store st)\<rparr>;
          st2 = (if piiFlags \<noteq> []
                 then st1\<lparr>gs_sink := emitSafe (mg_audit g)
                        (BuildPIIRedactionEvent (ge_now env) flags eid srcClass) (gs_sink st1)\<rparr>
                 else st1)
      in (\<lparr>wr_allow = True, wr_stored_id = Some eid, wr_state = state, wr_flags = flags\<rparr>, st2))"

text \<open>The policy stage: without a key it runs nothing.\<close>

definition key_stage ::
  "('s, 'i, 'k) memory_guard \<Rightarrow> string \<Rightarrow> string \<Rightarrow> bool \<Rightarrow> baselines \<Rightarrow> string list \<times> bool \<times> baselines" where
  "key_stage g writeKey redacted attested bs =
     (if writeKey \<noteq> [] then evaluateKeyPolicy (mg_keyPolicy g) writeKey redacted attested bs
      else ([], False, bs))"

definition inspect_stage ::
  "('s, 'i, 'k) memory_guard \<Rightarrow> int \<Rightarrow> string \<Rightarrow> WriteContext \<Rightarrow> 'i \<Rightarrow> string list \<times> 'i" where
  "inspect_stage g now content ctx i =
     (case mg_inspector g of None \<Rightarrow> ([], i) | Some inspect \<Rightarrow> inspect now content ctx i)"

definition ValidateWrite ::
  "('s, 'i, 'k) memory_guard \<Rightarrow> guard_env \<Rightarrow> string \<Rightarrow> identity \<Rightarrow> string list \<Rightarrow>
   ('s, 'i, 'k) guard_state \<Rightarrow> write_response \<times> ('s, 'i, 'k) guard_state" where
  "ValidateWrite g env content identity key st =
     (let injectionFlags = det_DetectInjection (mg_det g) content;
          borderlineFlags = det_DetectBorderline (mg_det g) content;
          (redacted, piiFlags) = det_RedactPII (mg_det g) content;
          flags = (injectionFlags @ piiFlags) @ borderlineFlags;
          srcClass = sourceClassFromMap identity
      in
        if contains flags ''injection_suspected'' then
          (\<lparr>wr_allow = False, wr_stored_id = None, wr_state = ''block'', wr_flags = flags\<rparr>,
           st\<lparr>gs_sink := emitSafe (mg_audit g)
                (BuildInjectionRejectedEvent (ge_now env) flags srcClass) (gs_sink st)\<rparr>)
        else
          (let p = principalFromMap identity;
               boundKey = boundKeyFor (Some p);
               (policyFlags, reject, bs') =
                 key_stage g (firstKey key) redacted (Attested p) (gs_baselines st);
               flags1 = flags @ policyFlags;
               st1 = st\<lparr>gs_baselines := bs'\<rparr>
           in
             if reject then
               (\<lparr>wr_allow = False, wr_stored_id = None, wr_state = ''block'', wr_flags = flags1\<rparr>, st1)
             else
               (let (behavioral, i') = inspect_stage g (ge_clock env) content
                      \<lparr>wc_Key = boundKey, wc_SourceClass = writeProvenanceHint identity\<rparr> (gs_inspector st)
                in store_write g env redacted piiFlags boundKey srcClass (flags1 @ behavioral)
                     (st1\<lparr>gs_inspector := i'\<rparr>))))"

section \<open>Read, review, delete\<close>

definition ValidateRead ::
  "('s, 'i, 'k) memory_guard \<Rightarrow> string \<Rightarrow> identity \<Rightarrow> ('s, 'i, 'k) guard_state \<Rightarrow> read_response" where
  "ValidateRead g query identity st =
     (let (wantKey, enforced) = readerVisibilityKey (Some (principalFromMap identity));
          visibleKeys = [wantKey, sharedScopeKey];
          scoped = ms_ScanScoped (mg_store g) query visibleKeys (gs_store st);
          hits = map e_content (filter (\<lambda>e. \<not> e_quarantined e) scoped);
          (redacted, flags) = det_RedactPII (mg_det g) (join ''\<newline>'' hits)
      in \<lparr>rr_allow = True, rr_content_redacted = redacted, rr_flags = flags\<rparr>)"

definition ReviewQuarantine ::
  "('s, 'i, 'k) memory_guard \<Rightarrow> string \<Rightarrow> ('s, 'i, 'k) guard_state \<Rightarrow> review_response" where
  "ReviewQuarantine g eid st =
     (let refused = \<lparr>qr_found = False, qr_content_redacted = [], qr_flags = []\<rparr> in
      case ms_Get (mg_store g) eid (gs_store st) of
        None \<Rightarrow> refused
      | Some e \<Rightarrow>
          if \<not> e_quarantined e then refused
          else (let (redacted, _) = det_RedactPII (mg_det g) (e_content e)
                in \<lparr>qr_found = True, qr_content_redacted = redacted, qr_flags = e_flags e\<rparr>))"

definition VerifyDelete ::
  "('s, 'i, 'k) memory_guard \<Rightarrow> guard_env \<Rightarrow> string \<Rightarrow> ('s, 'i, 'k) guard_state \<Rightarrow>
   delete_response \<times> ('s, 'i, 'k) guard_state" where
  "VerifyDelete g env eid st =
     (let before = ms_Get (mg_store g) eid (gs_store st);
          deleted = (case before of None \<Rightarrow> zero_entry | Some e \<Rightarrow> e);
          existed = (before \<noteq> None);
          s1 = ms_Delete (mg_store g) eid (gs_store st);
          stillPresent = (ms_Get (mg_store g) eid s1 \<noteq> None);
          hash = deletionHash eid (e_content deleted);
          (detected, summary) =
            (if existed
             then residueScanIndexes (ge_unicode env) (ge_order env) (e_content deleted)
                    (ms_AllByIndex (mg_store g) s1)
             else (False, []));
          residueFlags = (if detected then [''residue_detected''] else []);
          sink' = emitSafe (mg_audit g) (BuildDeletionEvent (ge_now env) hash detected residueFlags)
                    (gs_sink st)
      in (\<lparr>dr_confirmed = (\<not> stillPresent), dr_residue_detected = detected,
           dr_residue_summary = (if detected then Some summary else None), dr_deletion_hash = hash\<rparr>,
          st\<lparr>gs_store := s1, gs_sink := sink'\<rparr>))"

section \<open>Runs\<close>

text \<open>The calls a client can make, and what it is told.\<close>

datatype guard_call =
    CWrite guard_env string identity "string list"
  | CRead string identity
  | CReview string
  | CDeleteEntry guard_env string

datatype guard_reply =
    RWrite write_response
  | RRead read_response
  | RReview review_response
  | RDelete delete_response

fun guard_step ::
  "('s, 'i, 'k) memory_guard \<Rightarrow> guard_call \<Rightarrow> ('s, 'i, 'k) guard_state \<Rightarrow>
   guard_reply \<times> ('s, 'i, 'k) guard_state" where
  "guard_step g (CWrite env content identity key) st =
     (case ValidateWrite g env content identity key st of (r, st') \<Rightarrow> (RWrite r, st'))"
| "guard_step g (CRead query identity) st = (RRead (ValidateRead g query identity st), st)"
| "guard_step g (CReview eid) st = (RReview (ReviewQuarantine g eid st), st)"
| "guard_step g (CDeleteEntry env eid) st =
     (case VerifyDelete g env eid st of (r, st') \<Rightarrow> (RDelete r, st'))"

fun guard_run ::
  "('s, 'i, 'k) memory_guard \<Rightarrow> guard_call list \<Rightarrow> ('s, 'i, 'k) guard_state \<Rightarrow>
   guard_reply list \<times> ('s, 'i, 'k) guard_state" where
  "guard_run g [] st = ([], st)"
| "guard_run g (c # cs) st =
     (let (r, st1) = guard_step g c st; (rs, st2) = guard_run g cs st1 in (r # rs, st2))"

section \<open>The stages, one branch at a time\<close>

lemma evaluateKeyPolicy_flags:
  "set (fst (evaluateKeyPolicy policy key c att bs)) \<subseteq> {protectedKeyViolationFlag, immutableMismatchFlag}"
  by (auto simp: evaluateKeyPolicy_def Let_def split: option.splits)

lemma key_stage_flags:
  "set (fst (key_stage g key c att bs)) \<subseteq> {protectedKeyViolationFlag, immutableMismatchFlag}"
  using evaluateKeyPolicy_flags [of "mg_keyPolicy g" key c att bs] by (simp add: key_stage_def)

lemma key_stage_routing:
  "key_stage g key c att bs = (fs, rej, bs') \<Longrightarrow>
     f \<in> {injection_suspected, borderline_suspected} \<Longrightarrow> f \<notin> set fs"
  using key_stage_flags [of g key c att bs]
  by (auto simp: protectedKeyViolationFlag_def immutableMismatchFlag_def)

text \<open>A guard over a backing that can hold the entries \<open>ok\<close> admits.\<close>

locale guard_over =
  det: detector_seam "mg_det g" + st: bounded_store "mg_store g" abs inv ok
  for g :: "('s, 'i, 'k) memory_guard" and abs and inv and ok +
  assumes inspector_seam: "mg_inspector g = Some inspect \<Longrightarrow> write_inspector inspect"
begin

abbreviation injected :: "string \<Rightarrow> bool" where
  "injected c \<equiv> det_DetectInjection (mg_det g) c \<noteq> []"

abbreviation borderline :: "string \<Rightarrow> bool" where
  "borderline c \<equiv> det_DetectBorderline (mg_det g) c \<noteq> []"

abbreviation redact :: "string \<Rightarrow> string" where
  "redact c \<equiv> fst (det_RedactPII (mg_det g) c)"

abbreviation pii :: "string \<Rightarrow> string list" where
  "pii c \<equiv> snd (det_RedactPII (mg_det g) c)"

text \<open>The flags of the detector stage.\<close>

abbreviation detected :: "string \<Rightarrow> string list" where
  "detected c \<equiv> (det_DetectInjection (mg_det g) c @ pii c) @ det_DetectBorderline (mg_det g) c"

lemma inspect_stage_routing:
  assumes "inspect_stage g now c ctx i = (fs, i')" and "f \<in> {injection_suspected, borderline_suspected}"
  shows "f \<notin> set fs"
proof (cases "mg_inspector g")
  case (Some inspect)
  with inspector_seam [OF Some] assms show ?thesis
    using write_inspector.no_routing_flags [of inspect now c ctx i] by (auto simp: inspect_stage_def)
qed (use assms in \<open>simp add: inspect_stage_def\<close>)

lemma write_injection:
  assumes "injected c"
  shows "ValidateWrite g env c m key st =
     (\<lparr>wr_allow = False, wr_stored_id = None, wr_state = ''block'', wr_flags = detected c\<rparr>,
      st\<lparr>gs_sink := emitSafe (mg_audit g)
           (BuildInjectionRejectedEvent (ge_now env) (detected c) (sourceClassFromMap m)) (gs_sink st)\<rparr>)"
  using assms by (simp add: ValidateWrite_def Let_def case_prod_beta)

lemma write_rejected:
  assumes "\<not> injected c"
    and "key_stage g (firstKey key) (redact c) (Attested (principalFromMap m)) (gs_baselines st) = (fs, True, bs')"
  shows "ValidateWrite g env c m key st =
     (\<lparr>wr_allow = False, wr_stored_id = None, wr_state = ''block'', wr_flags = detected c @ fs\<rparr>,
      st\<lparr>gs_baselines := bs'\<rparr>)"
  using assms by (simp add: ValidateWrite_def Let_def case_prod_beta)

lemma write_stored:
  assumes "\<not> injected c"
    and "key_stage g (firstKey key) (redact c) (Attested (principalFromMap m)) (gs_baselines st) = (fs, False, bs')"
    and "inspect_stage g (ge_clock env) c
           \<lparr>wc_Key = boundKeyFor (Some (principalFromMap m)), wc_SourceClass = writeProvenanceHint m\<rparr>
           (gs_inspector st) = (behavioral, i')"
  shows "ValidateWrite g env c m key st =
     store_write g env (redact c) (pii c) (boundKeyFor (Some (principalFromMap m))) (sourceClassFromMap m)
       (detected c @ fs @ behavioral) (st\<lparr>gs_baselines := bs', gs_inspector := i'\<rparr>)"
  using assms by (simp add: ValidateWrite_def Let_def case_prod_beta)

text \<open>The routing flags of a write that passed the gates are those of the detector stage.\<close>

lemma routing:
  assumes "\<not> injected c" and "key_stage g key r att bs = (fs, rej, bs')"
    and "inspect_stage g now c ctx i = (behavioral, i')"
  shows "injection_suspected \<notin> set (detected c @ fs @ behavioral)"
    and "borderline_suspected \<in> set (detected c @ fs @ behavioral) \<longleftrightarrow> borderline c"
  using key_stage_routing [OF assms(2)] inspect_stage_routing [OF assms(3)] assms(1) by auto

lemma write_cases:
  obtains (injection) "injected c"
  | (rejected) fs bs' where "\<not> injected c"
      and "key_stage g (firstKey key) (redact c) (Attested (principalFromMap m)) (gs_baselines st) = (fs, True, bs')"
  | (stored) fs bs' behavioral i' where "\<not> injected c"
      and "key_stage g (firstKey key) (redact c) (Attested (principalFromMap m)) (gs_baselines st) = (fs, False, bs')"
      and "inspect_stage g (ge_clock env) c
           \<lparr>wc_Key = boundKeyFor (Some (principalFromMap m)), wc_SourceClass = writeProvenanceHint m\<rparr>
           (gs_inspector st) = (behavioral, i')"
proof (cases "injected c")
  case False
  obtain fs rej bs' where ks: "key_stage g (firstKey key) (redact c) (Attested (principalFromMap m))
      (gs_baselines st) = (fs, rej, bs')" by (metis prod_cases3)
  obtain behavioral i' where "inspect_stage g (ge_clock env) c
      \<lparr>wc_Key = boundKeyFor (Some (principalFromMap m)), wc_SourceClass = writeProvenanceHint m\<rparr>
      (gs_inspector st) = (behavioral, i')" by (metis surj_pair)
  with False ks rejected stored show thesis by (cases rej) auto
qed (rule injection)

end

section \<open>What a write does\<close>

definition minted :: "guard_env \<Rightarrow> string" where
  "minted env = ''mem-'' @ randHex 6 (ge_rand env)"

text \<open>A write is accepted when neither the injection gate nor the key policy stops it.\<close>

definition write_accepted ::
  "('s, 'i, 'k) memory_guard \<Rightarrow> string \<Rightarrow> identity \<Rightarrow> string list \<Rightarrow> baselines \<Rightarrow> bool" where
  "write_accepted g c m key bs \<longleftrightarrow>
     det_DetectInjection (mg_det g) c = [] \<and>
     \<not> fst (snd (key_stage g (firstKey key) (fst (det_RedactPII (mg_det g) c)) (Attested (principalFromMap m)) bs))"

definition write_state :: "('s, 'i, 'k) memory_guard \<Rightarrow> string \<Rightarrow> identity \<Rightarrow> string list \<Rightarrow> baselines \<Rightarrow> string" where
  "write_state g c m key bs =
     (if \<not> write_accepted g c m key bs then ''block''
      else if det_DetectBorderline (mg_det g) c \<noteq> [] then ''quarantine'' else ''allow'')"

text \<open>The entry a write stores, but for its flags.\<close>

definition entry_of_write :: "('s, 'i, 'k) memory_guard \<Rightarrow> string \<Rightarrow> identity \<Rightarrow> string list \<Rightarrow> entry" where
  "entry_of_write g c m flags =
     \<lparr>e_content = fst (det_RedactPII (mg_det g) c), e_boundIdentity = boundKeyFor (Some (principalFromMap m)),
      e_sourceClass = sourceClassFromMap m, e_flags = flags,
      e_quarantined = (det_DetectBorderline (mg_det g) c \<noteq> [])\<rparr>"

text \<open>The event of a write, when it has one.\<close>

definition write_event ::
  "('s, 'i, 'k) memory_guard \<Rightarrow> guard_env \<Rightarrow> string \<Rightarrow> identity \<Rightarrow> write_response \<Rightarrow> OCSFEvent option" where
  "write_event g env c m r =
     (if det_DetectInjection (mg_det g) c \<noteq> [] then
        Some (BuildInjectionRejectedEvent (ge_now env) (wr_flags r) (sourceClassFromMap m))
      else if wr_allow r \<and> snd (det_RedactPII (mg_det g) c) \<noteq> [] then
        Some (BuildPIIRedactionEvent (ge_now env) (wr_flags r) (minted env) (sourceClassFromMap m))
      else None)"

definition emit_option :: "'k audit_sink option \<Rightarrow> OCSFEvent option \<Rightarrow> 'k \<Rightarrow> 'k" where
  "emit_option sink ev k = (case ev of None \<Rightarrow> k | Some e \<Rightarrow> emitSafe sink e k)"

context guard_over
begin

text \<open>The last branch of \<open>write_cases\<close> with its routing resolved.\<close>

lemma write_stored_entry:
  assumes "\<not> injected c"
    and "key_stage g (firstKey key) (redact c) (Attested (principalFromMap m)) (gs_baselines st) = (fs, False, bs')"
    and "inspect_stage g (ge_clock env) c
           \<lparr>wc_Key = boundKeyFor (Some (principalFromMap m)), wc_SourceClass = writeProvenanceHint m\<rparr>
           (gs_inspector st) = (behavioral, i')"
  defines "flags \<equiv> detected c @ fs @ behavioral"
  shows "ValidateWrite g env c m key st =
     (\<lparr>wr_allow = True, wr_stored_id = Some (minted env),
       wr_state = (if borderline c then ''quarantine'' else ''allow''), wr_flags = flags\<rparr>,
      st\<lparr>gs_baselines := bs', gs_inspector := i',
         gs_store := ms_Put (mg_store g) (minted env) (entry_of_write g c m flags) (gs_store st),
         gs_sink := (if pii c \<noteq> [] then emitSafe (mg_audit g)
             (BuildPIIRedactionEvent (ge_now env) flags (minted env) (sourceClassFromMap m)) (gs_sink st)
           else gs_sink st)\<rparr>)"
proof -
  have "contains flags ''borderline_suspected'' = borderline c"
    using routing(2) [OF assms(1-3)] by (simp add: flags_def)
  then show ?thesis
    unfolding write_stored [OF assms(1-3)] store_write_def flags_def [symmetric]
    by (simp add: Let_def minted_def entry_of_write_def del: contains_iff)
qed

text \<open>A write without a key, under no inspector, of a text that is its own redaction.\<close>

lemma write_bare:
  assumes "\<not> injected c" and "mg_inspector g = None" and "det_RedactPII (mg_det g) c = (c, [])"
  defines "flags \<equiv> det_DetectBorderline (mg_det g) c"
  shows "ValidateWrite g env c m [] st =
     (\<lparr>wr_allow = True, wr_stored_id = Some (minted env),
       wr_state = (if flags = [] then ''allow'' else ''quarantine''), wr_flags = flags\<rparr>,
      st\<lparr>gs_store := ms_Put (mg_store g) (minted env) (entry_of_write g c m flags) (gs_store st)\<rparr>)"
proof -
  have ks: "key_stage g (firstKey []) x att bs = ([], False, bs)" for x att bs
    by (simp add: key_stage_def firstKey_def)
  have ins: "inspect_stage g now c ctx i = ([], i)" for now ctx i
    by (simp add: inspect_stage_def assms(2))
  from write_stored_entry [OF assms(1) ks ins, of env m st] assms(1,3) show ?thesis by (simp add: flags_def)
qed

lemma write_response_shape:
  assumes "ValidateWrite g env c m key st = (r, st')"
  shows "(wr_allow r \<longleftrightarrow> write_accepted g c m key (gs_baselines st)) \<and>
         wr_stored_id r = (if wr_allow r then Some (minted env) else None) \<and>
         wr_state r = write_state g c m key (gs_baselines st)"
  using assms
  by (cases rule: write_cases [where c = c and key = key and m = m and st = st and env = env])
    (auto simp: write_injection write_rejected write_stored_entry write_accepted_def write_state_def)

lemma write_store:
  assumes "ValidateWrite g env c m key st = (r, st')"
  shows "gs_store st' =
     (if wr_allow r then ms_Put (mg_store g) (minted env) (entry_of_write g c m (wr_flags r)) (gs_store st)
      else gs_store st)"
  using assms
  by (cases rule: write_cases [where c = c and key = key and m = m and st = st and env = env])
    (auto simp: write_injection write_rejected write_stored_entry)

lemma write_sink:
  assumes "ValidateWrite g env c m key st = (r, st')"
  shows "gs_sink st' = emit_option (mg_audit g) (write_event g env c m r) (gs_sink st)"
  using assms
  by (cases rule: write_cases [where c = c and key = key and m = m and st = st and env = env])
    (auto simp: write_injection write_rejected write_stored_entry write_event_def emit_option_def)

lemma write_baselines:
  assumes "ValidateWrite g env c m key st = (r, st')"
  shows "gs_baselines st' =
     (if injected c then gs_baselines st
      else snd (snd (key_stage g (firstKey key) (redact c) (Attested (principalFromMap m)) (gs_baselines st))))"
  using assms
  by (cases rule: write_cases [where c = c and key = key and m = m and st = st and env = env])
    (auto simp: write_injection write_rejected write_stored_entry)

text \<open>The flags: the detectors', then the policy's, then the inspector's.\<close>

lemma write_flags:
  assumes "ValidateWrite g env c m key st = (r, st')"
  obtains fs where "wr_flags r = detected c @ fs" and "injection_suspected \<notin> set fs" and "borderline_suspected \<notin> set fs"
  using assms
proof (cases rule: write_cases [where c = c and key = key and m = m and st = st and env = env])
  case injection
  with assms that [of "[]"] show ?thesis by (auto simp: write_injection)
next
  case (rejected fs bs')
  from assms write_rejected [OF rejected, of env] have "wr_flags r = detected c @ fs" by auto
  then show ?thesis by (rule that) (use key_stage_routing [OF rejected(2)] in blast)+
next
  case (stored fs bs' behavioral i')
  from assms write_stored_entry [OF stored] have "wr_flags r = detected c @ fs @ behavioral" by auto
  then show ?thesis
    by (rule that)
      (use key_stage_routing [OF stored(2)] inspect_stage_routing [OF stored(3)] in \<open>simp; blast\<close>)+
qed

lemma write_flag_origin:
  assumes "ValidateWrite g env c m key st = (r, st')"
  shows "set (wr_flags r) \<subseteq> set (detected c) \<union> {protectedKeyViolationFlag, immutableMismatchFlag} \<union>
     (\<Union>now ctx i. set (fst (inspect_stage g now c ctx i)))"
  using assms
proof (cases rule: write_cases [where c = c and key = key and m = m and st = st and env = env])
  case injection
  with assms show ?thesis by (auto simp: write_injection)
next
  case (rejected fs bs')
  from assms write_rejected [OF rejected, of env] have "wr_flags r = detected c @ fs" by auto
  moreover have "set fs \<subseteq> {protectedKeyViolationFlag, immutableMismatchFlag}"
    using key_stage_flags rejected(2) by (metis fst_conv)
  ultimately show ?thesis by (simp only: set_append) blast
next
  case (stored fs bs' behavioral i')
  from assms write_stored_entry [OF stored] have "wr_flags r = detected c @ fs @ behavioral" by auto
  moreover have "set fs \<subseteq> {protectedKeyViolationFlag, immutableMismatchFlag}"
    using key_stage_flags stored(2) by (metis fst_conv)
  moreover have "set behavioral \<subseteq> (\<Union>now ctx i. set (fst (inspect_stage g now c ctx i)))"
    unfolding arg_cong [OF stored(3), of fst, unfolded fst_conv, symmetric] by blast
  ultimately show ?thesis by (simp only: set_append) blast
qed

end

section \<open>Invariant\<close>

text \<open>What is true of every stored entry: it is the redaction of a text that passed the injection
  gate, it is quarantined exactly when that text is borderline, its routing flags say so, its
  provenance is one of the five recognized values.\<close>

definition entry_wf :: "detector \<Rightarrow> entry \<Rightarrow> bool" where
  "entry_wf det e \<longleftrightarrow>
     (\<exists>c. det_DetectInjection det c = [] \<and> e_content e = fst (det_RedactPII det c) \<and>
        e_quarantined e = (det_DetectBorderline det c \<noteq> [])) \<and>
     injection_suspected \<notin> set (e_flags e) \<and>
     (borderline_suspected \<in> set (e_flags e) \<longleftrightarrow> e_quarantined e) \<and>
     e_sourceClass e \<in> {sourceClassExternalTool, sourceClassUserInput, sourceClassAgentAuthored,
                        sourceClassSystem, sourceClassUnknown}"

text \<open>What the calls and replies of a run say the store holds: an accepted write puts its entry
  under the id it was told, a deletion removes the id, nothing else has an effect.\<close>

fun log_step :: "('s, 'i, 'k) memory_guard \<Rightarrow> guard_call \<times> guard_reply \<Rightarrow> (string \<rightharpoonup> entry) \<Rightarrow> (string \<rightharpoonup> entry)" where
  "log_step g (CWrite env c m key, RWrite r) es =
     (case wr_stored_id r of None \<Rightarrow> es | Some i \<Rightarrow> es(i \<mapsto> entry_of_write g c m (wr_flags r)))"
| "log_step g (CDeleteEntry env i, _) es = es(i := None)"
| "log_step g (_, _) es = es"

definition log_of :: "('s, 'i, 'k) memory_guard \<Rightarrow> guard_call list \<Rightarrow> guard_reply list \<Rightarrow> (string \<rightharpoonup> entry) \<Rightarrow> (string \<rightharpoonup> entry)" where
  "log_of g cs rs es = fold (log_step g) (zip cs rs) es"

text \<open>The events of a run, in order.\<close>

fun call_event :: "('s, 'i, 'k) memory_guard \<Rightarrow> guard_call \<times> guard_reply \<Rightarrow> OCSFEvent option" where
  "call_event g (CWrite env c m key, RWrite r) = write_event g env c m r"
| "call_event g (CDeleteEntry env i, RDelete r) =
     Some (BuildDeletionEvent (ge_now env) (dr_deletion_hash r) (dr_residue_detected r)
       (if dr_residue_detected r then [''residue_detected''] else []))"
| "call_event g (_, _) = None"

definition run_events :: "('s, 'i, 'k) memory_guard \<Rightarrow> guard_call list \<Rightarrow> guard_reply list \<Rightarrow> OCSFEvent list" where
  "run_events g cs rs = List.map_filter (call_event g) (zip cs rs)"

text \<open>What a reader with this identity may see of a stored entry, for a query.\<close>

definition visible_keys :: "identity \<Rightarrow> string list" where
  "visible_keys m = [fst (readerVisibilityKey (Some (principalFromMap m))), sharedScopeKey]"

definition readable :: "identity \<Rightarrow> string \<Rightarrow> entry \<Rightarrow> bool" where
  "readable m query e \<longleftrightarrow>
     str_contains (e_content e) query \<and> e_boundIdentity e \<in> set (visible_keys m) \<and> \<not> e_quarantined e"

lemma delete_sink:
  "VerifyDelete g env i st = (r, st') \<Longrightarrow>
     gs_sink st' = emit_option (mg_audit g) (call_event g (CDeleteEntry env i, RDelete r)) (gs_sink st)"
  by (auto simp: VerifyDelete_def Let_def emit_option_def case_prod_beta)

lemma run_events_Cons [simp]:
  "run_events g (c # cs) (r # rs) =
     (case call_event g (c, r) of None \<Rightarrow> run_events g cs rs | Some e \<Rightarrow> e # run_events g cs rs)"
  by (simp add: run_events_def map_filter_simps split: option.split)

lemma run_events_Nil [simp]: "run_events g [] rs = []"
  by (simp add: run_events_def map_filter_simps)

lemma log_of_Cons [simp]: "log_of g (c # cs) (r # rs) es = log_of g cs rs (log_step g (c, r) es)"
  by (simp add: log_of_def)

lemma log_of_Nil [simp]: "log_of g [] rs es = es"
  by (simp add: log_of_def)

text \<open>The backing can hold what an accepted write stores.\<close>

fun reply_ok ::
  "('s, 'i, 'k) memory_guard \<Rightarrow> (string \<Rightarrow> entry \<Rightarrow> bool) \<Rightarrow> guard_call \<times> guard_reply \<Rightarrow> bool" where
  "reply_ok g ok (CWrite env c m key, RWrite r) =
     (case wr_stored_id r of None \<Rightarrow> True | Some i \<Rightarrow> ok i (entry_of_write g c m (wr_flags r)))"
| "reply_ok g ok (_, _) = True"

definition run_ok ::
  "('s, 'i, 'k) memory_guard \<Rightarrow> (string \<Rightarrow> entry \<Rightarrow> bool) \<Rightarrow> guard_call list \<Rightarrow> guard_reply list \<Rightarrow> bool" where
  "run_ok g ok cs rs = list_all (reply_ok g ok) (zip cs rs)"

lemma reply_ok_True [simp]: "reply_ok g (\<lambda>_ _. True) x"
  by (cases "(g, \<lambda>_ :: string. \<lambda>_ :: entry. True, x)" rule: reply_ok.cases) (simp_all split: option.split)

lemma run_ok_True [simp]: "run_ok g (\<lambda>_ _. True) cs rs"
  by (simp add: run_ok_def list_all_iff)

lemma run_ok_Cons [simp]: "run_ok g ok (c # cs) (r # rs) \<longleftrightarrow> reply_ok g ok (c, r) \<and> run_ok g ok cs rs"
  by (simp add: run_ok_def)

context guard_over
begin

lemma delete_result:
  assumes "VerifyDelete g env i st = (r, st')" and "inv (gs_store st)"
  shows "dr_confirmed r"
    and "inv (gs_store st')" and "abs (gs_store st') = (abs (gs_store st))(i := None)"
    and "gs_baselines st' = gs_baselines st" and "gs_inspector st' = gs_inspector st"
    and "dr_deletion_hash r = deletionHash i (case abs (gs_store st) i of None \<Rightarrow> [] | Some e \<Rightarrow> e_content e)"
  using assms
  by (auto simp: VerifyDelete_def Let_def case_prod_beta st.get_abs st.delete_abs st.delete_inv zero_entry_def
      split: option.splits)

lemma write_store_abs:
  assumes "ValidateWrite g env c m key st = (r, st')" and "inv (gs_store st)"
    and "reply_ok g ok (CWrite env c m key, RWrite r)"
  shows "inv (gs_store st')"
    and "abs (gs_store st') = log_step g (CWrite env c m key, RWrite r) (abs (gs_store st))"
  using write_store [OF assms(1)] write_response_shape [OF assms(1)] assms(2,3)
  by (auto simp: st.put_inv st.put_abs)

lemma write_entry_wf:
  assumes "ValidateWrite g env c m key st = (r, st')" and "wr_allow r"
  shows "entry_wf (mg_det g) (entry_of_write g c m (wr_flags r))"
proof -
  have ni: "\<not> injected c" using assms write_response_shape [OF assms(1)] by (auto simp: write_accepted_def)
  from write_flags [OF assms(1)] obtain fs where "wr_flags r = detected c @ fs"
    and "injection_suspected \<notin> set fs" and "borderline_suspected \<notin> set fs" by blast
  with ni show ?thesis
    using sourceClassFromMap_range [of m] by (auto simp: entry_wf_def entry_of_write_def)
qed

lemma step_log:
  assumes "guard_step g call st = (r, st')" and "inv (gs_store st)" and "reply_ok g ok (call, r)"
  shows "inv (gs_store st')" and "abs (gs_store st') = log_step g (call, r) (abs (gs_store st))"
    and "gs_sink st' = emit_option (mg_audit g) (call_event g (call, r)) (gs_sink st)"
  using assms
  by (cases call; auto simp: emit_option_def split: prod.splits
      dest: write_store_abs write_sink delete_result delete_sink)+

lemma run_log:
  assumes "guard_run g cs st = (rs, st')" and "inv (gs_store st)" and "run_ok g ok cs rs"
  shows "inv (gs_store st') \<and> abs (gs_store st') = log_of g cs rs (abs (gs_store st)) \<and>
         gs_sink st' = fold (emitSafe (mg_audit g)) (run_events g cs rs) (gs_sink st) \<and>
         length rs = length cs"
  using assms
proof (induction cs arbitrary: st rs)
  case (Cons c cs)
  obtain r st1 where step: "guard_step g c st = (r, st1)" by (cases "guard_step g c st")
  obtain rs1 where run: "guard_run g cs st1 = (rs1, st')" and rs: "rs = r # rs1"
    using Cons.prems(1) step by (auto split: prod.splits)
  from Cons.prems(3) have ok: "reply_ok g ok (c, r)" "run_ok g ok cs rs1" by (simp_all add: rs)
  note step = step_log [OF step Cons.prems(2) ok(1)]
  from Cons.IH [OF run step(1) ok(2)] step(2,3)
  show ?case by (auto simp: rs emit_option_def split: option.splits)
qed simp

lemma step_wf:
  assumes "guard_step g call st = (r, st')" and "inv (gs_store st)" and "reply_ok g ok (call, r)"
    and "\<forall>e \<in> ran (abs (gs_store st)). entry_wf (mg_det g) e"
  shows "\<forall>e \<in> ran (abs (gs_store st')). entry_wf (mg_det g) e"
proof (cases call)
  case (CWrite env c m key)
  then obtain w where w: "ValidateWrite g env c m key st = (w, st')" "r = RWrite w"
    using assms(1) by (auto split: prod.splits)
  show ?thesis
    using write_entry_wf [OF w(1)] write_store_abs(2) [OF w(1) assms(2) assms(3) [unfolded CWrite w(2)]] write_response_shape [OF w(1)] assms(4)
    by (auto simp: ran_def split: if_splits)
next
  case (CDeleteEntry env i)
  with step_log(2) [OF assms(1-3)] assms(4) show ?thesis by (auto simp: ran_def split: if_splits)
qed (use step_log(2) [OF assms(1-3)] assms(4) in auto)

lemma run_wf:
  assumes "guard_run g cs st = (rs, st')" and "inv (gs_store st)" and "run_ok g ok cs rs"
    and "\<forall>e \<in> ran (abs (gs_store st)). entry_wf (mg_det g) e"
  shows "\<forall>e \<in> ran (abs (gs_store st')). entry_wf (mg_det g) e"
  using assms
proof (induction cs arbitrary: st rs)
  case (Cons c cs)
  obtain r st1 where step: "guard_step g c st = (r, st1)" by (cases "guard_step g c st")
  obtain rs1 where run: "guard_run g cs st1 = (rs1, st')" and rs: "rs = r # rs1"
    using Cons.prems(1) step by (auto split: prod.splits)
  from Cons.prems(3) have ok: "reply_ok g ok (c, r)" "run_ok g ok cs rs1" by (simp_all add: rs)
  from Cons.IH [OF run step_log(1) [OF step Cons.prems(2) ok(1)] ok(2) step_wf [OF step Cons.prems(2) ok(1) Cons.prems(4)]]
  show ?case .
qed simp

end

section \<open>Reads, reviews, deletions\<close>

text \<open>All but the sink's own state.\<close>

definition core :: "('s, 'i, 'k) guard_state \<Rightarrow> 's \<times> 'i \<times> baselines" where
  "core st = (gs_store st, gs_inspector st, gs_baselines st)"

lemma step_sink_irrelevant:
  assumes "core st1 = core st2"
  shows "fst (guard_step (g\<lparr>mg_audit := a\<rparr>) call st1) = fst (guard_step g call st2) \<and>
         core (snd (guard_step (g\<lparr>mg_audit := a\<rparr>) call st1)) = core (snd (guard_step g call st2))"
proof -
  obtain s i b where st1: "gs_store st1 = s" "gs_inspector st1 = i" "gs_baselines st1 = b"
    and st2: "gs_store st2 = s" "gs_inspector st2 = i" "gs_baselines st2 = b"
    using assms by (auto simp: core_def)
  show ?thesis
  proof (cases call)
    case (CWrite env c m key)
    show ?thesis
      by (simp add: CWrite ValidateWrite_def store_write_def key_stage_def inspect_stage_def core_def
          Let_def case_prod_beta st1 st2)
  qed (simp_all add: ValidateRead_def ReviewQuarantine_def VerifyDelete_def core_def Let_def
        case_prod_beta st1 st2 split: option.splits)
qed

lemma run_sink_irrelevant:
  assumes "core st1 = core st2"
  shows "fst (guard_run (g\<lparr>mg_audit := a\<rparr>) cs st1) = fst (guard_run g cs st2) \<and>
         core (snd (guard_run (g\<lparr>mg_audit := a\<rparr>) cs st1)) = core (snd (guard_run g cs st2))"
  using assms
proof (induction cs arbitrary: st1 st2)
  case (Cons c cs)
  from step_sink_irrelevant [OF Cons.prems, where g = g and a = a and call = c] Cons.IH [of "snd (guard_step (g\<lparr>mg_audit := a\<rparr>) c st1)"
      "snd (guard_step g c st2)"]
  show ?case by (simp add: Let_def case_prod_beta)
qed simp

text \<open>The keyed writes of a run that reach the policy stage.\<close>

definition policy_writes :: "('s, 'i, 'k) memory_guard \<Rightarrow> guard_call list \<Rightarrow> keyed_write list" where
  "policy_writes g = List.map_filter (\<lambda>call. case call of
     CWrite env c m key \<Rightarrow>
       if det_DetectInjection (mg_det g) c = [] \<and> firstKey key \<noteq> []
       then Some (firstKey key, fst (det_RedactPII (mg_det g) c), Attested (principalFromMap m)) else None
   | _ \<Rightarrow> None)"

lemma run_policy_append: "run_policy policy (xs @ ys) bs = run_policy policy ys (run_policy policy xs bs)"
  by (induction policy xs bs rule: run_policy.induct) auto

context guard_over
begin

lemma step_baselines:
  assumes "guard_step g call st = (r, st')" and "inv (gs_store st)"
  shows "gs_baselines st' = run_policy (mg_keyPolicy g) (policy_writes g [call]) (gs_baselines st)"
proof (cases call)
  case (CWrite env c m key)
  then obtain w where "ValidateWrite g env c m key st = (w, st')"
    using assms(1) by (auto split: prod.splits)
  from write_baselines [OF this] CWrite show ?thesis
    by (simp add: policy_writes_def map_filter_simps key_stage_def)
next
  case (CDeleteEntry env i)
  with assms show ?thesis
    by (auto simp: policy_writes_def map_filter_simps dest: delete_result split: prod.splits)
qed (use assms(1) in \<open>auto simp: policy_writes_def map_filter_simps\<close>)

lemma run_baselines:
  assumes "guard_run g cs st = (rs, st')" and "inv (gs_store st)" and "run_ok g ok cs rs"
  shows "gs_baselines st' = run_policy (mg_keyPolicy g) (policy_writes g cs) (gs_baselines st)"
  using assms
proof (induction cs arbitrary: st rs)
  case (Cons c cs)
  obtain r st1 where step: "guard_step g c st = (r, st1)" by (cases "guard_step g c st")
  obtain rs1 where run: "guard_run g cs st1 = (rs1, st')" and rs: "rs = r # rs1"
    using Cons.prems(1) step by (auto split: prod.splits)
  from Cons.prems(3) have ok: "reply_ok g ok (c, r)" "run_ok g ok cs rs1" by (simp_all add: rs)
  have "policy_writes g (c # cs) = policy_writes g [c] @ policy_writes g cs"
    by (simp add: policy_writes_def map_filter_simps split: option.split)
  with Cons.IH [OF run step_log(1) [OF step Cons.prems(2) ok(1)] ok(2)] step_baselines [OF step Cons.prems(2)]
  show ?case by (simp add: run_policy_append)
qed (simp add: policy_writes_def map_filter_simps)

text \<open>A read redacts the joined contents of the readable entries, each once, in some order.\<close>

lemma read_answer:
  assumes "inv (gs_store st)"
  obtains hits where
    "mset hits = image_mset e_content (filter_mset (readable m query) (stored (abs (gs_store st))))"
    and "ValidateRead g query m st =
      \<lparr>rr_allow = True, rr_content_redacted = redact (join ''\<newline>'' hits), rr_flags = pii (join ''\<newline>'' hits)\<rparr>"
proof -
  let ?scoped = "ms_ScanScoped (mg_store g) query (visible_keys m) (gs_store st)"
  let ?hits = "map e_content (filter (\<lambda>e. \<not> e_quarantined e) ?scoped)"
  have "mset ?hits = image_mset e_content (filter_mset (\<lambda>e. \<not> e_quarantined e)
      (filter_mset (\<lambda>e. str_contains (e_content e) query \<and> e_boundIdentity e \<in> set (visible_keys m))
        (stored (abs (gs_store st)))))"
    by (simp add: st.scoped_abs [OF assms])
  also have "\<dots> = image_mset e_content (filter_mset (readable m query) (stored (abs (gs_store st))))"
    by (simp add: filter_filter_mset readable_def [abs_def] conj_ac)
  finally show ?thesis
    by (rule that) (simp add: ValidateRead_def Let_def case_prod_beta visible_keys_def)
qed

lemma review_answer:
  assumes "inv (gs_store st)"
  shows "ReviewQuarantine g i st =
     (case abs (gs_store st) i of
        Some e \<Rightarrow>
          if e_quarantined e
          then \<lparr>qr_found = True, qr_content_redacted = redact (e_content e), qr_flags = e_flags e\<rparr>
          else \<lparr>qr_found = False, qr_content_redacted = [], qr_flags = []\<rparr>
      | None \<Rightarrow> \<lparr>qr_found = False, qr_content_redacted = [], qr_flags = []\<rparr>)"
  by (simp add: ReviewQuarantine_def Let_def case_prod_beta st.get_abs [OF assms] split: option.split)

text \<open>The residue verdict does not depend on the backing: it is exactly whether some other entry is a
  hit of the trimmed deleted content.\<close>

lemma delete_residue:
  assumes "VerifyDelete g env i st = (r, st')" and "inv (gs_store st)"
  shows "dr_residue_detected r \<longleftrightarrow>
     (\<exists>e. abs (gs_store st) i = Some e \<and> trim_space (e_content e) \<noteq> [] \<and>
        (\<exists>j e'. j \<noteq> i \<and> abs (gs_store st) j = Some e' \<and>
           survivor_hit (ge_unicode env) (trim_space (e_content e)) (e_content e')))"
proof -
  let ?s = "ms_Delete (mg_store g) i (gs_store st)"
  let ?ix = "ms_AllByIndex (mg_store g) ?s"
  have inv: "inv ?s" and abs: "abs ?s = (abs (gs_store st))(i := None)"
    using assms(2) by (simp_all add: st.delete_inv st.delete_abs)
  have "(\<exists>name es e'. map_of ?ix name = Some es \<and> e' \<in> set es \<and> survivor_hit u d (e_content e')) \<longleftrightarrow>
      (\<exists>j e'. abs ?s j = Some e' \<and> survivor_hit u d (e_content e'))" (is "?L \<longleftrightarrow> ?R") for u d
  proof
    assume ?L
    then show ?R using st.index_content_live [OF inv] by (metis map_of_SomeD)
  next
    assume ?R
    then obtain j e' where e': "abs ?s j = Some e'" "survivor_hit u d (e_content e')" by blast
    obtain es where es: "map_of ?ix primaryIndexName = Some es" "mset es = stored (abs ?s)"
      using st.index_primary [OF inv] by blast
    have "set es = ran (abs ?s)"
      using arg_cong [OF es(2), of set_mset] set_stored [OF st.finite_abs [OF inv]] by simp
    with es(1) e' show ?L by (metis ranI)
  qed
  then have hit: "fst (residueScanIndexes u ord c ?ix) \<longleftrightarrow> trim_space c \<noteq> [] \<and>
      (\<exists>j e'. j \<noteq> i \<and> abs (gs_store st) j = Some e' \<and> survivor_hit u (trim_space c) (e_content e'))" for u ord c
    by (simp add: residueScanIndexes_iff abs) blast
  have r: "dr_residue_detected r = (case abs (gs_store st) i of None \<Rightarrow> False
      | Some e \<Rightarrow> fst (residueScanIndexes (ge_unicode env) (ge_order env) (e_content e) ?ix))"
    using assms(1) by (auto simp: VerifyDelete_def Let_def case_prod_beta st.get_abs [OF assms(2)] split: option.splits)
  show ?thesis unfolding r by (simp add: hit split: option.split)
qed

end

text \<open>A guard over a backing that can hold any entry.\<close>

locale guard_seams = guard_over g abs inv "\<lambda>_ _. True"
  for g :: "('s, 'i, 'k) memory_guard" and abs and inv
begin

lemmas write_store_abs_any = write_store_abs [OF _ _ reply_ok_True]
lemmas run_log_any = run_log [OF _ _ run_ok_True]
lemmas run_wf_any = run_wf [OF _ _ run_ok_True]
lemmas run_baselines_any = run_baselines [OF _ _ run_ok_True]

end

end
