(* ===== verification/Utf8.thy ===== *)
theory Utf8
  imports Prelude
begin

text \<open>
  Facts about the decoding and encoding of runes that Prelude defines: a rune decoded from a string
  encodes to the very bytes it was read from, so replacing bad bytes (\<open>sanitize\<close>) leaves valid UTF-8
  alone.
\<close>

section \<open>Bytes and six-bit groups\<close>

lemma byte_of_eqI: "byte_val c = n \<Longrightarrow> byte_of n = c"
  by auto

lemma six_bits:
  fixes q y :: int
  assumes "0 \<le> y" and "y < 64"
  shows "(q * 64 + y) div 64 = q" and "(q * 64 + y) mod 64 = y"
  using assms by auto

lemma six_bits_twice:
  fixes q y z :: int
  assumes "0 \<le> y" "y < 64" "0 \<le> z" "z < 64"
  shows "(q * 4096 + y * 64 + z) div 64 = q * 64 + y" and "(q * 4096 + y * 64 + z) mod 64 = z"
    and "(q * 4096 + y * 64 + z) div 4096 = q"
proof -
  have r: "q * 4096 + y * 64 + z = (q * 64 + y) * 64 + z" by simp
  show a: "(q * 4096 + y * 64 + z) div 64 = q * 64 + y" unfolding r by (rule six_bits [OF assms(3,4)])
  show "(q * 4096 + y * 64 + z) mod 64 = z" unfolding r by (rule six_bits [OF assms(3,4)])
  have "(q * 4096 + y * 64 + z) div 4096 = (q * 4096 + y * 64 + z) div 64 div 64"
    using zdiv_zmult2_eq [of 64 "q * 4096 + y * 64 + z" 64] by (simp del: div_mult_self1 div_mult_self2)
  then show "(q * 4096 + y * 64 + z) div 4096 = q" unfolding a six_bits [OF assms(1,2)] .
qed

lemma six_bits_thrice:
  fixes q x y z :: int
  assumes "0 \<le> x" "x < 64" "0 \<le> y" "y < 64" "0 \<le> z" "z < 64"
  shows "(q * 262144 + x * 4096 + y * 64 + z) div 64 = (q * 64 + x) * 64 + y"
    and "(q * 262144 + x * 4096 + y * 64 + z) mod 64 = z"
    and "(q * 262144 + x * 4096 + y * 64 + z) div 4096 = q * 64 + x"
    and "(q * 262144 + x * 4096 + y * 64 + z) div 262144 = q"
proof -
  let ?r = "q * 262144 + x * 4096 + y * 64 + z"
  have r: "?r = (q * 64 + x) * 4096 + y * 64 + z" by simp
  show "?r div 64 = (q * 64 + x) * 64 + y" "?r mod 64 = z" and c: "?r div 4096 = q * 64 + x"
    unfolding r by (rule six_bits_twice [OF assms(3-6)])+
  have "?r div 262144 = ?r div 4096 div 64"
    using zdiv_zmult2_eq [of 64 ?r 4096] by (simp only: mult_numeral_left_semiring_numeral num_double numeral_times_numeral)
  then show "?r div 262144 = q" unfolding c six_bits [OF assms(1,2)] .
qed

lemma encode_rune_width:
  "0 \<le> r \<Longrightarrow> r < 0x80 \<Longrightarrow> encode_rune r = [byte_of r]"
  "0x80 \<le> r \<Longrightarrow> r < 0x800 \<Longrightarrow> encode_rune r = [byte_of (0xC0 + r div 64), byte_of (0x80 + r mod 64)]"
  "0x800 \<le> r \<Longrightarrow> r < 0x10000 \<Longrightarrow> \<not> (0xD800 \<le> r \<and> r \<le> 0xDFFF) \<Longrightarrow> encode_rune r =
     [byte_of (0xE0 + r div 4096), byte_of (0x80 + r div 64 mod 64), byte_of (0x80 + r mod 64)]"
  "0x10000 \<le> r \<Longrightarrow> r \<le> 0x10FFFF \<Longrightarrow> encode_rune r =
     [byte_of (0xF0 + r div 262144), byte_of (0x80 + r div 4096 mod 64),
      byte_of (0x80 + r div 64 mod 64), byte_of (0x80 + r mod 64)]"
  by (auto simp: encode_rune_def)

lemma encode_decode2:
  assumes "decode2 (byte_val c) (map byte_val (take 3 s)) = (r, n)" and "\<not> (r = rune_error \<and> n = 1)"
    and "0xC2 \<le> byte_val c" and "byte_val c \<le> 0xDF"
  obtains c1 s' where "s = c1 # s'" and "n = 2" and "encode_rune r = [c, c1]" and "cont_byte (byte_val c1)"
    and "r = (byte_val c - 0xC0) * 64 + (byte_val c1 - 0x80)"
proof -
  from assms(1,2) obtain c1 s' where s: "s = c1 # s'" and b1: "cont_byte (byte_val c1)"
    and r: "r = (byte_val c - 0xC0) * 64 + (byte_val c1 - 0x80)" and n: "n = 2"
    by (cases s) (auto simp: decode2_def split: if_splits)
  have y: "0 \<le> byte_val c1 - 0x80" "byte_val c1 - 0x80 < 64" using b1 by (auto simp: cont_byte_def)
  have "128 \<le> r" using r y assms(3) by auto
  moreover have "r < 2048" using r y assms(4) by auto
  moreover have "r div 64 = byte_val c - 0xC0" "r mod 64 = byte_val c1 - 0x80"
    unfolding r by (rule six_bits [OF y])+
  ultimately have "encode_rune r = [c, c1]" by (simp add: encode_rune_width(2))
  with s b1 r n that show thesis by blast
qed

lemma encode_decode3:
  assumes "decode3 (byte_val c) (map byte_val (take 3 s)) = (r, n)" and "\<not> (r = rune_error \<and> n = 1)"
    and "0xE0 \<le> byte_val c" and "byte_val c \<le> 0xEF"
  obtains c1 c2 s' where "s = c1 # c2 # s'" and "n = 3" and "encode_rune r = [c, c1, c2]"
    and "(if byte_val c = 0xE0 then 0xA0 else 0x80) \<le> byte_val c1"
    and "byte_val c1 \<le> (if byte_val c = 0xED then 0x9F else 0xBF)" and "cont_byte (byte_val c2)"
    and "r = (byte_val c - 0xE0) * 4096 + (byte_val c1 - 0x80) * 64 + (byte_val c2 - 0x80)"
proof -
  from assms(1,2) obtain c1 c2 s' where s: "s = c1 # c2 # s'" and b2: "cont_byte (byte_val c2)"
    and lo: "(if byte_val c = 0xE0 then 0xA0 else 0x80) \<le> byte_val c1"
    and hi: "byte_val c1 \<le> (if byte_val c = 0xED then 0x9F else 0xBF)"
    and r: "r = (byte_val c - 0xE0) * 4096 + (byte_val c1 - 0x80) * 64 + (byte_val c2 - 0x80)" and n: "n = 3"
    by (cases s; cases "tl s") (auto simp: decode3_def split: if_splits)
  have z: "0 \<le> byte_val c2 - 0x80" "byte_val c2 - 0x80 < 64" using b2 by (auto simp: cont_byte_def)
  have y: "0 \<le> byte_val c1 - 0x80" "byte_val c1 - 0x80 < 64" using lo hi by (auto split: if_splits)
  note groups = six_bits_twice [OF y z, of "byte_val c - 0xE0", folded r]
  have "2048 \<le> r" using r y z lo assms(3) by (cases "byte_val c = 0xE0") auto
  moreover have "r < 65536" using r y z assms(4) by auto
  moreover have "\<not> (0xD800 \<le> r \<and> r \<le> 0xDFFF)"
  proof (cases "byte_val c \<le> 0xED")
    case True
    with r y z hi show ?thesis by (cases "byte_val c = 0xED") auto
  qed (use r y z in auto)
  ultimately have enc: "encode_rune r =
      [byte_of (0xE0 + r div 4096), byte_of (0x80 + r div 64 mod 64), byte_of (0x80 + r mod 64)]"
    by (rule encode_rune_width(3))
  have "r div 64 mod 64 = byte_val c1 - 0x80" unfolding groups(1) by (rule six_bits [OF y])
  then have "encode_rune r = [c, c1, c2]" unfolding enc groups(2,3) by simp
  with s b2 lo hi r n that show thesis by blast
qed

lemma encode_decode4:
  assumes "decode4 (byte_val c) (map byte_val (take 3 s)) = (r, n)" and "\<not> (r = rune_error \<and> n = 1)"
    and "0xF0 \<le> byte_val c" and "byte_val c \<le> 0xF4"
  obtains c1 c2 c3 s' where "s = c1 # c2 # c3 # s'" and "n = 4" and "encode_rune r = [c, c1, c2, c3]"
    and "(if byte_val c = 0xF0 then 0x90 else 0x80) \<le> byte_val c1"
    and "byte_val c1 \<le> (if byte_val c = 0xF4 then 0x8F else 0xBF)"
    and "cont_byte (byte_val c2)" and "cont_byte (byte_val c3)"
    and "r = (byte_val c - 0xF0) * 262144 + (byte_val c1 - 0x80) * 4096 + (byte_val c2 - 0x80) * 64 + (byte_val c3 - 0x80)"
proof -
  from assms(1,2) obtain c1 c2 c3 s' where s: "s = c1 # c2 # c3 # s'"
    and b2: "cont_byte (byte_val c2)" and b3: "cont_byte (byte_val c3)"
    and lo: "(if byte_val c = 0xF0 then 0x90 else 0x80) \<le> byte_val c1"
    and hi: "byte_val c1 \<le> (if byte_val c = 0xF4 then 0x8F else 0xBF)"
    and r: "r = (byte_val c - 0xF0) * 262144 + (byte_val c1 - 0x80) * 4096 + (byte_val c2 - 0x80) * 64 + (byte_val c3 - 0x80)"
    and n: "n = 4"
    by (cases s; cases "tl s"; cases "tl (tl s)") (auto simp: decode4_def split: if_splits)
  have z: "0 \<le> byte_val c3 - 0x80" "byte_val c3 - 0x80 < 64" using b3 by (auto simp: cont_byte_def)
  have y: "0 \<le> byte_val c2 - 0x80" "byte_val c2 - 0x80 < 64" using b2 by (auto simp: cont_byte_def)
  have x: "0 \<le> byte_val c1 - 0x80" "byte_val c1 - 0x80 < 64" using lo hi by (auto split: if_splits)
  note groups = six_bits_thrice [OF x y z, of "byte_val c - 0xF0", folded r]
  have "65536 \<le> r" using r x y z lo assms(3) by (cases "byte_val c = 0xF0") auto
  moreover have "r \<le> 0x10FFFF" using r x y z hi assms(4) by (cases "byte_val c = 0xF4") auto
  ultimately have enc: "encode_rune r = [byte_of (0xF0 + r div 262144), byte_of (0x80 + r div 4096 mod 64),
      byte_of (0x80 + r div 64 mod 64), byte_of (0x80 + r mod 64)]"
    by (rule encode_rune_width(4))
  have "r div 64 mod 64 = byte_val c2 - 0x80" unfolding groups(1) by (rule six_bits [OF y])
  moreover have "r div 4096 mod 64 = byte_val c1 - 0x80" unfolding groups(3) by (rule six_bits [OF x])
  ultimately have "encode_rune r = [c, c1, c2, c3]" unfolding enc groups(2,4) by simp
  with s b2 b3 lo hi r n that show thesis by blast
qed

section \<open>Decoding is inverted by encoding\<close>

text \<open>What a well-decoded rune says of the bytes it was read from: they are its encoding, they are
  all there, all but the first are above ASCII, and what follows them does not matter.\<close>

lemma decode_rune_sound:
  assumes "decode_rune c s = (r, n)" and "\<not> (r = rune_error \<and> n = 1)"
  shows "encode_rune r = take n (c # s) \<and> n \<le> length (c # s) \<and> 0 \<le> r \<and>
         (n = 1 \<longleftrightarrow> byte_val c < 128) \<and> (n = 1 \<longrightarrow> r = byte_val c) \<and>
         list_all (\<lambda>b. 128 \<le> byte_val b) (take (n - 1) s) \<and>
         decode_rune c (take (n - 1) s @ t) = (r, n)"
proof -
  consider (1) "byte_val c < 0x80" | (2) "0xC2 \<le> byte_val c" "byte_val c \<le> 0xDF"
    | (3) "0xE0 \<le> byte_val c" "byte_val c \<le> 0xEF" | (4) "0xF0 \<le> byte_val c" "byte_val c \<le> 0xF4"
    | (5) "decode_rune c s = (rune_error, 1)"
    by (fastforce simp: decode_rune_def Let_def)
  then show ?thesis
  proof cases
    case 1
    then have "decode_rune c x = (byte_val c, 1)" for x by (simp add: decode_rune_ascii)
    with assms 1 byte_val_range [of c] show ?thesis by (auto simp: encode_rune_width(1))
  next
    case 2
    have dec: "decode_rune c x = decode2 (byte_val c) (map byte_val (take 3 x))" for x
      using 2 by (simp add: decode_rune_def)
    from assms dec [of s] have d: "decode2 (byte_val c) (map byte_val (take 3 s)) = (r, n)" by simp
    from encode_decode2 [OF d assms(2) 2] obtain c1 s' where "s = c1 # s'" "n = 2" "encode_rune r = [c, c1]"
      and c1: "cont_byte (byte_val c1)" and "r = (byte_val c - 0xC0) * 64 + (byte_val c1 - 0x80)" .
    with 2 show ?thesis unfolding dec by (auto simp: decode2_def cont_byte_def)
  next
    case 3
    have dec: "decode_rune c x = decode3 (byte_val c) (map byte_val (take 3 x))" for x
      using 3 by (simp add: decode_rune_def)
    from assms dec [of s] have d: "decode3 (byte_val c) (map byte_val (take 3 s)) = (r, n)" by simp
    from encode_decode3 [OF d assms(2) 3] obtain c1 c2 s' where "s = c1 # c2 # s'" "n = 3"
      "encode_rune r = [c, c1, c2]" "(if byte_val c = 0xE0 then 0xA0 else 0x80) \<le> byte_val c1"
      "byte_val c1 \<le> (if byte_val c = 0xED then 0x9F else 0xBF)" "cont_byte (byte_val c2)"
      "r = (byte_val c - 0xE0) * 4096 + (byte_val c1 - 0x80) * 64 + (byte_val c2 - 0x80)" .
    with 3 show ?thesis unfolding dec by (simp add: decode3_def) (auto simp: cont_byte_def split: if_splits)
  next
    case 4
    have dec: "decode_rune c x = decode4 (byte_val c) (map byte_val (take 3 x))" for x
      using 4 by (simp add: decode_rune_def)
    from assms dec [of s] have d: "decode4 (byte_val c) (map byte_val (take 3 s)) = (r, n)" by simp
    from encode_decode4 [OF d assms(2) 4] obtain c1 c2 c3 s' where "s = c1 # c2 # c3 # s'" "n = 4"
      "encode_rune r = [c, c1, c2, c3]" "(if byte_val c = 0xF0 then 0x90 else 0x80) \<le> byte_val c1"
      "byte_val c1 \<le> (if byte_val c = 0xF4 then 0x8F else 0xBF)"
      "cont_byte (byte_val c2)" "cont_byte (byte_val c3)"
      "r = (byte_val c - 0xF0) * 262144 + (byte_val c1 - 0x80) * 4096 + (byte_val c2 - 0x80) * 64 + (byte_val c3 - 0x80)" .
    with 4 show ?thesis unfolding dec by (simp add: decode4_def) (auto simp: cont_byte_def split: if_splits)
  next
    case 5
    with assms show ?thesis by simp
  qed
qed

section \<open>Replacing bad bytes\<close>

definition sanitize :: "string \<Rightarrow> string" where
  "sanitize s = concat (map encode_rune (runes s))"

definition valid_utf8 :: "string \<Rightarrow> bool" where
  "valid_utf8 s \<longleftrightarrow> sanitize s = s"

lemma sanitize_Nil [simp]: "sanitize [] = []"
  by (simp add: sanitize_def)

lemma sanitize_Cons:
  "sanitize (c # s) = (case decode_rune c s of (r, n) \<Rightarrow> encode_rune r @ sanitize (drop (n - 1) s))"
  by (simp add: sanitize_def runes.simps(2) split: prod.split)

lemma ascii_byte: "c < CHR 0x80 \<longleftrightarrow> byte_val c < 128"
proof -
  have "(of_char c < (128::nat)) = (int (of_char c) < 128)" by linarith
  then show ?thesis by (simp add: less_char_def of_nat_of_char)
qed

lemma sanitize_ascii: "is_ascii s \<Longrightarrow> sanitize s = s"
proof (induction s)
  case (Cons c s)
  then have "byte_val c < 128" by (simp add: is_ascii_def ascii_byte)
  with Cons byte_val_range [of c] show ?case
    by (simp add: sanitize_Cons decode_rune_ascii encode_rune_width(1) is_ascii_def)
qed simp

lemma valid_utf8_ascii: "is_ascii s \<Longrightarrow> valid_utf8 s"
  by (simp add: valid_utf8_def sanitize_ascii)

lemma all_ascii_utf8: "list_all is_ascii ss \<Longrightarrow> list_all valid_utf8 ss"
  by (induction ss) (simp_all add: valid_utf8_ascii)

end
