(* ===== verification/Presidio.thy ===== *)
theory Presidio
  imports Complex_Main Detector Utf8
begin

text \<open>
  The composite detector of src/detector\_presidio.go: the native recognizers first, then the named
  entities an external analyzer process reports. What that process does is an argument here (theory
  Sidecar has the bytes it exchanges): \<open>start_outcome\<close> says how spawning it went, \<open>sidecar_reply\<close> what
  one exchange over its pipes gave. The life cycle of the process as the detector sees it (started,
  dead) is the record \<open>sidecar\<close>.
\<close>

section \<open>Literal replacement\<close>

text \<open>\<open>strings.ReplaceAll(s, old, new)\<close> for a non-empty \<open>old\<close>: left to right, no overlaps.\<close>

function replace_str :: "string \<Rightarrow> string \<Rightarrow> string \<Rightarrow> string" where
  "replace_str old new s =
     (if old = [] \<or> s = [] then s
      else if prefix old s then new @ replace_str old new (drop (length old) s)
      else hd s # replace_str old new (tl s))"
  by pat_completeness auto
termination
  by (relation "measure (\<lambda>(old, new, s). length s)") (auto simp: prefix_def)

declare replace_str.simps [simp del]

lemma replace_str_absent: "\<not> str_contains s old \<Longrightarrow> replace_str old new s = s"
proof (induction old new s rule: replace_str.induct)
  case (1 old new s)
  show ?case
  proof (cases "old = [] \<or> s = []")
    case False
    then obtain c s' where s: "s = c # s'" by (cases s) auto
    have "\<not> prefix old s" and "\<not> sublist old s'"
      using 1(3) by (auto simp: str_contains_def s sublist_Cons_right)
    with 1(2) False show ?thesis
      by (simp add: s replace_str.simps [of old new "c # s'"] str_contains_def)
  qed (auto simp: replace_str.simps [of old new s])
qed

text \<open>The first occurrence splits the text.\<close>

lemma replace_str_first:
  "old \<noteq> [] \<Longrightarrow> str_contains s old \<Longrightarrow>
     \<exists>pre rest. s = pre @ old @ rest \<and> replace_str old new s = pre @ new @ replace_str old new rest"
proof (induction old new s rule: replace_str.induct)
  case (1 old new s)
  show ?case
  proof (cases "prefix old s")
    case True
    then obtain rest where s: "s = old @ rest" by (auto simp: prefix_def)
    with True 1(3) have "replace_str old new s = [] @ new @ replace_str old new rest"
      by (simp add: replace_str.simps [of old new "old @ rest"])
    with s show ?thesis by blast
  next
    case False
    with 1(3,4) obtain c s' where s: "s = c # s'" and "str_contains s' old"
      by (cases s) (auto simp: str_contains_def sublist_Cons_right)
    with 1(2) [OF _ False] 1(3) obtain pre rest where
      "s' = pre @ old @ rest" "replace_str old new s' = pre @ new @ replace_str old new rest" by auto
    moreover have "replace_str old new s = c # replace_str old new s'"
      using False 1(3) by (simp add: s replace_str.simps [of old new "c # s'"])
    ultimately have "s = (c # pre) @ old @ rest" "replace_str old new s = (c # pre) @ new @ replace_str old new rest"
      by (simp_all add: s)
    then show ?thesis by blast
  qed
qed

text \<open>A replacement by a fenced text brings no hit into a text without one.\<close>

lemma replace_str_keeps_out:
  assumes "old \<noteq> []" and "fenced r new" and "\<not> hit r s"
  shows "\<not> hit r (replace_str old new s)"
  using assms(3)
proof (induction "length s" arbitrary: s rule: less_induct)
  case less
  show ?case
  proof (cases "str_contains s old")
    case True
    from replace_str_first [OF assms(1) this, of new] obtain pre rest where
      s: "s = pre @ old @ rest" and eq: "replace_str old new s = pre @ new @ replace_str old new rest" by blast
    have "\<not> hit r pre" "\<not> hit r rest" using less.prems 
      using hit_append [of r pre "[]"] hit_append [of r rest "pre @ old" "[]"] by (auto simp: s)
    moreover have "length rest < length s" using assms(1) by (simp add: s)
    ultimately show ?thesis using less.hyps [of rest] hit_fenced [OF assms(2)] by (auto simp: eq)
  next
    case False
    with less.prems show ?thesis by (simp add: replace_str_absent)
  qed
qed

section \<open>Configuration and labels\<close>

record presidioConfig =
  pc_pythonBin :: string
  pc_scriptPath :: string
  pc_minScore :: rat

definition presidioEntityLabels :: "(string \<times> string) list" where
  "presidioEntityLabels =
    [(''PERSON'', ''PERSON''), (''LOCATION'', ''LOCATION''), (''NRP'', ''NRP''), (''CRYPTO'', ''CRYPTO''),
     (''MAC_ADDRESS'', ''MAC_ADDRESS''), (''MEDICAL_LICENSE'', ''MEDICAL_LICENSE''),
     (''US_PASSPORT'', ''US_PASSPORT''), (''US_DRIVER_LICENSE'', ''US_DRIVER_LICENSE''),
     (''US_BANK_NUMBER'', ''US_BANK_NUMBER''), (''US_ITIN'', ''US_ITIN''), (''UK_NHS'', ''UK_NHS''),
     (''DATE_TIME'', ''DATE_TIME'')]"

record presidioEntity =
  pe_Type :: string
  pe_Start :: int
  pe_End :: int
  pe_Score :: rat

record PresidioDetector =
  pd_native :: NativeDetector
  pd_pythonBin :: string
  pd_scriptPath :: string
  pd_minScore :: rat

definition NewPresidioDetector :: "presidioConfig \<Rightarrow> PresidioDetector" where
  "NewPresidioDetector cfg =
     \<lparr>pd_native = NewNativeDetector,
      pd_pythonBin = (if pc_pythonBin cfg = [] then ''python3'' else pc_pythonBin cfg),
      pd_scriptPath = (if pc_scriptPath cfg = [] then ''presidio/sidecar.py'' else pc_scriptPath cfg),
      pd_minScore = (if pc_minScore cfg = 0 then 1 / 2 else pc_minScore cfg)\<rparr>"

section \<open>The process\<close>

text \<open>\<open>sc_cmd\<close> says whether a process handle is held, \<open>sc_started\<close> and \<open>sc_dead\<close> are the
  detector's flags.\<close>

record sidecar =
  sc_cmd :: bool
  sc_started :: bool
  sc_dead :: bool

definition fresh_sidecar :: sidecar where
  "fresh_sidecar = \<lparr>sc_cmd = False, sc_started = False, sc_dead = False\<rparr>"

datatype start_outcome =
    StdinPipeFails | StdoutPipeFails | SpawnFails | ReadinessReadFails | ReadinessGarbled | NotReady
  | ProcessReady

text \<open>\<open>None\<close> is a nil error.\<close>

definition startLocked :: "start_outcome \<Rightarrow> sidecar \<Rightarrow> string option \<times> sidecar" where
  "startLocked out s =
     (if sc_started s then (None, s)
      else (case out of
        StdinPipeFails \<Rightarrow> (Some ''sidecar stdin'', s\<lparr>sc_dead := True\<rparr>)
      | StdoutPipeFails \<Rightarrow> (Some ''sidecar stdout'', s\<lparr>sc_dead := True\<rparr>)
      | SpawnFails \<Rightarrow> (Some ''sidecar start'', s\<lparr>sc_dead := True\<rparr>)
      | ReadinessReadFails \<Rightarrow> (Some ''sidecar readiness'', s\<lparr>sc_dead := True\<rparr>)
      | ReadinessGarbled \<Rightarrow> (Some ''sidecar readiness parse'', s\<lparr>sc_dead := True\<rparr>)
      | NotReady \<Rightarrow> (Some ''sidecar not ready'', s\<lparr>sc_dead := True\<rparr>)
      | ProcessReady \<Rightarrow> (None, s\<lparr>sc_cmd := True, sc_started := True, sc_dead := False\<rparr>)))"

text \<open>\<open>Start\<close> and \<open>Close\<close>.\<close>

definition sidecar_Start :: "start_outcome \<Rightarrow> sidecar \<Rightarrow> string option \<times> sidecar" where
  "sidecar_Start out s = startLocked out s"

definition sidecar_Close :: "sidecar \<Rightarrow> sidecar" where
  "sidecar_Close s = (if \<not> sc_cmd s then s else s\<lparr>sc_started := False, sc_cmd := False\<rparr>)"

datatype sidecar_reply =
    WriteFails | ReadFails | Undecodable | Answer (an_entities: "presidioEntity list") (an_error: string)

text \<open>\<open>None\<close> is an error; the caller falls back whatever it says.\<close>

definition analyze ::
  "start_outcome \<Rightarrow> sidecar_reply \<Rightarrow> sidecar \<Rightarrow> presidioEntity list option \<times> sidecar" where
  "analyze out rep s =
     (if sc_dead s then (None, s)
      else
        (case (if sc_started s then (None, s) else startLocked out s) of
          (Some err, s') \<Rightarrow> (None, s')
        | (None, s') \<Rightarrow>
            (case rep of
               WriteFails \<Rightarrow> (None, s'\<lparr>sc_dead := True\<rparr>)
             | ReadFails \<Rightarrow> (None, s'\<lparr>sc_dead := True\<rparr>)
             | Undecodable \<Rightarrow> (None, s'\<lparr>sc_dead := True\<rparr>)
             | Answer es err \<Rightarrow> if err \<noteq> [] then (None, s') else (Some es, s'))))"

section \<open>Redaction\<close>

record nerHit =
  nh_label :: string
  nh_value :: string

text \<open>The loop over the entities: accumulated hits and the keys seen.\<close>

fun ner_step ::
  "PresidioDetector \<Rightarrow> string \<Rightarrow> nerHit list \<times> string list \<Rightarrow> presidioEntity \<Rightarrow> nerHit list \<times> string list" where
  "ner_step d t (hits, seen) e =
     (case map_of presidioEntityLabels (pe_Type e) of
        None \<Rightarrow> (hits, seen)
      | Some label \<Rightarrow>
          if pe_Score e < pd_minScore d then (hits, seen)
          else if pe_Start e < 0 \<or> pe_End e > int (length t) \<or> pe_Start e \<ge> pe_End e then (hits, seen)
          else
            (let value = take (nat (pe_End e - pe_Start e)) (drop (nat (pe_Start e)) t);
                 key = label @ CHR 0x00 # value
             in if key \<in> set seen then (hits, seen)
                else (hits @ [\<lparr>nh_label = label, nh_value = value\<rparr>], seen @ [key])))"

definition ner_hits :: "PresidioDetector \<Rightarrow> string \<Rightarrow> presidioEntity list \<Rightarrow> nerHit list" where
  "ner_hits d t es = fst (foldl (ner_step d t) ([], []) es)"

text \<open>\<open>sort.SliceStable\<close> with longer values first.\<close>

definition longest_first :: "nerHit list \<Rightarrow> nerHit list" where
  "longest_first hits = sort_key (\<lambda>h. - int (length (nh_value h))) hits"

fun overlay :: "string \<times> string list \<Rightarrow> nerHit \<Rightarrow> string \<times> string list" where
  "overlay (redacted, flagSet) h =
     (if str_contains redacted (nh_value h)
      then (replace_str (nh_value h) (''<'' @ nh_label h @ ''>'') redacted,
            List.insert (pii_flag (nh_label h)) flagSet)
      else (redacted, flagSet))"

text \<open>\<open>RedactPII\<close> given what \<open>analyze\<close> returned. The map \<open>flagSet\<close> is its key list without
  repetitions; the final sort makes its order irrelevant.\<close>

definition presidio_RedactPII ::
  "PresidioDetector \<Rightarrow> presidioEntity list option \<Rightarrow> string \<Rightarrow> string \<times> string list" where
  "presidio_RedactPII d answer t =
     (let (nativeRedacted, nativeFlags) = det_RedactPII (native_detector (pd_native d)) t in
      case answer of
        None \<Rightarrow> (nativeRedacted, nativeFlags)
      | Some entities \<Rightarrow>
          (let (redacted, flagSet) =
             foldl overlay (nativeRedacted, remdups nativeFlags) (longest_first (ner_hits d t entities))
           in (redacted, sort flagSet)))"

text \<open>The seam value, for a sidecar that answers \<open>answers t\<close> on text t.\<close>

definition presidio_detector :: "PresidioDetector \<Rightarrow> (string \<Rightarrow> presidioEntity list option) \<Rightarrow> detector" where
  "presidio_detector d answers =
     \<lparr>det_RedactPII = (\<lambda>t. presidio_RedactPII d (answers t) t),
      det_DetectInjection = det_DetectInjection (native_detector (pd_native d)),
      det_DetectBorderline = det_DetectBorderline (native_detector (pd_native d))\<rparr>"

text \<open>One call of \<open>RedactPII\<close>, the process exchange included.\<close>

definition presidio_call ::
  "PresidioDetector \<Rightarrow> start_outcome \<Rightarrow> sidecar_reply \<Rightarrow> string \<Rightarrow> sidecar \<Rightarrow> (string \<times> string list) \<times> sidecar" where
  "presidio_call d out rep t s =
     (let (answer, s') = analyze out rep s in (presidio_RedactPII d answer t, s'))"

section \<open>The overlay adds and never removes\<close>

lemma overlay_fold:
  "foldl overlay (r, fs) hs = (r', fs') \<Longrightarrow>
     set fs \<subseteq> set fs' \<and> set fs' \<subseteq> set fs \<union> (\<lambda>h. pii_flag (nh_label h)) ` set hs \<and>
     (distinct fs \<longrightarrow> distinct fs') \<and> (fs' = [] \<longrightarrow> r' = r)"
proof (induction hs arbitrary: r fs)
  case (Cons h hs)
  show ?case
  proof (cases "str_contains r (nh_value h)")
    case True
    with Cons.prems Cons.IH show ?thesis by fastforce
  next
    case False
    with Cons.prems Cons.IH [of r fs] show ?thesis by auto
  qed
qed simp

text \<open>The hits that the overlay applies, in turn, are some of those it is given.\<close>

definition splice :: "string \<Rightarrow> nerHit \<Rightarrow> string" where
  "splice r h = replace_str (nh_value h) (''<'' @ nh_label h @ ''>'') r"

lemma overlay_splices:
  "foldl overlay (r, fs) hs = (r', fs') \<Longrightarrow>
     \<exists>applied. subseq applied hs \<and> r' = foldl splice r applied \<and>
       set fs' = set fs \<union> (\<lambda>h. pii_flag (nh_label h)) ` set applied"
proof (induction hs arbitrary: r fs)
  case (Cons h hs)
  show ?case
  proof (cases "str_contains r (nh_value h)")
    case True
    with Cons.prems have "foldl overlay (splice r h, List.insert (pii_flag (nh_label h)) fs) hs = (r', fs')"
      by (simp add: splice_def)
    from Cons.IH [OF this] obtain applied where "subseq applied hs" "r' = foldl splice (splice r h) applied"
      "set fs' = set (List.insert (pii_flag (nh_label h)) fs) \<union> (\<lambda>h. pii_flag (nh_label h)) ` set applied" by blast
    then show ?thesis by (intro exI [of _ "h # applied"]) auto
  next
    case False
    with Cons.prems have "foldl overlay (r, fs) hs = (r', fs')" by simp
    from Cons.IH [OF this] show ?thesis by (blast intro: list_emb_Cons)
  qed
qed (intro exI [of _ "[]"], simp)

text \<open>What the analyzer can make the detector look for: labels of the table, parts of the text.\<close>

definition hit_of :: "string \<Rightarrow> nerHit \<Rightarrow> bool" where
  "hit_of t h \<longleftrightarrow> nh_label h \<in> set (map snd presidioEntityLabels) \<and> nh_value h \<noteq> [] \<and> str_contains t (nh_value h)"

lemma slice_contained: "str_contains t (take n (drop m t))"
  unfolding str_contains_def by (metis append_take_drop_id sublist_appendI)

lemma span_hit:
  assumes "map_of presidioEntityLabels ty = Some label" and "0 \<le> a" and "b \<le> int (length t)" and "a < b"
  shows "hit_of t \<lparr>nh_label = label, nh_value = take (nat (b - a)) (drop (nat a) t)\<rparr>"
  using assms slice_contained [of t] map_of_SomeD [OF assms(1)] by (force simp: hit_of_def)

lemma ner_fold_of: "list_all (hit_of t) hits \<Longrightarrow> list_all (hit_of t) (fst (foldl (ner_step d t) (hits, seen) es))"
proof (induction es arbitrary: hits seen)
  case (Cons e es)
  obtain hits' seen' where st: "ner_step d t (hits, seen) e = (hits', seen')" by fastforce
  have "hits' = hits \<or> (\<exists>h. hit_of t h \<and> hits' = hits @ [h])"
    using st span_hit by (auto simp: Let_def split: option.splits if_splits)
  with Cons.prems have "list_all (hit_of t) hits'" by auto
  with Cons.IH [of hits' seen'] show ?case by (simp add: st del: ner_step.simps)
qed simp

lemma ner_hits_of: "list_all (hit_of t) (ner_hits d t es)"
  unfolding ner_hits_def by (rule ner_fold_of) simp

text \<open>The labels cannot be part of an e-mail address, so no splice can make one.\<close>

lemma entity_labels_clean: "list_all (\<lambda>l. \<not> match_string email_re l) (map snd presidioEntityLabels)"
  by code_simp

lemma splices_keep_out:
  "list_all (hit_of t) hs \<Longrightarrow> \<not> hit email_re r \<Longrightarrow> \<not> hit email_re (foldl splice r hs)"
proof (induction hs arbitrary: r)
  case (Cons h hs)
  then have h: "\<not> match_string email_re (nh_label h)" "nh_value h \<noteq> []"
    using entity_labels_clean by (auto simp: list_all_iff hit_of_def)
  have "\<not> hit email_re (splice r h)"
    unfolding splice_def
    by (rule replace_str_keeps_out [OF h(2) fenced_placeholder [OF email_shape(1-3) h(1)] Cons.prems(2)])
  with Cons show ?case by simp
qed simp

text \<open>The composite's answer, from the native one.\<close>

lemma presidio_text:
  assumes "presidio_RedactPII d answer t = (r, fs)"
    and "det_RedactPII (native_detector (pd_native d)) t = (nr, nfs)"
  shows "\<exists>applied. list_all (hit_of t) applied \<and> r = foldl splice nr applied \<and>
     set fs = set nfs \<union> set (map (\<lambda>h. pii_flag (nh_label h)) applied)"
proof (cases answer)
  case None
  with assms show ?thesis by (intro exI [of _ "[]"]) (simp add: presidio_RedactPII_def)
next
  case (Some entities)
  obtain fs' where fold: "foldl overlay (nr, remdups nfs) (longest_first (ner_hits d t entities)) = (r, fs')" "fs = sort fs'"
    using assms Some by (auto simp: presidio_RedactPII_def split: prod.splits)
  from overlay_splices [OF fold(1)] obtain applied where
    app: "subseq applied (longest_first (ner_hits d t entities))" "r = foldl splice nr applied"
      "set fs' = set (remdups nfs) \<union> (\<lambda>h. pii_flag (nh_label h)) ` set applied" by blast
  have "list_all (hit_of t) applied"
    using subseq_subset [OF app(1)] ner_hits_of [of t d entities] by (auto simp: list_all_iff longest_first_def)
  with app(2,3) fold(2) show ?thesis by (intro exI [of _ applied]) simp
qed

lemma native_email_out: "\<not> hit email_re (fst (det_RedactPII (native_detector NewNativeDetector) t))"
  using redact_first_removed [OF email_shape, of NewRegexDetector "''EMAIL''" "tl pii_patterns" t] email_clean_labels
  by (simp add: native_detector_def NewNativeDetector_def NewRegexDetector_def pii_patterns_def
      hit_iff [OF email_shape(1), symmetric])

lemma presidio_flags:
  assumes "presidio_RedactPII d answer t = (r, fs)"
    and "det_RedactPII (native_detector (pd_native d)) t = (nr, nfs)"
  shows "set nfs \<subseteq> set fs \<and> (fs = [] \<longrightarrow> r = nr) \<and> (\<forall>f \<in> set fs. has_prefix f ''pii:'')"
proof (cases answer)
  case None
  with assms show ?thesis
    using native.redaction_flags [of _ "pd_native d" t] by (auto simp: presidio_RedactPII_def)
next
  case (Some entities)
  obtain r' fs' where fold: "foldl overlay (nr, remdups nfs) (longest_first (ner_hits d t entities)) = (r', fs')"
    by fastforce
  have "r = r'" "fs = sort fs'" using assms Some fold by (auto simp: presidio_RedactPII_def)
  moreover have "\<forall>f \<in> set nfs. has_prefix f ''pii:''"
    using native.redaction_flags [of _ "pd_native d" t] assms(2) by auto
  moreover have "has_prefix (pii_flag l) ''pii:''" for l by (simp add: has_prefix_def)
  ultimately show ?thesis using overlay_fold [OF fold] by (auto simp flip: set_empty)
qed

interpretation presidio: detector_seam "presidio_detector d answers" for d answers
proof unfold_locales
  fix t f
  obtain r fs where p: "presidio_RedactPII d (answers t) t = (r, fs)" by fastforce
  obtain nr nfs where n: "det_RedactPII (native_detector (pd_native d)) t = (nr, nfs)" by fastforce
  note flags = presidio_flags [OF p n]
  show "det_DetectInjection (presidio_detector d answers) t \<in> {[], [injection_suspected]}"
    using native.injection_flags [of "pd_native d" t] by (simp add: presidio_detector_def)
  show "det_DetectBorderline (presidio_detector d answers) t \<in> {[], [borderline_suspected]}"
    using native.borderline_flags [of "pd_native d" t] by (simp add: presidio_detector_def)
  show "f \<in> set (snd (det_RedactPII (presidio_detector d answers) t)) \<Longrightarrow> has_prefix f ''pii:''"
    using flags p by (simp add: presidio_detector_def)
  assume "snd (det_RedactPII (presidio_detector d answers) t) = []"
  then show "fst (det_RedactPII (presidio_detector d answers) t) = t"
    using flags p n native.clean_text [of "pd_native d" t] by (simp add: presidio_detector_def)
qed

section \<open>Properties\<close>

text \<open>C31: The composite is never weaker than the native detector. Whatever the analyzer process
  does (does not start, dies while it is written to or read from, answers garbage, an error or any
  list of entities, with spans out of bounds or unknown types), the answer is made from the native
  redaction: in it, one after the other, non-empty parts of the original text are replaced by a
  placeholder with a label of the table, each of which raises its flag, and nothing else happens to
  the text or to the native flags. Over the native detector that the program builds, no e-mail address
  is in the result. Every flag is a redaction flag, and when there is no flag the text is untouched.
  Without an answer the result is the native redaction itself, and a dead process is never spoken
  to again.\<close>

theorem presidio_never_weaker:
  "case presidio_call d out rep t s of ((redacted, flags), s') \<Rightarrow>
     (\<exists>applied :: nerHit list. redacted = foldl (\<lambda>r h. replace_str (nh_value h) (''<'' @ nh_label h @ ''>'') r)
           (fst (det_RedactPII (native_detector (pd_native d)) t)) applied \<and>
        list_all (\<lambda>h. nh_label h \<in> set (map snd presidioEntityLabels) \<and> nh_value h \<noteq> [] \<and>
           str_contains t (nh_value h)) applied \<and>
        set flags = set (snd (det_RedactPII (native_detector (pd_native d)) t)) \<union>
           set (map (\<lambda>h. pii_flag (nh_label h)) applied)) \<and>
     (pd_native d = NewNativeDetector \<longrightarrow> \<not> match_string email_re redacted) \<and>
     list_all (\<lambda>f. has_prefix f ''pii:'') flags \<and>
     (flags = [] \<longrightarrow> redacted = t) \<and>
     (fst (analyze out rep s) = None \<longrightarrow>
        (redacted, flags) = det_RedactPII (native_detector (pd_native d)) t) \<and>
     (sc_dead s \<longrightarrow> fst (analyze out rep s) = None \<and> s' = s)"
proof -
  obtain ans s' where a: "analyze out rep s = (ans, s')" by fastforce
  obtain r fs where p: "presidio_RedactPII d ans t = (r, fs)" by fastforce
  obtain nr nfs where n: "det_RedactPII (native_detector (pd_native d)) t = (nr, nfs)" by fastforce
  obtain applied where app: "list_all (hit_of t) applied" "r = foldl splice nr applied"
    "set fs = set nfs \<union> set (map (\<lambda>h. pii_flag (nh_label h)) applied)"
    using presidio_text [OF p n] by blast
  have "\<not> match_string email_re r" if "pd_native d = NewNativeDetector"
    using splices_keep_out [OF app(1), of nr] native_email_out [of t] n that
    by (simp add: app(2) hit_iff [OF email_shape(1)])
  moreover have "\<exists>applied :: nerHit list. r = foldl (\<lambda>r h. replace_str (nh_value h) (''<'' @ nh_label h @ ''>'') r) nr applied \<and>
      list_all (\<lambda>h. nh_label h \<in> set (map snd presidioEntityLabels) \<and> nh_value h \<noteq> [] \<and> str_contains t (nh_value h)) applied \<and>
      set fs = set nfs \<union> set (map (\<lambda>h. pii_flag (nh_label h)) applied)"
    using app unfolding splice_def [abs_def] hit_of_def [abs_def] by blast
  moreover have "fs = [] \<longrightarrow> r = t"
    using presidio_flags [OF p n] native.clean_text [of "pd_native d" t] n by auto
  moreover have "sc_dead s \<longrightarrow> ans = None \<and> s' = s" using a by (auto simp: analyze_def)
  moreover have "ans = None \<longrightarrow> (r, fs) = (nr, nfs)" using p n by (auto simp: presidio_RedactPII_def)
  ultimately show ?thesis
    using presidio_flags [OF p n]
    by (simp only: presidio_call_def a p n list_all_iff Let_def split fst_conv snd_conv) blast
qed

definition running_sidecar :: sidecar where
  "running_sidecar = \<lparr>sc_cmd = True, sc_started = True, sc_dead = False\<rparr>"

definition default_presidio :: PresidioDetector where
  "default_presidio = NewPresidioDetector \<lparr>pc_pythonBin = [], pc_scriptPath = [], pc_minScore = 0\<rparr>"

theorem presidio_never_weaker_witness:
  "fst (presidio_call default_presidio ProcessReady ReadFails ''to a@b.io'' running_sidecar) =
     (''to <EMAIL>'', [''pii:EMAIL'']) \<and>
   \<not> match_string email_re (fst (fst (presidio_call default_presidio ProcessReady
       (Answer [\<lparr>pe_Type = ''PERSON'', pe_Start = 3, pe_End = 4, pe_Score = 1\<rparr>] []) ''to a@b.io'' running_sidecar)))"
proof -
  have "fst (analyze ProcessReady ReadFails running_sidecar) = None"
    by (simp add: analyze_def running_sidecar_def)
  moreover have "det_RedactPII (native_detector (pd_native default_presidio)) ''to a@b.io'' =
      (''to <EMAIL>'', [''pii:EMAIL''])" by code_simp
  moreover have "pd_native default_presidio = NewNativeDetector"
    by (simp add: default_presidio_def NewPresidioDetector_def)
  ultimately show ?thesis
    using presidio_never_weaker [where d = default_presidio and out = ProcessReady and rep = ReadFails
        and t = "''to a@b.io''" and s = running_sidecar]
      presidio_never_weaker [where d = default_presidio and out = ProcessReady and t = "''to a@b.io''"
        and s = running_sidecar and rep = "Answer [\<lparr>pe_Type = ''PERSON'', pe_Start = 3, pe_End = 4, pe_Score = 1\<rparr>] []"]
    by (auto split: prod.splits)
qed

text \<open>A named entity that touches a native placeholder escapes. Entities are located on the
  original text but replaced by value in the natively redacted one: a person's span that also
  covers a social security number no longer occurs there, so the name stays in the clear and no
  flag is raised, although the analyzer reported it.\<close>

theorem presidio_overlap_leaks:
  "presidio_RedactPII default_presidio
     (Some [\<lparr>pe_Type = ''PERSON'', pe_Start = 0, pe_End = 20, pe_Score = 1\<rparr>]) ''Jane Roe 123-45-6789'' =
     (''Jane Roe <US_SSN>'', [''pii:US_SSN''])"
  by code_simp

text \<open>Replacement by value also rewrites placeholders: the location "US" occurs inside the
  placeholder that the native pass left, which is torn apart.\<close>

theorem presidio_tears_placeholder:
  "presidio_RedactPII default_presidio
     (Some [\<lparr>pe_Type = ''LOCATION'', pe_Start = 0, pe_End = 2, pe_Score = 1\<rparr>]) ''US id 123-45-6789'' =
     (''<LOCATION> id <<LOCATION>_SSN>'', [''pii:LOCATION'', ''pii:US_SSN''])"
  by code_simp

text \<open>\<open>Start\<close> cannot revive a crashed process and does not say so: once a started process has
  failed a write or a read, every later \<open>Start\<close> returns a nil error and changes nothing, so the
  detector stays on native redaction.\<close>

theorem presidio_start_after_crash:
  "case analyze out ReadFails running_sidecar of (answer, s) \<Rightarrow>
     answer = None \<and> sc_dead s \<and> sidecar_Start ProcessReady s = (None, s) \<and>
     analyze ProcessReady (Answer es []) s = (None, s)"
  by (simp add: analyze_def sidecar_Start_def startLocked_def running_sidecar_def)

text \<open>The analyzer is a Python program: the offsets it reports count code points of the text, while the detector
  uses them as byte offsets. \<open>analyzer_span\<close> is what such a process reports for v after u.\<close>

definition code_points :: "string \<Rightarrow> int" where
  "code_points s = int (length (runes s))"

definition analyzer_span :: "string \<Rightarrow> string \<Rightarrow> string \<Rightarrow> rat \<Rightarrow> presidioEntity" where
  "analyzer_span ty u v score =
     \<lparr>pe_Type = ty, pe_Start = code_points u, pe_End = code_points (u @ v), pe_Score = score\<rparr>"

lemma code_points_ascii: "is_ascii s \<Longrightarrow> code_points s = int (length s)"
proof (induction s)
  case (Cons c s)
  then have "byte_val c < 128" "is_ascii s" by (simp_all add: is_ascii_def ascii_byte)
  moreover from this have "decode_rune c s = (byte_val c, 1)" by (simp add: decode_rune_def Let_def)
  ultimately show ?case using Cons.IH by (simp add: code_points_def runes.simps(2))
qed (simp add: code_points_def)

text \<open>On ASCII text the two ways of counting agree. An entity of a known type with enough confidence, reported
  by code points in a text whose beginning and entity are ASCII, is taken up with exactly its own
  text, whatever follows it.\<close>

theorem presidio_ascii_entity_exact:
  assumes "is_ascii u" and "is_ascii v" and "v \<noteq> []"
    and "map_of presidioEntityLabels ty = Some label" and "pd_minScore d \<le> score"
  shows "ner_hits d (u @ v @ rest) [analyzer_span ty u v score] = [\<lparr>nh_label = label, nh_value = v\<rparr>]"
proof -
  have "is_ascii (u @ v)" using assms(1,2) by (simp add: is_ascii_def)
  then have "code_points u = int (length u)" "code_points (u @ v) = int (length u) + int (length v)"
    using assms(1) by (simp_all add: code_points_ascii)
  with assms(3-5) show ?thesis
    by (simp add: ner_hits_def analyzer_span_def Let_def)
qed

theorem presidio_ascii_entity_exact_witness:
  "ner_hits default_presidio ''I met Jane Roe today'' [analyzer_span ''PERSON'' ''I met '' ''Jane Roe'' 1] =
     [\<lparr>nh_label = ''PERSON'', nh_value = ''Jane Roe''\<rparr>]"
proof -
  have "is_ascii ''I met ''" "is_ascii ''Jane Roe''" "map_of presidioEntityLabels ''PERSON'' = Some ''PERSON''" by code_simp+
  moreover have "pd_minScore default_presidio \<le> 1" by (simp add: default_presidio_def NewPresidioDetector_def)
  ultimately show ?thesis
    using presidio_ascii_entity_exact [of "''I met ''" "''Jane Roe''" "''PERSON''" "''PERSON''" default_presidio 1 "'' today''"]
    by simp
qed

text \<open>Behind accented letters the spans slip: each two-byte letter before the name moves the slice one byte
  to the left. After nine of them the slice misses the reported name altogether: the letters are
  replaced, the name stays in the clear, and the flag says that a person was redacted.\<close>

definition accents :: "nat \<Rightarrow> string" where
  "accents n = concat (replicate n [CHR 0xC3, CHR 0xA9])"

theorem presidio_code_points_leak:
  "presidio_RedactPII default_presidio
     (Some [analyzer_span ''PERSON'' (accents 9 @ '' '') ''Jane Roe'' 1]) (accents 9 @ '' Jane Roe'') =
     (''<PERSON><PERSON>'' @ accents 1 @ '' Jane Roe'', [''pii:PERSON''])"
  by code_simp

end
