(* ===== verification/Json.thy ===== *)
theory Json
  imports Complex_Main Principal Utf8
begin

text \<open>
  The part of Go's encoding/json that the source relies on: \<open>json.Marshal\<close> of strings, objects,
  arrays, booleans and null with HTML escaping on, and \<open>json.Unmarshal\<close> into a generic value.
  Text is bytes. Invalid UTF-8 is not an error for Go: the encoder and the decoder both replace
  each bad byte by U+FFFD. The decoder's recursion has a fuel; \<open>parse_fuel\<close> shows that beyond twice
  the length of the text, which \<open>json_parse\<close> provides, more fuel makes no difference. Writers differ in
  how they escape and where they put whitespace: the locale \<open>json_printer\<close> says what a writer must
  keep for its text to be read back, and has the compact form as its first interpretation.
\<close>

section \<open>Strings\<close>

abbreviation backslash :: char where
  "backslash \<equiv> CHR 0x5C"

abbreviation quote_char :: char where
  "quote_char \<equiv> CHR 0x22"

text \<open>An ASCII byte: quotes, backslashes and control characters are escaped, and so are the HTML
  characters less-than, greater-than and ampersand.\<close>

definition esc_ascii :: "char \<Rightarrow> string" where
  "esc_ascii c =
     (if c = quote_char \<or> c = backslash then [backslash, c]
      else if c = CHR 0x08 then [backslash, CHR ''b'']
      else if c = CHR 0x0C then [backslash, CHR ''f'']
      else if c = CHR 0x0A then [backslash, CHR ''n'']
      else if c = CHR 0x0D then [backslash, CHR ''r'']
      else if c = CHR 0x09 then [backslash, CHR ''t'']
      else if byte_val c < 32 \<or> c = CHR ''<'' \<or> c = CHR ''>'' \<or> c = CHR ''&''
           then backslash # ''u00'' @ hex_byte c
      else [c])"

definition u_escape :: "rune \<Rightarrow> string" where
  "u_escape r = backslash # CHR ''u'' # concat (map hex_byte [byte_of (r div 256), byte_of (r mod 256)])"

text \<open>U+2028 and U+2029 are escaped, a byte that is not UTF-8 becomes an escaped U+FFFD, every other
  rune is copied.\<close>

function esc_string :: "string \<Rightarrow> string" where
  "esc_string [] = []"
| "esc_string (c # s) =
     (let (r, n) = decode_rune c s in
      (if byte_val c < 128 then esc_ascii c
       else if r = rune_error \<and> n = 1 then u_escape rune_error
       else if r = 0x2028 \<or> r = 0x2029 then u_escape r
       else take n (c # s)) @ esc_string (drop (n - 1) s))"
  by pat_completeness auto
termination by (relation "measure length") auto

declare esc_string.simps(2) [simp del]

definition json_string :: "string \<Rightarrow> string" where
  "json_string s = quote_char # esc_string s @ [quote_char]"

text \<open>Four hex digits, either case.\<close>

definition hex_val :: "char \<Rightarrow> int option" where
  "hex_val c =
     (let b = byte_val c in
      if 48 \<le> b \<and> b \<le> 57 then Some (b - 48)
      else if 97 \<le> b \<and> b \<le> 102 then Some (b - 87)
      else if 65 \<le> b \<and> b \<le> 70 then Some (b - 55)
      else None)"

definition hex4 :: "string \<Rightarrow> (rune \<times> string) option" where
  "hex4 s =
     (case s of
        a # b # c # d # rest \<Rightarrow>
          (case (hex_val a, hex_val b, hex_val c, hex_val d) of
             (Some w, Some x, Some y, Some z) \<Rightarrow> Some (w * 4096 + x * 256 + y * 16 + z, rest)
           | _ \<Rightarrow> None)
      | _ \<Rightarrow> None)"

text \<open>The low half of a surrogate pair, if one follows.\<close>

definition low_surrogate :: "string \<Rightarrow> (rune \<times> string) option" where
  "low_surrogate s =
     (case s of
        b # u # s' \<Rightarrow>
          if b = backslash \<and> u = CHR ''u'' then
            (case hex4 s' of
               Some (r, rest) \<Rightarrow> if 0xDC00 \<le> r \<and> r < 0xE000 then Some (r, rest) else None
             | None \<Rightarrow> None)
          else None
      | _ \<Rightarrow> None)"

text \<open>What follows a backslash: the bytes it stands for and the rest. A surrogate without its
  partner stands for U+FFFD.\<close>

definition parse_escape :: "string \<Rightarrow> (string \<times> string) option" where
  "parse_escape s =
     (case s of
        [] \<Rightarrow> None
      | e # s' \<Rightarrow>
          if e = quote_char \<or> e = backslash \<or> e = CHR ''/'' then Some ([e], s')
          else if e = CHR ''b'' then Some ([CHR 0x08], s')
          else if e = CHR ''f'' then Some ([CHR 0x0C], s')
          else if e = CHR ''n'' then Some ([CHR 0x0A], s')
          else if e = CHR ''r'' then Some ([CHR 0x0D], s')
          else if e = CHR ''t'' then Some ([CHR 0x09], s')
          else if e = CHR ''u'' then
            (case hex4 s' of
               None \<Rightarrow> None
             | Some (r, rest) \<Rightarrow>
                 if 0xD800 \<le> r \<and> r < 0xDC00 then
                   (case low_surrogate rest of
                      Some (r2, rest2) \<Rightarrow>
                        Some (encode_rune ((r - 0xD800) * 1024 + (r2 - 0xDC00) + 0x10000), rest2)
                    | None \<Rightarrow> Some (encode_rune rune_error, rest))
                 else Some (encode_rune r, rest))
          else None)"

lemma hex4_shorter: "hex4 s = Some (r, rest) \<Longrightarrow> length rest < length s"
  by (auto simp: hex4_def split: list.splits option.splits)

lemma low_surrogate_shorter: "low_surrogate s = Some (r, rest) \<Longrightarrow> length rest < length s"
  by (auto simp: low_surrogate_def split: list.splits option.splits if_splits dest!: hex4_shorter)

lemma parse_escape_shorter: "parse_escape s = Some (out, rest) \<Longrightarrow> length rest < length s"
  by (auto simp: parse_escape_def split: list.splits option.splits if_splits
      dest!: hex4_shorter low_surrogate_shorter)

lemmas parse_escape_shorter_sym = parse_escape_shorter [OF sym]

text \<open>The contents of a string up to its closing quote, and what follows the quote.\<close>

function parse_str :: "string \<Rightarrow> (string \<times> string) option" where
  "parse_str [] = None"
| "parse_str (c # s) =
     (if c = quote_char then Some ([], s)
      else if c = backslash then
        (case parse_escape s of
           None \<Rightarrow> None
         | Some (out, rest) \<Rightarrow> map_option (apfst ((@) out)) (parse_str rest))
      else if byte_val c < 32 then None
      else (case decode_rune c s of
              (r, n) \<Rightarrow> map_option (apfst ((@) (encode_rune r))) (parse_str (drop (n - 1) s))))"
  by pat_completeness auto
termination
  by (relation "measure length") (auto dest: parse_escape_shorter)

declare parse_str.simps(2) [simp del]

section \<open>Strings round-trip\<close>

lemma hex_val_digit: "0 \<le> d \<Longrightarrow> d < 16 \<Longrightarrow> hex_val (hex_digit d) = Some d"
proof -
  assume "0 \<le> d" "d < 16"
  then have "d \<in> set [0..15]" by simp
  moreover have "list_all (\<lambda>d. hex_val (hex_digit d) = Some d) [0..15]" by code_simp
  ultimately show ?thesis by (auto simp: list_all_iff)
qed

lemma hex4_bytes: "hex4 (hex_byte a @ hex_byte b @ rest) = Some (byte_val a * 256 + byte_val b, rest)"
proof -
  have nib: "hex_val (hex_digit (byte_val c div 16)) = Some (byte_val c div 16)"
    "hex_val (hex_digit (byte_val c mod 16)) = Some (byte_val c mod 16)" for c
    using byte_val_range [of c] by (auto intro!: hex_val_digit)
  have "byte_val a div 16 * 4096 + byte_val a mod 16 * 256 + byte_val b div 16 * 16 + byte_val b mod 16 =
      byte_val a * 256 + byte_val b"
    using div_mult_mod_eq [of "byte_val a" 16] div_mult_mod_eq [of "byte_val b" 16] by linarith
  then show ?thesis by (simp add: hex4_def hex_byte_def nib)
qed

lemma parse_str_escape:
  "parse_str (backslash # s) =
     (case parse_escape s of None \<Rightarrow> None | Some (out, rest) \<Rightarrow> map_option (apfst ((@) out)) (parse_str rest))"
  by (simp add: parse_str.simps(2))

lemma parse_str_quote [simp]: "parse_str (quote_char # s) = Some ([], s)"
  by (simp add: parse_str.simps(2))

lemma parse_escape_u:
  assumes "hex4 s = Some (r, rest)" and "\<not> (0xD800 \<le> r \<and> r < 0xDC00)"
  shows "parse_escape (CHR ''u'' # s) = Some (encode_rune r, rest)"
  using assms by (auto simp: parse_escape_def)

lemma parse_str_u_escape:
  assumes "0 \<le> r" and "r < 65536" and "\<not> (0xD800 \<le> r \<and> r < 0xDC00)"
  shows "parse_str (u_escape r @ s) = map_option (apfst ((@) (encode_rune r))) (parse_str s)"
proof -
  have hi: "byte_val (byte_of (r div 256) :: char) = r div 256" using assms(1,2) by (simp add: mod_pos_pos_trivial)
  have lo: "byte_val (byte_of (r mod 256) :: char) = r mod 256" by simp
  have "hex4 (hex_byte (byte_of (r div 256)) @ hex_byte (byte_of (r mod 256)) @ s) = Some (r, s)"
    unfolding hex4_bytes hi lo by simp
  from parse_escape_u [OF this assms(3)] show ?thesis by (simp add: u_escape_def parse_str_escape)
qed

lemma parse_str_esc_ascii:
  assumes "byte_val c < 128"
  shows "parse_str (esc_ascii c @ s) = map_option (apfst ((@) [c])) (parse_str s)"
proof -
  consider (short) "c = quote_char \<or> c = backslash \<or> c = CHR 0x08 \<or> c = CHR 0x0C \<or> c = CHR 0x0A \<or>
        c = CHR 0x0D \<or> c = CHR 0x09"
    | (hex) "esc_ascii c = backslash # ''u00'' @ hex_byte c"
    | (plain) "esc_ascii c = [c]" "c \<noteq> quote_char" "c \<noteq> backslash" "\<not> byte_val c < 32"
    unfolding esc_ascii_def by argo
  then show ?thesis
  proof cases
    case short
    then show ?thesis
      by (elim disjE) (simp_all add: esc_ascii_def parse_str_escape parse_escape_def)
  next
    case hex
    have "hex_byte CHR 0x00 = ''00''" by code_simp
    then have "esc_ascii c = backslash # CHR ''u'' # hex_byte CHR 0x00 @ hex_byte c" by (simp add: hex)
    moreover have "hex4 (hex_byte CHR 0x00 @ hex_byte c @ s) = Some (byte_val c, s)" by (simp add: hex4_bytes)
    moreover have "encode_rune (byte_val c) = [c]"
      using assms byte_val_range [of c] by (simp add: encode_rune_width(1))
    ultimately show ?thesis using assms by (simp add: parse_str_escape parse_escape_u)
  next
    case plain
    with assms byte_val_range [of c] show ?thesis
      by (simp add: parse_str.simps(2) decode_rune_ascii encode_rune_width(1))
  qed
qed

text \<open>Decoding what was encoded gives the string with its bad bytes replaced, and stops at the
  closing quote.\<close>

lemma parse_esc_string: "parse_str (esc_string s @ quote_char # rest) = Some (sanitize s, rest)"
proof (induction s rule: esc_string.induct)
  case (2 c s)
  obtain r n where dec: "decode_rune c s = (r, n)" by fastforce
  from 2 [OF dec [symmetric] refl]
  have IH: "parse_str (esc_string (drop (n - 1) s) @ quote_char # rest) = Some (sanitize (drop (n - 1) s), rest)" .
  show ?case
  proof (cases "byte_val c < 128")
    case True
    with dec byte_val_range [of c] have "r = byte_val c" "n = 1" "encode_rune r = [c]"
      by (auto simp: decode_rune_ascii encode_rune_width(1))
    with True dec IH show ?thesis
      by (simp add: esc_string.simps(2) sanitize_Cons parse_str_esc_ascii)
  next
    case high: False
    show ?thesis
    proof (cases "r = rune_error \<and> n = 1 \<or> r = 0x2028 \<or> r = 0x2029")
      case True
      then have "(if byte_val c < 128 then esc_ascii c
         else if r = rune_error \<and> n = 1 then u_escape rune_error
         else if r = 0x2028 \<or> r = 0x2029 then u_escape r else take n (c # s)) = u_escape r"
        using high by auto
      then show ?thesis
        using dec IH True
        by (auto simp: esc_string.simps(2) sanitize_Cons parse_str_u_escape rune_error_def)
    next
      case False
      then have good: "\<not> (r = rune_error \<and> n = 1)" by auto
      note sound = decode_rune_sound [OF dec good]
      from sound high decode_rune_width_pos [of c s] dec obtain k where n: "n = Suc k" "k \<le> length s"
        by (cases n) auto
      have "decode_rune c (take k s @ x) = (r, n)" for x using sound n by simp
      moreover have "drop k (take k s @ x) = x" for x using n by simp
      ultimately have "parse_str (c # take k s @ x) = map_option (apfst ((@) (encode_rune r))) (parse_str x)" for x
        using high by (auto simp: parse_str.simps(2) n)
      with False high dec IH show ?thesis
        by (auto simp: esc_string.simps(2) sanitize_Cons n)
    qed
  qed
qed simp

lemma parse_json_string: "parse_str (esc_string s @ quote_char # rest) = Some (s, rest)" if "valid_utf8 s"
  using parse_esc_string [of s rest] that by (simp add: valid_utf8_def)

section \<open>Values\<close>

definition json_ws :: "char \<Rightarrow> bool" where
  "json_ws c \<longleftrightarrow> c = CHR 0x20 \<or> c = CHR 0x09 \<or> c = CHR 0x0A \<or> c = CHR 0x0D"

definition skip_ws :: "string \<Rightarrow> string" where
  "skip_ws s = dropWhile json_ws s"

definition digit_byte :: "char \<Rightarrow> bool" where
  "digit_byte c \<longleftrightarrow> CHR ''0'' \<le> c \<and> c \<le> CHR ''9''"

text \<open>A run of at least one digit after a marker; the empty string where there is no marker.\<close>

definition span_digits :: "string \<Rightarrow> (string \<times> string) option" where
  "span_digits s = (let ds = takeWhile digit_byte s in if ds = [] then None else Some (ds, dropWhile digit_byte s))"

definition num_frac :: "string \<Rightarrow> (string \<times> string) option" where
  "num_frac s =
     (case s of
        c # s' \<Rightarrow> if c = CHR ''.'' then map_option (apfst ((#) c)) (span_digits s') else Some ([], s)
      | [] \<Rightarrow> Some ([], s))"

definition num_exp :: "string \<Rightarrow> (string \<times> string) option" where
  "num_exp s =
     (case s of
        c # s' \<Rightarrow>
          if c = CHR ''e'' \<or> c = CHR ''E'' then
            (case s' of
               x # s'' \<Rightarrow>
                 if x = CHR ''+'' \<or> x = CHR ''-'' then map_option (apfst (\<lambda>ds. c # x # ds)) (span_digits s'')
                 else map_option (apfst ((#) c)) (span_digits s')
             | [] \<Rightarrow> None)
          else Some ([], s)
      | [] \<Rightarrow> Some ([], s))"

text \<open>A number literal and what follows it: no leading zeros, no bare point.\<close>

definition parse_number :: "string \<Rightarrow> (string \<times> string) option" where
  "parse_number s =
     (let neg = (s \<noteq> [] \<and> hd s = CHR ''-'');
          body = (if neg then tl s else s) in
      case span_digits body of
        None \<Rightarrow> None
      | Some (ds, s1) \<Rightarrow>
          if hd ds = CHR ''0'' \<and> tl ds \<noteq> [] then None
          else (case num_frac s1 of
            None \<Rightarrow> None
          | Some (fr, s2) \<Rightarrow>
              (case num_exp s2 of
                 None \<Rightarrow> None
               | Some (ex, s3) \<Rightarrow> Some ((if neg then ''-'' else []) @ ds @ fr @ ex, s3))))"

definition literal_at :: "string \<Rightarrow> json \<Rightarrow> string \<Rightarrow> (json \<times> string) option" where
  "literal_at lit v s = (if prefix lit s then Some (v, drop (length lit) s) else None)"

text \<open>The nesting limit of the scanner.\<close>

definition maxNestingDepth :: nat where
  "maxNestingDepth = 10000"

text \<open>The first argument is the fuel, the second the nesting still allowed.\<close>

fun parse_value :: "nat \<Rightarrow> nat \<Rightarrow> string \<Rightarrow> (json \<times> string) option"
  and parse_elems :: "nat \<Rightarrow> nat \<Rightarrow> string \<Rightarrow> (json list \<times> string) option"
  and parse_members :: "nat \<Rightarrow> nat \<Rightarrow> string \<Rightarrow> ((string \<times> json) list \<times> string) option" where
  "parse_value 0 d s = None"
| "parse_value (Suc f) d s =
     (case skip_ws s of
        [] \<Rightarrow> None
      | c # s' \<Rightarrow>
          if c = quote_char then map_option (apfst JStr) (parse_str s')
          else if c = CHR 0x7B then
            (if d = 0 then None
             else if skip_ws s' \<noteq> [] \<and> hd (skip_ws s') = CHR 0x7D then Some (JObj [], tl (skip_ws s'))
             else map_option (apfst JObj) (parse_members f (d - 1) s'))
          else if c = CHR 0x5B then
            (if d = 0 then None
             else if skip_ws s' \<noteq> [] \<and> hd (skip_ws s') = CHR 0x5D then Some (JArr [], tl (skip_ws s'))
             else map_option (apfst JArr) (parse_elems f (d - 1) s'))
          else if c = CHR ''t'' then literal_at ''true'' (JBool True) (c # s')
          else if c = CHR ''f'' then literal_at ''false'' (JBool False) (c # s')
          else if c = CHR ''n'' then literal_at ''null'' JNull (c # s')
          else map_option (apfst JNum) (parse_number (c # s')))"
| "parse_elems 0 d s = None"
| "parse_elems (Suc f) d s =
     (case parse_value f d s of
        None \<Rightarrow> None
      | Some (v, s1) \<Rightarrow>
          (case skip_ws s1 of
             c # s2 \<Rightarrow>
               if c = CHR '','' then map_option (apfst ((#) v)) (parse_elems f d s2)
               else if c = CHR 0x5D then Some ([v], s2)
               else None
           | [] \<Rightarrow> None))"
| "parse_members 0 d s = None"
| "parse_members (Suc f) d s =
     (case skip_ws s of
        [] \<Rightarrow> None
      | q # s0 \<Rightarrow>
          if q \<noteq> quote_char then None
          else (case parse_str s0 of
            None \<Rightarrow> None
          | Some (k, s1) \<Rightarrow>
              (case skip_ws s1 of
                 [] \<Rightarrow> None
               | colon # s2 \<Rightarrow>
                   if colon \<noteq> CHR '':'' then None
                   else (case parse_value f d s2 of
                     None \<Rightarrow> None
                   | Some (v, s3) \<Rightarrow>
                       (case skip_ws s3 of
                          c # s4 \<Rightarrow>
                            if c = CHR '','' then map_option (apfst ((#) (k, v))) (parse_members f d s4)
                            else if c = CHR 0x7D then Some ([(k, v)], s4)
                            else None
                        | [] \<Rightarrow> None)))))"

text \<open>\<open>json.Unmarshal\<close> into a generic value: the whole text is one value.\<close>

definition json_parse :: "string \<Rightarrow> json option" where
  "json_parse s =
     (case parse_value (Suc (2 * length s)) maxNestingDepth s of
        Some (v, rest) \<Rightarrow> if skip_ws rest = [] then Some v else None
      | None \<Rightarrow> None)"

text \<open>\<open>json.Marshal\<close>. A member list is written in its order; Go sorts the keys of a map first.\<close>

fun json_encode :: "json \<Rightarrow> string" where
  "json_encode JNull = ''null''"
| "json_encode (JBool b) = (if b then ''true'' else ''false'')"
| "json_encode (JNum lit) = lit"
| "json_encode (JStr s) = json_string s"
| "json_encode (JArr vs) = CHR 0x5B # join '','' (map json_encode vs) @ [CHR 0x5D]"
| "json_encode (JObj ms) =
     CHR 0x7B # join '','' (map (\<lambda>(k, v). json_string k @ CHR '':'' # json_encode v) ms) @ [CHR 0x7D]"

text \<open>A writer's style: how it escapes strings, and the whitespace it puts after an opening bracket, after a
  comma, before a closing bracket (each may depend on the depth) and after a colon. Empty arrays and
  objects are written without any.\<close>

record json_style =
  js_esc :: "string \<Rightarrow> string"
  js_open :: "nat \<Rightarrow> string"
  js_sep :: "nat \<Rightarrow> string"
  js_close :: "nat \<Rightarrow> string"
  js_colon :: string

fun json_print :: "json_style \<Rightarrow> nat \<Rightarrow> json \<Rightarrow> string" where
  "json_print st n JNull = ''null''"
| "json_print st n (JBool b) = (if b then ''true'' else ''false'')"
| "json_print st n (JNum lit) = lit"
| "json_print st n (JStr s) = quote_char # js_esc st s @ [quote_char]"
| "json_print st n (JArr vs) =
     (if vs = [] then [CHR 0x5B, CHR 0x5D]
      else CHR 0x5B # js_open st (Suc n) @
        join (CHR '','' # js_sep st (Suc n)) (map (json_print st (Suc n)) vs) @ js_close st n @ [CHR 0x5D])"
| "json_print st n (JObj ms) =
     (if ms = [] then [CHR 0x7B, CHR 0x7D]
      else CHR 0x7B # js_open st (Suc n) @
        join (CHR '','' # js_sep st (Suc n))
          (map (\<lambda>(k, v). quote_char # js_esc st k @ quote_char # CHR '':'' # js_colon st @ json_print st (Suc n) v) ms) @
        js_close st n @ [CHR 0x7D])"

abbreviation print_member :: "json_style \<Rightarrow> nat \<Rightarrow> string \<times> json \<Rightarrow> string" where
  "print_member st n \<equiv> \<lambda>(k, v). quote_char # js_esc st k @ quote_char # CHR '':'' # js_colon st @ json_print st n v"

abbreviation encode_member :: "string \<times> json \<Rightarrow> string" where
  "encode_member \<equiv> \<lambda>(k, v). json_string k @ CHR '':'' # json_encode v"

section \<open>Values round-trip\<close>

text \<open>Integer literals, the only numbers the source writes.\<close>

definition int_literal :: "string \<Rightarrow> bool" where
  "int_literal lit \<longleftrightarrow>
     (let ds = (if lit \<noteq> [] \<and> hd lit = CHR ''-'' then tl lit else lit)
      in ds \<noteq> [] \<and> list_all digit_byte ds \<and> \<not> (hd ds = CHR ''0'' \<and> tl ds \<noteq> []))"

fun json_ok :: "json \<Rightarrow> bool" where
  "json_ok (JNum lit) = int_literal lit"
| "json_ok (JStr s) = valid_utf8 s"
| "json_ok (JArr vs) = list_all json_ok vs"
| "json_ok (JObj ms) = list_all (\<lambda>(k, v). valid_utf8 k \<and> json_ok v) ms"
| "json_ok _ = True"

fun json_depth :: "json \<Rightarrow> nat" where
  "json_depth (JArr vs) = Suc (fold max (map json_depth vs) 0)"
| "json_depth (JObj ms) = Suc (fold max (map (\<lambda>(k, v). json_depth v) ms) 0)"
| "json_depth _ = 0"

text \<open>What may follow a number.\<close>

definition value_end :: "string \<Rightarrow> bool" where
  "value_end s \<longleftrightarrow> (case s of [] \<Rightarrow> True | c # _ \<Rightarrow> \<not> digit_byte c \<and> c \<notin> {CHR ''.'', CHR ''e'', CHR ''E''})"

lemma skip_ws_Cons: "\<not> json_ws c \<Longrightarrow> skip_ws (c # s) = c # s"
  by (simp add: skip_ws_def)

lemma digit_byte_facts: "digit_byte c \<Longrightarrow> \<not> json_ws c \<and> c \<noteq> quote_char \<and> c \<noteq> CHR 0x5B \<and> c \<noteq> CHR 0x7B \<and>
    c \<noteq> CHR ''t'' \<and> c \<noteq> CHR ''f'' \<and> c \<noteq> CHR ''n'' \<and> c \<noteq> CHR ''-'' \<and> c \<noteq> CHR 0x5D \<and> c \<noteq> CHR 0x7D"
  by (auto simp: digit_byte_def json_ws_def less_eq_char_def)

lemma fold_max_ge: "(\<forall>x \<in> set xs. x \<le> fold max xs (a :: nat)) \<and> a \<le> fold max xs a"
proof (induction xs arbitrary: a)
  case (Cons x xs)
  from Cons.IH [of "max x a"] show ?case by auto
qed simp

lemma parse_int_literal:
  assumes "int_literal lit" and "value_end rest"
  shows "parse_number (lit @ rest) = Some (lit, rest)"
proof -
  obtain ds where lit: "lit = ds \<and> \<not> hd lit = CHR ''-'' \<or> lit = CHR ''-'' # ds"
    and ds: "ds \<noteq> []" "list_all digit_byte ds" "\<not> (hd ds = CHR ''0'' \<and> tl ds \<noteq> [])"
    using assms(1) by (cases lit) (auto simp: int_literal_def Let_def split: if_splits)
  have rest: "takeWhile digit_byte rest = []" "dropWhile digit_byte rest = rest"
    using assms(2) by (auto simp: value_end_def split: list.splits)
  have "span_digits (ds @ rest) = Some (ds, rest)"
    using ds rest by (simp add: span_digits_def takeWhile_append2 dropWhile_append2 list_all_iff)
  moreover have "num_frac rest = Some ([], rest)" "num_exp rest = Some ([], rest)"
    using assms(2) by (auto simp: num_frac_def num_exp_def value_end_def split: list.splits)
  moreover have "hd (ds @ rest) = hd ds" "tl ds \<noteq> [] \<longrightarrow> hd ds \<noteq> CHR ''0''" using ds by auto
  ultimately show ?thesis
    using lit ds by (auto simp: parse_number_def Let_def)
qed

text \<open>Number literals in general, and the values a writer may put down.\<close>

definition number_literal :: "string \<Rightarrow> bool" where
  "number_literal lit \<longleftrightarrow> parse_number lit = Some (lit, [])"

lemma int_number_literal: "int_literal lit \<Longrightarrow> number_literal lit"
  using parse_int_literal [of lit "[]"] by (simp add: number_literal_def value_end_def)

lemma value_end_dropWhile: "value_end x \<Longrightarrow> takeWhile digit_byte x = [] \<and> dropWhile digit_byte x = x"
  by (auto simp: value_end_def split: list.splits)

lemma span_digits_append:
  assumes "value_end x" and "span_digits s = Some (ds, r)"
  shows "span_digits (s @ x) = Some (ds, r @ x)"
proof (cases "\<forall>c \<in> set s. digit_byte c")
  case True
  with assms value_end_dropWhile [OF assms(1)] show ?thesis
    by (auto simp: span_digits_def Let_def takeWhile_append2 dropWhile_append2 takeWhile_eq_all_conv [THEN iffD2]
        dropWhile_eq_Nil_conv [THEN iffD2] split: if_splits)
next
  case False
  with assms show ?thesis
    by (auto simp: span_digits_def Let_def takeWhile_append1 dropWhile_append1 split: if_splits)
qed

lemma num_frac_append: "value_end x \<Longrightarrow> num_frac s = Some (y, r) \<Longrightarrow> num_frac (s @ x) = Some (y, r @ x)"
  by (cases s) (auto simp: num_frac_def value_end_def span_digits_append split: list.splits if_splits)

lemma num_exp_append: "value_end x \<Longrightarrow> num_exp s = Some (y, r) \<Longrightarrow> num_exp (s @ x) = Some (y, r @ x)"
  by (cases s; cases "tl s") (auto simp: num_exp_def value_end_def span_digits_append
      span_digits_append [where s = "a # l" for a l, simplified] split: list.splits if_splits)

lemma parse_number_append:
  assumes "number_literal lit" and "value_end rest"
  shows "parse_number (lit @ rest) = Some (lit, rest)"
proof -
  let ?neg = "lit \<noteq> [] \<and> hd lit = CHR ''-''" and ?body = "if lit \<noteq> [] \<and> hd lit = CHR ''-'' then tl lit else lit"
  from assms(1) obtain ds s1 fr s2 ex where parts: "span_digits ?body = Some (ds, s1)"
    "\<not> (hd ds = CHR ''0'' \<and> tl ds \<noteq> [])" "num_frac s1 = Some (fr, s2)" "num_exp s2 = Some (ex, [])"
    "lit = (if ?neg then ''-'' else []) @ ds @ fr @ ex"
    by (auto simp: number_literal_def parse_number_def Let_def split: option.splits if_splits)
  have ne: "lit \<noteq> []" using assms(1) by (auto simp: number_literal_def parse_number_def span_digits_def)
  then have "(if lit @ rest \<noteq> [] \<and> hd (lit @ rest) = CHR ''-'' then tl (lit @ rest) else lit @ rest) = ?body @ rest"
    by simp
  with parts ne span_digits_append [OF assms(2) parts(1)] num_frac_append [OF assms(2) parts(3)]
    num_exp_append [OF assms(2) parts(4)] show ?thesis
    by (simp add: parse_number_def Let_def)
qed

lemma number_literal_first:
  assumes "number_literal lit"
  obtains c t where "lit = c # t" and "c = CHR ''-'' \<or> digit_byte c"
proof (cases lit)
  case Nil
  with assms show thesis by (simp add: number_literal_def parse_number_def span_digits_def)
next
  case (Cons c t)
  have "c = CHR ''-'' \<or> digit_byte c"
  proof (cases "c = CHR ''-''")
    case False
    with assms Cons show ?thesis
      by (auto simp: number_literal_def parse_number_def span_digits_def Let_def split: if_splits)
  qed simp
  with Cons that show thesis by blast
qed

fun json_wf :: "json \<Rightarrow> bool" where
  "json_wf (JNum lit) = number_literal lit"
| "json_wf (JStr s) = valid_utf8 s"
| "json_wf (JArr vs) = list_all json_wf vs"
| "json_wf (JObj ms) = list_all (\<lambda>(k, v). valid_utf8 k \<and> json_wf v) ms"
| "json_wf _ = True"

lemma json_ok_wf: "json_ok v \<Longrightarrow> json_wf v"
  by (induction v) (auto simp: list_all_iff int_number_literal)

lemma print_first:
  assumes "json_wf v"
  obtains c t where "json_print st n v = c # t" and "\<not> json_ws c" and "c \<noteq> CHR 0x5D" and "c \<noteq> CHR 0x7D"
proof -
  have "\<exists>c t. json_print st n v = c # t \<and> \<not> json_ws c \<and> c \<noteq> CHR 0x5D \<and> c \<noteq> CHR 0x7D"
  proof (cases v)
    case (JNum lit)
    with assms obtain c t where "lit = c # t" and c: "c = CHR ''-'' \<or> digit_byte c"
      by (auto elim: number_literal_first)
    moreover from c have "\<not> json_ws c \<and> c \<noteq> CHR 0x5D \<and> c \<noteq> CHR 0x7D"
    proof
      assume "c = CHR ''-''"
      then show ?thesis by (simp add: json_ws_def)
    next
      assume "digit_byte c"
      then show ?thesis by (blast dest: digit_byte_facts)
    qed
    ultimately show ?thesis by (simp add: JNum)
  qed (simp_all add: json_ws_def)
  with that show thesis by blast
qed

text \<open>Whitespace before a value, an element or a member does not matter.\<close>

lemma skip_ws_append: "list_all json_ws w \<Longrightarrow> skip_ws (w @ s) = skip_ws s"
  by (simp add: skip_ws_def dropWhile_append2 list_all_iff)

lemma parse_value_ws: "list_all json_ws w \<Longrightarrow> parse_value f d (w @ s) = parse_value f d s"
  by (cases f) (simp_all add: skip_ws_append)

lemma parse_elems_ws: "list_all json_ws w \<Longrightarrow> parse_elems f d (w @ s) = parse_elems f d s"
  by (cases f) (simp_all add: parse_value_ws)

lemma parse_members_ws: "list_all json_ws w \<Longrightarrow> parse_members f d (w @ s) = parse_members f d s"
  by (cases f) (simp_all add: skip_ws_append)

lemma value_end_ws: "json_ws c \<Longrightarrow> value_end (c # s)"
  by (auto simp: value_end_def json_ws_def digit_byte_def less_eq_char_def)

lemma value_end_close:
  "value_end (CHR '','' # x)" "value_end (CHR 0x5D # x)" "value_end (CHR 0x7D # x)"
  "list_all json_ws w \<Longrightarrow> value_end (w @ CHR 0x5D # x)" "list_all json_ws w \<Longrightarrow> value_end (w @ CHR 0x7D # x)"
  by (cases w; auto simp: value_end_def digit_byte_def less_eq_char_def json_ws_def)+

lemma parse_elems_join:
  assumes "vs \<noteq> []" and "length (join (CHR '','' # w) (map p vs)) < f"
    and ws: "list_all json_ws w" "list_all json_ws w'"
    and "\<And>v f rest. v \<in> set vs \<Longrightarrow> length (p v) < f \<Longrightarrow> value_end rest \<Longrightarrow>
           parse_value f d (p v @ rest) = Some (v, rest)"
  shows "parse_elems (Suc f) d (join (CHR '','' # w) (map p vs) @ w' @ CHR 0x5D # rest) = Some (vs, rest)"
  using assms(1,2,5)
proof (induction vs arbitrary: f)
  case (Cons v vs)
  show ?case
  proof (cases vs)
    case Nil
    have "parse_value f d (p v @ w' @ CHR 0x5D # rest) = Some (v, w' @ CHR 0x5D # rest)"
      using Cons.prems value_end_close(4) [OF ws(2)] by (simp add: Nil)
    then show ?thesis by (simp add: Nil skip_ws_append ws skip_ws_Cons json_ws_def)
  next
    case (Cons u us)
    let ?t = "join (CHR '','' # w) (map p vs)"
    have enc: "join (CHR '','' # w) (map p (v # vs)) = p v @ CHR '','' # w @ ?t" by (simp add: Cons)
    have v: "parse_value f d (p v @ CHR '','' # w @ ?t @ w' @ CHR 0x5D # rest) =
        Some (v, CHR '','' # w @ ?t @ w' @ CHR 0x5D # rest)"
      using Cons.prems(2,3) value_end_close(1) unfolding enc by simp
    from Cons.prems(2) obtain f' where f: "f = Suc f'" "length ?t < f'" unfolding enc
      by (cases f) auto
    have "parse_elems f d (?t @ w' @ CHR 0x5D # rest) = Some (vs, rest)"
      unfolding f by (rule Cons.IH) (use Cons f Cons.prems(3) in auto)
    then show ?thesis unfolding enc by (simp add: v skip_ws_Cons json_ws_def parse_elems_ws ws)
  qed
qed simp

section \<open>Printers\<close>

text \<open>What is asked of a writer: it puts whitespace where whitespace may be, and a reader gets back the
  strings it escaped.\<close>

locale json_printer =
  fixes st :: json_style
  assumes spaces: "list_all json_ws (js_open st n)" "list_all json_ws (js_sep st n)" "list_all json_ws (js_close st n)"
      "list_all json_ws (js_colon st)"
    and escapes: "valid_utf8 s \<Longrightarrow> parse_str (js_esc st s @ quote_char # rest) = Some (s, rest)"
begin

lemma parse_members_print:
  assumes "ms \<noteq> []" and "length (join (CHR '','' # js_sep st m) (map (print_member st n) ms)) < f"
    and "\<And>k v. (k, v) \<in> set ms \<Longrightarrow> valid_utf8 k"
    and "\<And>k v f rest. (k, v) \<in> set ms \<Longrightarrow> length (json_print st n v) < f \<Longrightarrow> value_end rest \<Longrightarrow>
           parse_value f d (json_print st n v @ rest) = Some (v, rest)"
  shows "parse_members (Suc f) d (join (CHR '','' # js_sep st m) (map (print_member st n) ms) @ js_close st l @ CHR 0x7D # rest) =
    Some (ms, rest)"
  using assms
proof (induction ms arbitrary: f)
  case (Cons mem ms)
  obtain k v where m: "mem = (k, v)" by (cases mem)
  have key: "parse_str (js_esc st k @ quote_char # x) = Some (k, x)" for x
    using Cons.prems(3) m by (intro escapes) auto
  have val: "length (json_print st n v) < f \<Longrightarrow> value_end x \<Longrightarrow> parse_value f d (json_print st n v @ x) = Some (v, x)" for x f
    using Cons.prems(4) m by auto
  note ws = spaces skip_ws_append parse_value_ws parse_members_ws
  show ?case
  proof (cases ms)
    case Nil
    with Cons.prems(2) have "length (json_print st n v) < f" by (simp add: m)
    from val [OF this value_end_close(5) [OF spaces(3)]] show ?thesis
      by (simp add: m Nil skip_ws_Cons json_ws_def key ws)
  next
    case (Cons u us)
    let ?t = "join (CHR '','' # js_sep st m) (map (print_member st n) ms)"
    have enc: "join (CHR '','' # js_sep st m) (map (print_member st n) (mem # ms)) =
        quote_char # js_esc st k @ quote_char # CHR '':'' # js_colon st @ json_print st n v @ CHR '','' # js_sep st m @ ?t"
      by (simp add: Cons m)
    from Cons.prems(2) obtain f' where f: "f = Suc f'" "length ?t < f'" "length (json_print st n v) < f" unfolding enc
      by (cases f) auto
    have "parse_members f d (?t @ js_close st l @ CHR 0x7D # rest) = Some (ms, rest)"
      unfolding f(1)
    proof (rule Cons.IH)
      show "(k, v) \<in> set ms \<Longrightarrow> valid_utf8 k" for k v
        by (rule Cons.prems(3) [of k v]) (simp add: list.set_intros(2))
      show "(k, v) \<in> set ms \<Longrightarrow> length (json_print st n v) < f \<Longrightarrow> value_end rest \<Longrightarrow>
          parse_value f d (json_print st n v @ rest) = Some (v, rest)" for k v f rest
        by (rule Cons.prems(4) [of k]) (simp_all add: list.set_intros(2))
    qed (use Cons f(2) in simp_all)
    with val [OF f(3) value_end_close(1)] show ?thesis
      unfolding enc by (simp add: m skip_ws_Cons json_ws_def key ws)
  qed
qed simp

lemma parse_print:
  assumes "json_wf v" and "json_depth v \<le> d" and "length (json_print st n v) < f" and "value_end rest"
  shows "parse_value f d (json_print st n v @ rest) = Some (v, rest)"
  using assms
proof (induction v arbitrary: d n f rest)
  case JNull
  then obtain f' where "f = Suc f'" by (cases f) auto
  then show ?case by (simp add: skip_ws_Cons json_ws_def literal_at_def)
next
  case (JBool b)
  then obtain f' where "f = Suc f'" by (cases f) auto
  then show ?case by (simp add: skip_ws_Cons json_ws_def literal_at_def)
next
  case (JNum lit)
  then obtain f' where f: "f = Suc f'" by (cases f) auto
  from JNum obtain c t where lit: "lit = c # t" "c = CHR ''-'' \<or> digit_byte c"
    by (auto elim: number_literal_first)
  from JNum parse_number_append [of lit rest] have "parse_number (c # t @ rest) = Some (lit, rest)" by (simp add: lit)
  with lit(2) digit_byte_facts [of c] show ?case
    by (auto simp: f lit(1) skip_ws_Cons json_ws_def)
next
  case (JStr s)
  then obtain f' where "f = Suc f'" by (cases f) auto
  with JStr show ?case by (simp add: skip_ws_Cons json_ws_def escapes)
next
  case (JArr vs)
  then obtain d' where d: "d = Suc d'" by (cases d) auto
  show ?case
  proof (cases "vs = []")
    case True
    from JArr.prems obtain f' where "f = Suc f'" by (cases f) auto
    with True d show ?thesis by (simp add: skip_ws_Cons json_ws_def)
  next
    case False
    let ?j = "join (CHR '','' # js_sep st (Suc n)) (map (json_print st (Suc n)) vs)"
    from JArr.prems(3) obtain f' where f: "f = Suc (Suc f')" "length ?j < f'"
      using False by (cases f; cases "f - 1") auto
    have depth: "v \<in> set vs \<Longrightarrow> json_depth v \<le> d'" for v
      using JArr.prems(2) fold_max_ge [of "map json_depth vs" 0] by (fastforce simp: d)
    have elems: "parse_elems (Suc f') d' (?j @ js_close st n @ CHR 0x5D # rest) = Some (vs, rest)"
      by (rule parse_elems_join [OF False f(2) spaces(2,3)])
        (use JArr.IH JArr.prems(1) depth in \<open>auto simp: list_all_iff\<close>)
    obtain w ws where w: "vs = w # ws" using False by (cases vs) auto
    with JArr.prems(1) have "json_wf w" by simp
    then obtain c t where "json_print st (Suc n) w = c # t" "\<not> json_ws c" "c \<noteq> CHR 0x5D" by (rule print_first)
    with w obtain x where "?j @ js_close st n @ CHR 0x5D # rest = c # x" "\<not> json_ws c" "c \<noteq> CHR 0x5D"
      by (cases ws) auto
    with elems False show ?thesis
      by (simp add: f d skip_ws_Cons json_ws_def skip_ws_append parse_value_ws spaces)
  qed
next
  case (JObj ms)
  then obtain d' where d: "d = Suc d'" by (cases d) auto
  show ?case
  proof (cases "ms = []")
    case True
    from JObj.prems obtain f' where "f = Suc f'" by (cases f) auto
    with True d show ?thesis by (simp add: skip_ws_Cons json_ws_def)
  next
    case False
    let ?j = "join (CHR '','' # js_sep st (Suc n)) (map (print_member st (Suc n)) ms)"
    from JObj.prems(3) obtain f' where f: "f = Suc (Suc f')" "length ?j < f'"
      using False by (cases f; cases "f - 1") auto
    have depth: "(k, v) \<in> set ms \<Longrightarrow> json_depth v \<le> d'" for k v
      using JObj.prems(2) fold_max_ge [of "map (\<lambda>(k, v). json_depth v) ms" 0] by (fastforce simp: d)
    have members: "parse_members (Suc f') d' (?j @ js_close st n @ CHR 0x7D # rest) = Some (ms, rest)"
      by (rule parse_members_print [OF False f(2)])
        (use JObj.IH JObj.prems(1) depth in \<open>auto simp: list_all_iff snds.simps\<close>)
    obtain x where "?j @ js_close st n @ CHR 0x7D # rest = quote_char # x"
      using False by (cases ms; cases "tl ms") auto
    with members False show ?thesis
      by (simp add: f d skip_ws_Cons json_ws_def skip_ws_append parse_members_ws spaces)
  qed
qed

lemma print_roundtrip:
  assumes "json_wf v" and "json_depth v \<le> maxNestingDepth" and "list_all json_ws w"
  shows "json_parse (json_print st n v @ w) = Some v"
proof -
  have tail: "value_end w" "skip_ws w = []"
    using assms(3) value_end_ws skip_ws_append [OF assms(3), of "[]"] by (cases w; simp add: value_end_def skip_ws_def)+
  from parse_print [OF assms(1,2) _ tail(1), of n "Suc (2 * length (json_print st n v @ w))"] tail(2)
  show ?thesis by (simp add: json_parse_def)
qed

end

text \<open>The compact form of \<open>json.Marshal\<close>.\<close>

definition compact_style :: json_style where
  "compact_style = \<lparr>js_esc = esc_string, js_open = (\<lambda>_. []), js_sep = (\<lambda>_. []), js_close = (\<lambda>_. []), js_colon = []\<rparr>"

lemma compact_fields [simp]:
  "js_esc compact_style = esc_string" "js_open compact_style n = []" "js_sep compact_style n = []"
  "js_close compact_style n = []" "js_colon compact_style = []"
  by (simp_all add: compact_style_def)

lemma print_compact: "json_print compact_style n v = json_encode v"
proof (induction v arbitrary: n)
  case (JObj ms)
  have "map (print_member compact_style (Suc n)) ms = map encode_member ms"
    using JObj by (force simp: json_string_def)
  then show ?case by (auto simp only: json_print.simps json_encode.simps compact_fields append_Nil list.map join.simps append_Cons split: if_split)
qed (auto simp: json_string_def cong: map_cong)

interpretation go_compact: json_printer compact_style
  by unfold_locales (simp_all add: parse_json_string)

lemma parse_encode:
  assumes "json_ok v" and "json_depth v \<le> d" and "length (json_encode v) < f" and "value_end rest"
  shows "parse_value f d (json_encode v @ rest) = Some (v, rest)"
  using go_compact.parse_print [OF json_ok_wf, of v d 0 f rest] assms by (simp add: print_compact)

lemma json_roundtrip:
  assumes "json_ok v" and "json_depth v \<le> maxNestingDepth"
  shows "json_parse (json_encode v) = Some v"
  using parse_encode [OF assms(1,2), of "Suc (2 * length (json_encode v))" "[]"]
  by (simp add: json_parse_def value_end_def skip_ws_def)

section \<open>The fuel is enough\<close>

lemma parse_str_shorter: "parse_str s = Some (out, rest) \<Longrightarrow> length rest < length s"
proof (induction s arbitrary: out rule: parse_str.induct)
  case (2 c s)
  obtain r n where dec: "decode_rune c s = (r, n)" by fastforce
  consider "c = quote_char" | "c = backslash" "c \<noteq> quote_char" | "c \<noteq> quote_char" "c \<noteq> backslash" by blast
  then show ?case
  proof cases
    case 1
    with 2(3) show ?thesis by (simp add: parse_str.simps(2))
  next
    case c: 2
    with 2(3) obtain o1 r1 o2 where "parse_escape s = Some (o1, r1)" "parse_str r1 = Some (o2, rest)"
      by (auto simp: parse_str_escape split: option.splits)
    with 2(1) [OF c(2,1)] parse_escape_shorter show ?thesis by fastforce
  next
    case 3
    with 2(3) dec obtain o2 where "\<not> byte_val c < 32" "parse_str (drop (n - 1) s) = Some (o2, rest)"
      by (auto simp: parse_str.simps(2) split: if_splits)
    with 2(2) [OF 3 _ dec [symmetric]] show ?thesis by fastforce
  qed
qed simp

lemma skip_ws_le: "length (skip_ws s) \<le> length s"
  by (simp add: skip_ws_def length_dropWhile_le)

lemma skip_ws_Cons_le: "skip_ws s = c # s' \<Longrightarrow> length s' < length s"
  using skip_ws_le [of s] by simp

lemma span_digits_shorter: "span_digits s = Some (ds, r) \<Longrightarrow> length r < length s"
  unfolding span_digits_def Let_def
  by (auto split: if_splits) (metis length_append length_greater_0_conv less_add_same_cancel2 takeWhile_dropWhile_id)

lemma num_frac_le: "num_frac s = Some (x, r) \<Longrightarrow> length r \<le> length s"
  by (auto simp: num_frac_def split: list.splits if_splits dest!: span_digits_shorter)

lemma num_exp_le: "num_exp s = Some (x, r) \<Longrightarrow> length r \<le> length s"
  by (auto simp: num_exp_def split: list.splits if_splits dest!: span_digits_shorter)

lemma parse_number_shorter: "parse_number s = Some (lit, r) \<Longrightarrow> length r < length s"
proof -
  let ?body = "if s \<noteq> [] \<and> hd s = CHR ''-'' then tl s else s"
  assume "parse_number s = Some (lit, r)"
  then obtain ds s1 x s2 y where "span_digits ?body = Some (ds, s1)" "num_frac s1 = Some (x, s2)"
    "num_exp s2 = Some (y, r)"
    by (auto simp: parse_number_def Let_def split: option.splits if_splits)
  then have "length r < length ?body"
    using span_digits_shorter num_frac_le num_exp_le by (meson le_less_trans)
  moreover have "length ?body \<le> length s" by simp
  ultimately show ?thesis by linarith
qed

lemma literal_at_shorter: "literal_at lit v s = Some (w, r) \<Longrightarrow> lit \<noteq> [] \<Longrightarrow> length r < length s"
  by (auto simp: literal_at_def prefix_def split: if_splits)

lemma parse_value_SomeD:
  assumes "parse_value (Suc f) d s = Some (v, r)" and "skip_ws s = c # s'"
  shows "(\<exists>x. parse_str s' = Some (x, r)) \<or> skip_ws s' \<noteq> [] \<and> r = tl (skip_ws s') \<or>
     (\<exists>ms. parse_members f (d - 1) s' = Some (ms, r)) \<or> (\<exists>vs. parse_elems f (d - 1) s' = Some (vs, r)) \<or>
     (\<exists>lit w. lit \<noteq> [] \<and> literal_at lit w (c # s') = Some (v, r)) \<or> (\<exists>lit. parse_number (c # s') = Some (lit, r))"
  using assms by (simp split: if_splits) (erule exE conjE disjE | blast | simp)+

lemma parse_shorter:
  "(parse_value f d s = Some (v, r) \<longrightarrow> length r < length s) \<and>
   (parse_elems f d s = Some (vs, r) \<longrightarrow> length r < length s) \<and>
   (parse_members f d s = Some (ms, r) \<longrightarrow> length r < length s)"
proof (induction f arbitrary: d s v vs ms r)
  case (Suc f)
  have "length r < length s" if parsed: "parse_value (Suc f) d s = Some (v, r)"
  proof -
    from parsed obtain c s' where c: "skip_ws s = c # s'" by (cases "skip_ws s") auto
    have str: "length r < Suc (length s')" if "parse_str s' = Some (x, r)" for x
      using parse_str_shorter [OF that] by simp
    have closed: "length r < Suc (length s')" if "skip_ws s' \<noteq> []" "r = tl (skip_ws s')"
      using that skip_ws_le [of s'] by simp
    have rec: "length r < Suc (length s')"
      if "parse_members f (d - 1) s' = Some (ms, r) \<or> parse_elems f (d - 1) s' = Some (vs, r)" for ms vs
      using that Suc by (meson less_SucI)
    have atom: "length r < Suc (length s')"
      if "lit \<noteq> [] \<and> literal_at lit w (c # s') = Some (v, r) \<or> parse_number (c # s') = Some (lit, r)" for lit w
      using that literal_at_shorter [of lit w "c # s'" v r] parse_number_shorter [of "c # s'" lit r] by auto
    have "length r < Suc (length s')"
      using parse_value_SomeD [OF parsed c] str closed rec atom by blast
    then show ?thesis using skip_ws_le [of s] c by simp
  qed
  moreover have "length r < length s" if "parse_elems (Suc f) d s = Some (vs, r)"
    using that Suc by (auto split: option.splits list.splits if_splits dest!: skip_ws_Cons_le) (meson less_trans)+
  moreover have "length r < length s" if "parse_members (Suc f) d s = Some (ms, r)"
    using that Suc
    by (auto split: option.splits list.splits if_splits dest!: skip_ws_Cons_le parse_str_shorter) (meson less_trans)+
  ultimately show ?case by blast
qed simp

lemma parse_stable:
  "(2 * length s < f \<longrightarrow> parse_value (Suc f) d s = parse_value f d s) \<and>
   (2 * length s + 1 < f \<longrightarrow> parse_elems (Suc f) d s = parse_elems f d s) \<and>
   (2 * length s + 1 < f \<longrightarrow> parse_members (Suc f) d s = parse_members f d s)"
proof (induction f arbitrary: d s)
  case (Suc f)
  have value_step: "parse_value (Suc (Suc f)) d s = parse_value (Suc f) d s" if "2 * length s < Suc f"
  proof (cases "skip_ws s")
    case (Cons c s')
    then have "2 * length s' + 1 < f" using that skip_ws_Cons_le [OF Cons] by linarith
    with Suc [of s' "d - 1"] show ?thesis
      by (simp only: parse_value.simps(2) Cons list.case)
  qed (simp only: parse_value.simps(2) list.case)
  have elems_step: "parse_elems (Suc (Suc f)) d s = parse_elems (Suc f) d s" if le: "2 * length s + 1 < Suc f"
  proof -
    have v: "parse_value (Suc f) d s = parse_value f d s" using Suc [of s d] le by simp
    have "parse_elems (Suc f) d s2 = parse_elems f d s2"
      if "parse_value f d s = Some (w, s1)" and "skip_ws s1 = c # s2" for w s1 c s2
    proof -
      have "length s1 < length s" "length s2 < length s1"
        using that parse_shorter [of f d s w s1 undefined undefined] skip_ws_Cons_le by blast+
      then show ?thesis using Suc [of s2 d] le by simp
    qed
    note rest = this
    note unfold = parse_elems.simps(2) [of "Suc f" d s] parse_elems.simps(2) [of f d s]
    show ?thesis
    proof (cases "parse_value f d s")
      case (Some ws)
      obtain w s1 where ws: "parse_value f d s = Some (w, s1)" using Some by (cases ws) simp
      show ?thesis
      proof (cases "skip_ws s1")
        case (Cons c s2)
        show ?thesis
          by (simp only: unfold v ws Cons rest [OF ws Cons] list.case option.case prod.case)
      qed (simp only: unfold v ws list.case option.case prod.case)
    qed (simp only: unfold v option.case)
  qed
  have members_step: "parse_members (Suc (Suc f)) d s = parse_members (Suc f) d s" if le: "2 * length s + 1 < Suc f"
  proof -
    have v: "parse_value (Suc f) d s2 = parse_value f d s2"
      if "skip_ws s = q # s0" and "parse_str s0 = Some (k, s1)" and "skip_ws s1 = c # s2" for q s0 k s1 c s2
    proof -
      have "length s2 < length s"
        using that parse_str_shorter skip_ws_Cons_le by (meson less_trans)
      then show ?thesis using Suc [of s2 d] le by simp
    qed
    have m: "parse_members (Suc f) d s4 = parse_members f d s4"
      if "skip_ws s = q # s0" and "parse_str s0 = Some (k, s1)" and "skip_ws s1 = c # s2"
        and "parse_value f d s2 = Some (w, s3)" and "skip_ws s3 = e # s4" for q s0 k s1 c s2 w s3 e s4
    proof -
      have "length s3 < length s2" using that(4) parse_shorter [of f d s2 w s3 undefined undefined] by blast
      moreover have "length s2 < length s" using that(1-3) parse_str_shorter skip_ws_Cons_le by (meson less_trans)
      moreover have "length s4 < length s3" using that(5) by (rule skip_ws_Cons_le)
      ultimately show ?thesis using Suc [of s4 d] le by simp
    qed
    note unfold = parse_members.simps(2) [of "Suc f" d s] parse_members.simps(2) [of f d s]
    show ?thesis
    proof (cases "skip_ws s")
      case (Cons q s0)
      note q = this
      show ?thesis
      proof (cases "parse_str s0")
        case (Some ks)
        obtain k s1 where ks: "parse_str s0 = Some (k, s1)" using Some by (cases ks) simp
        show ?thesis
        proof (cases "skip_ws s1")
          case (Cons c s2)
          note v' = v [OF q ks Cons]
          show ?thesis
          proof (cases "parse_value f d s2")
            case (Some ws)
            obtain w s3 where ws: "parse_value f d s2 = Some (w, s3)" using Some by (cases ws) simp
            show ?thesis
            proof (cases "skip_ws s3")
              case Nil
              show ?thesis by (simp only: unfold q ks Cons v' ws Nil list.case option.case prod.case)
            next
              case (Cons e s4)
              show ?thesis
                by (simp only: unfold q ks \<open>skip_ws s1 = c # s2\<close> v' ws Cons m [OF q ks \<open>skip_ws s1 = c # s2\<close> ws Cons]
                    list.case option.case prod.case)
            qed
          qed (simp only: unfold q ks Cons v' list.case option.case prod.case)
        qed (simp only: unfold q ks list.case option.case prod.case)
      qed (simp only: unfold q list.case option.case)
    qed (simp only: unfold list.case)
  qed
  from value_step elems_step members_step show ?case by blast
qed simp

lemma parse_fuel:
  assumes "2 * length s < f"
  shows "parse_value f d s = parse_value (Suc (2 * length s)) d s"
proof -
  have "parse_value (Suc (2 * length s) + k) d s = parse_value (Suc (2 * length s)) d s" for k
  proof (induction k)
    case (Suc k)
    then show ?case using parse_stable [of s "Suc (2 * length s) + k" d] by simp
  qed simp
  from this [of "f - Suc (2 * length s)"] assms show ?thesis by simp
qed

section \<open>Encoded text is one line\<close>

lemma hex_digit_above: "0 \<le> d \<Longrightarrow> d < 16 \<Longrightarrow> hex_digit d \<noteq> CHR 0x0A"
proof -
  assume "0 \<le> d" "d < 16"
  then have "d \<in> set [0..15]" by simp
  moreover have "list_all (\<lambda>d. hex_digit d \<noteq> CHR 0x0A) [0..15]" by code_simp
  ultimately show ?thesis by (auto simp: list_all_iff)
qed

lemma hex_byte_no_newline: "CHR 0x0A \<notin> set (hex_byte c)"
proof -
  have "0 \<le> byte_val c div 16" "byte_val c div 16 < 16" using byte_val_range [of c] by auto
  then show ?thesis
    using hex_digit_above [of "byte_val c div 16"] hex_digit_above [of "byte_val c mod 16"]
    by (auto simp: hex_byte_def)
qed

lemma esc_string_no_newline: "CHR 0x0A \<notin> set (esc_string s)"
proof (induction s rule: esc_string.induct)
  case (2 c s)
  obtain r n where dec: "decode_rune c s = (r, n)" by fastforce
  have "CHR 0x0A \<notin> set (esc_ascii c)" using hex_byte_no_newline [of c] by (auto simp: esc_ascii_def)
  moreover have "CHR 0x0A \<notin> set (u_escape x)" for x
    using hex_byte_no_newline by (auto simp: u_escape_def)
  moreover have "CHR 0x0A \<notin> set (take n (c # s))" if "\<not> byte_val c < 128" "\<not> (r = rune_error \<and> n = 1)"
  proof -
    from decode_rune_sound [OF dec that(2)] have "list_all (\<lambda>b. 128 \<le> byte_val b) (take n (c # s))"
      using that(1) by (cases n) auto
    then show ?thesis by (auto simp: list_all_iff)
  qed
  ultimately show ?case
    using 2 [OF dec [symmetric] refl] by (simp add: esc_string.simps(2) dec)
qed simp

lemma set_join: "set (join sep xs) \<subseteq> \<Union> (set (map set xs)) \<union> set sep"
  by (induction sep xs rule: join.induct) auto

lemma span_digits_set: "span_digits s = Some (ds, r) \<Longrightarrow> list_all digit_byte ds"
  by (auto simp: span_digits_def Let_def list_all_iff split: if_splits dest: set_takeWhileD)

lemma digits_no_newline: "list_all digit_byte ds \<Longrightarrow> CHR 0x0A \<notin> set ds"
  by (auto simp: list_all_iff digit_byte_def less_eq_char_def)

lemma number_no_newline:
  assumes "number_literal lit"
  shows "CHR 0x0A \<notin> set lit"
proof -
  from assms obtain ds fr ex s0 s1 s2 r where parts: "span_digits s0 = Some (ds, s1)"
    "num_frac s1 = Some (fr, s2)" "num_exp s2 = Some (ex, r)" "lit = ds @ fr @ ex \<or> lit = CHR ''-'' # ds @ fr @ ex"
    by (auto simp: number_literal_def parse_number_def Let_def split: option.splits if_splits)
  have digits: "span_digits s = Some (ds, r) \<Longrightarrow> CHR 0x0A \<notin> set ds" for s ds r
    using span_digits_set digits_no_newline by blast
  have "CHR 0x0A \<notin> set fr" using parts(2) digits by (auto simp: num_frac_def split: list.splits if_splits)
  moreover have "CHR 0x0A \<notin> set ex" using parts(3) digits by (auto simp: num_exp_def split: list.splits if_splits)
  ultimately show ?thesis using parts(4) digits [OF parts(1)] by auto
qed

text \<open>Whatever bytes its strings hold, a value is written on one line by a printer that puts no newline
  between tokens and escapes those in strings.\<close>

fun one_line :: "json \<Rightarrow> bool" where
  "one_line (JNum lit) = number_literal lit"
| "one_line (JArr vs) = list_all one_line vs"
| "one_line (JObj ms) = list_all (\<lambda>(k, v). one_line v) ms"
| "one_line _ = True"

locale line_printer = json_printer +
  assumes spaces_no_newline: "CHR 0x0A \<notin> set (js_open st n)" "CHR 0x0A \<notin> set (js_sep st n)"
      "CHR 0x0A \<notin> set (js_close st n)" "CHR 0x0A \<notin> set (js_colon st)"
    and escapes_newline: "CHR 0x0A \<notin> set (js_esc st s)"
begin

lemma print_one_line: "one_line v \<Longrightarrow> CHR 0x0A \<notin> set (json_print st n v)"
proof (induction v arbitrary: n)
  case (JArr vs)
  then have "CHR 0x0A \<notin> set (join (CHR '','' # js_sep st (Suc n)) (map (json_print st (Suc n)) vs))"
    using set_join [of "CHR '','' # js_sep st (Suc n)" "map (json_print st (Suc n)) vs"] spaces_no_newline
    by (auto simp: list_all_iff)
  then show ?case by (simp add: spaces_no_newline)
next
  case (JObj ms)
  have "CHR 0x0A \<notin> set (print_member st (Suc n) m)" if "m \<in> set ms" for m
  proof -
    obtain k v where m: "m = (k, v)" by (cases m)
    have "one_line v" using that JObj.prems by (auto simp: list_all_iff m)
    then show ?thesis using JObj.IH [of m v] that by (simp add: m spaces_no_newline escapes_newline)
  qed
  then have "CHR 0x0A \<notin> set (join (CHR '','' # js_sep st (Suc n)) (map (print_member st (Suc n)) ms))"
    using set_join [of "CHR '','' # js_sep st (Suc n)" "map (print_member st (Suc n)) ms"] spaces_no_newline by auto
  then show ?case by (simp add: spaces_no_newline)
qed (simp_all add: escapes_newline number_no_newline)

end

interpretation go_compact: line_printer compact_style
  by unfold_locales (simp_all add: esc_string_no_newline)

lemma encode_one_line: "one_line v \<Longrightarrow> CHR 0x0A \<notin> set (json_encode v)"
  using go_compact.print_one_line [of v 0] by (simp add: print_compact)

lemma json_wf_one_line: "json_wf v \<Longrightarrow> one_line v"
  by (induction v) (auto simp: list_all_iff)

lemma json_encode_no_newline: "json_ok v \<Longrightarrow> CHR 0x0A \<notin> set (json_encode v)"
  by (rule encode_one_line [OF json_wf_one_line [OF json_ok_wf]])

section \<open>Lines\<close>

text \<open>The line protocol: a value and a newline. A reader may see the line without its newline when the
  peer closed early.\<close>

definition json_line :: "json \<Rightarrow> string" where
  "json_line v = json_encode v @ [CHR 0x0A]"

lemma json_line_roundtrip:
  assumes "json_ok v" and "json_depth v \<le> maxNestingDepth"
  shows "json_parse (json_line v) = Some v"
  using parse_encode [OF assms, of "Suc (2 * length (json_line v))" "[CHR 0x0A]"]
  by (simp add: json_parse_def json_line_def value_end_def skip_ws_def json_ws_def digit_byte_def less_eq_char_def)

section \<open>Generic maps\<close>

text \<open>A number decoded into a generic value becomes a float64; a literal too large for one is an
  error. The literal's exact value, and the least magnitude that rounds to infinity.\<close>

definition digits_int :: "string \<Rightarrow> int" where
  "digits_int ds = foldl (\<lambda>n c. 10 * n + (byte_val c - 48)) 0 ds"

definition literal_value :: "string \<Rightarrow> rat" where
  "literal_value lit =
     (let body = (if lit \<noteq> [] \<and> hd lit = CHR ''-'' then tl lit else lit);
          whole = takeWhile digit_byte body;
          s1 = dropWhile digit_byte body;
          frac = (if s1 \<noteq> [] \<and> hd s1 = CHR ''.'' then takeWhile digit_byte (tl s1) else []);
          s2 = (if s1 \<noteq> [] \<and> hd s1 = CHR ''.'' then dropWhile digit_byte (tl s1) else s1);
          ex = (if s2 = [] then 0
                else if tl s2 \<noteq> [] \<and> hd (tl s2) = CHR ''-'' then - digits_int (tl (tl s2))
                else if tl s2 \<noteq> [] \<and> hd (tl s2) = CHR ''+'' then digits_int (tl (tl s2))
                else digits_int (tl s2));
          e = ex - int (length frac);
          m = of_int (digits_int (whole @ frac))
      in if 0 \<le> e then m * 10 ^ nat e else m / 10 ^ nat (- e))"

definition float_overflow :: rat where
  "float_overflow = 2 ^ 1024 - 2 ^ 970"

fun json_fits :: "json \<Rightarrow> bool" where
  "json_fits (JNum lit) = (literal_value lit < float_overflow)"
| "json_fits (JArr vs) = list_all json_fits vs"
| "json_fits (JObj ms) = list_all (\<lambda>(k, v). json_fits v) ms"
| "json_fits _ = True"

text \<open>\<open>json.Unmarshal\<close> into a \<open>map[string]any\<close>: an object, whose later members win, or null, which is
  the nil map.\<close>

definition unmarshal_map :: "string \<Rightarrow> (string \<rightharpoonup> json) option" where
  "unmarshal_map s =
     (case json_parse s of
        Some (JObj ms) \<Rightarrow> if json_fits (JObj ms) then Some (map_of (rev ms)) else None
      | Some JNull \<Rightarrow> Some Map.empty
      | _ \<Rightarrow> None)"

lemma unmarshal_line:
  assumes "json_ok (JObj ms)" and "json_depth (JObj ms) \<le> maxNestingDepth" and "json_fits (JObj ms)"
  shows "unmarshal_map (json_line (JObj ms)) = Some (map_of (rev ms))"
  using json_line_roundtrip [OF assms(1,2)] assms(3) by (simp add: unmarshal_map_def)

end
