(* ===== verification/FileStore.thy ===== *)
theory FileStore
  imports Store Json
begin

text \<open>
  The file-backed store (src/store\_file.go): one JSON object per line, the whole snapshot rewritten
  on every mutation, every verb reading through to the file.

  The part of the file system it uses is \<open>file_state\<close>: the canonical path and the temporary path
  beside it, each absent or bytes with a mode. Saving is the list of system calls the code makes, so
  that a crash can fall between any two of them. A panic of the code is \<open>None\<close>. An entry's empty
  flag list is the nil slice, as in Store; a record keeps nil and empty apart, because the file does.
\<close>

section \<open>Records\<close>

record fileRecord =
  fr_ID :: string
  fr_Content :: string
  fr_BoundIdentity :: string
  fr_SourceClass :: string
  fr_Flags :: "string list option"
  fr_Quarantined :: bool

definition zero_record :: fileRecord where
  "zero_record = \<lparr>fr_ID = [], fr_Content = [], fr_BoundIdentity = [], fr_SourceClass = [],
                  fr_Flags = None, fr_Quarantined = False\<rparr>"

definition toEntry :: "fileRecord \<Rightarrow> entry" where
  "toEntry r =
     \<lparr>e_content = fr_Content r, e_boundIdentity = fr_BoundIdentity r, e_sourceClass = fr_SourceClass r,
      e_flags = (case fr_Flags r of None \<Rightarrow> [] | Some fs \<Rightarrow> fs), e_quarantined = fr_Quarantined r\<rparr>"

definition recordFrom :: "string \<Rightarrow> entry \<Rightarrow> fileRecord" where
  "recordFrom i e =
     \<lparr>fr_ID = i, fr_Content = e_content e, fr_BoundIdentity = e_boundIdentity e,
      fr_SourceClass = e_sourceClass e, fr_Flags = (if e_flags e = [] then None else Some (e_flags e)),
      fr_Quarantined = e_quarantined e\<rparr>"

text \<open>The wire form: field order of the struct, \<open>source_class\<close> omitted when empty, a nil slice is null.\<close>

definition record_json :: "fileRecord \<Rightarrow> json" where
  "record_json r = JObj
     ([(''id'', JStr (fr_ID r)), (''content'', JStr (fr_Content r)),
       (''bound_identity'', JStr (fr_BoundIdentity r))] @
      (if fr_SourceClass r = [] then [] else [(''source_class'', JStr (fr_SourceClass r))]) @
      [(''flags'', case fr_Flags r of None \<Rightarrow> JNull | Some fs \<Rightarrow> JArr (map JStr fs)),
       (''quarantined'', JBool (fr_Quarantined r))])"

section \<open>Decoding a line\<close>

text \<open>Go matches object keys to fields under simple case folding: the ASCII letters, and the two
  other runes that fold to one (long s, Kelvin sign).\<close>

fun fold_name :: "string \<Rightarrow> string" where
  "fold_name [] = []"
| "fold_name [c] = [lower_char c]"
| "fold_name [c, d] = (if c = CHR 0xC5 \<and> d = CHR 0xBF then ''s'' else lower_char c # fold_name [d])"
| "fold_name (c # d # e # s) =
     (if c = CHR 0xC5 \<and> d = CHR 0xBF then CHR ''s'' # fold_name (e # s)
      else if c = CHR 0xE2 \<and> d = CHR 0x84 \<and> e = CHR 0xAA then CHR ''k'' # fold_name s
      else lower_char c # fold_name (d # e # s))"

declare fold_name.simps [simp del]

text \<open>A value stored into a string field, a bool field, the flags: null leaves a string and a bool
  as they are and empties the flags, a value of another type is an error.\<close>

definition into_string :: "json \<Rightarrow> string \<Rightarrow> string option" where
  "into_string v old = (case v of JStr s \<Rightarrow> Some s | JNull \<Rightarrow> Some old | _ \<Rightarrow> None)"

definition into_bool :: "json \<Rightarrow> bool \<Rightarrow> bool option" where
  "into_bool v old = (case v of JBool b \<Rightarrow> Some b | JNull \<Rightarrow> Some old | _ \<Rightarrow> None)"

text \<open>An array goes into the elements a slice already has, those between its length and its capacity
  included: null keeps the one at its place. The old elements are the second argument.\<close>

fun strings_of :: "json list \<Rightarrow> string list \<Rightarrow> string list option" where
  "strings_of [] old = Some []"
| "strings_of (v # vs) old =
     (case into_string v (if old = [] then [] else hd old) of
        None \<Rightarrow> None
      | Some s \<Rightarrow> map_option ((#) s) (strings_of vs (tl old)))"

definition into_strings :: "json \<Rightarrow> string list option \<times> string list \<Rightarrow> (string list option \<times> string list) option" where
  "into_strings v slice =
     (let old = (case fst slice of None \<Rightarrow> [] | Some fs \<Rightarrow> fs) @ snd slice in
      case v of
        JNull \<Rightarrow> Some (None, [])
      | JArr vs \<Rightarrow> map_option (\<lambda>fs. (Some fs, if fs = [] then [] else drop (length fs) old)) (strings_of vs old)
      | _ \<Rightarrow> None)"

text \<open>A record in the making, with the spare elements behind its flags: a repeated flags key merges into what
  an earlier one left.\<close>

fun decode_field :: "string \<times> json \<Rightarrow> fileRecord \<times> string list \<Rightarrow> (fileRecord \<times> string list) option" where
  "decode_field kv (r, spare) =
     (let k = fold_name (fst kv); v = snd kv in
      if k = ''id'' then map_option (\<lambda>s. (r\<lparr>fr_ID := s\<rparr>, spare)) (into_string v (fr_ID r))
      else if k = ''content'' then map_option (\<lambda>s. (r\<lparr>fr_Content := s\<rparr>, spare)) (into_string v (fr_Content r))
      else if k = ''bound_identity'' then
        map_option (\<lambda>s. (r\<lparr>fr_BoundIdentity := s\<rparr>, spare)) (into_string v (fr_BoundIdentity r))
      else if k = ''source_class'' then
        map_option (\<lambda>s. (r\<lparr>fr_SourceClass := s\<rparr>, spare)) (into_string v (fr_SourceClass r))
      else if k = ''flags'' then
        map_option (\<lambda>(fs, spare'). (r\<lparr>fr_Flags := fs\<rparr>, spare')) (into_strings v (fr_Flags r, spare))
      else if k = ''quarantined'' then
        map_option (\<lambda>b. (r\<lparr>fr_Quarantined := b\<rparr>, spare)) (into_bool v (fr_Quarantined r))
      else Some (r, spare))"

fun decode_fields :: "(string \<times> json) list \<Rightarrow> fileRecord \<times> string list \<Rightarrow> (fileRecord \<times> string list) option" where
  "decode_fields [] r = Some r"
| "decode_fields (kv # kvs) r =
     (case decode_field kv r of None \<Rightarrow> None | Some r' \<Rightarrow> decode_fields kvs r')"

definition decode_record :: "string \<Rightarrow> fileRecord option" where
  "decode_record line =
     (case json_parse line of
        Some (JObj ms) \<Rightarrow> map_option fst (decode_fields ms (zero_record, []))
      | Some JNull \<Rightarrow> Some zero_record
      | _ \<Rightarrow> None)"

section \<open>The snapshot\<close>

datatype store_error = OpenFailed | BadLine nat | MissingID nat | LineTooLong

text \<open>The scanner's limit: a line that does not fit the buffer with its terminator.\<close>

definition maxLine :: nat where
  "maxLine = 16 * 1024 * 1024"

definition file_lines :: "string \<Rightarrow> string list" where
  "file_lines s = (let pieces = split_on CHR 0x0A s in if List.last pieces = [] then butlast pieces else pieces)"

fun parse_lines :: "nat \<Rightarrow> string list \<Rightarrow> store_error + fileRecord list" where
  "parse_lines n [] = Inr []"
| "parse_lines n (l # ls) =
     (if maxLine \<le> length l then Inl LineTooLong
      else
        (let line = trim_space l in
         if line = [] then parse_lines (Suc n) ls
         else (case decode_record line of
            None \<Rightarrow> Inl (BadLine (Suc n))
          | Some r \<Rightarrow>
              if fr_ID r = [] then Inl (MissingID (Suc n))
              else map_sum (\<lambda>e. e) ((#) r) (parse_lines (Suc n) ls))))"

text \<open>What opening the path gives: no such file, another error, or its bytes.\<close>

datatype opened = NotExist | OpenError | Opened string

definition parseStoreFile :: "opened \<Rightarrow> store_error + fileRecord list" where
  "parseStoreFile f =
     (case f of NotExist \<Rightarrow> Inr [] | OpenError \<Rightarrow> Inl OpenFailed | Opened bytes \<Rightarrow> parse_lines 0 (file_lines bytes))"

definition record_line :: "fileRecord \<Rightarrow> string" where
  "record_line r = json_encode (record_json r) @ [CHR 0x0A]"

definition snapshot :: "fileRecord list \<Rightarrow> string" where
  "snapshot rs = concat (map record_line rs)"

section \<open>Saving\<close>

record disk_file =
  f_bytes :: string
  f_mode :: nat

record file_state =
  fs_canonical :: "disk_file option"
  fs_temp :: "disk_file option"

datatype fs_call = OpenTemp | WriteTemp string | SyncTemp | CloseTemp | RenameTemp | ChmodCanonical

text \<open>A created file gets mode 0600 less the umask; an existing one is truncated and keeps its mode.\<close>

fun fs_apply :: "nat \<Rightarrow> fs_call \<Rightarrow> file_state \<Rightarrow> file_state" where
  "fs_apply created OpenTemp fs =
     fs\<lparr>fs_temp := Some (case fs_temp fs of
          None \<Rightarrow> \<lparr>f_bytes = [], f_mode = created\<rparr> | Some f \<Rightarrow> f\<lparr>f_bytes := []\<rparr>)\<rparr>"
| "fs_apply created (WriteTemp bs) fs =
     fs\<lparr>fs_temp := map_option (\<lambda>f. f\<lparr>f_bytes := f_bytes f @ bs\<rparr>) (fs_temp fs)\<rparr>"
| "fs_apply created SyncTemp fs = fs"
| "fs_apply created CloseTemp fs = fs"
| "fs_apply created RenameTemp fs = \<lparr>fs_canonical = fs_temp fs, fs_temp = None\<rparr>"
| "fs_apply created ChmodCanonical fs = fs\<lparr>fs_canonical := map_option (\<lambda>f. f\<lparr>f_mode := 384\<rparr>) (fs_canonical fs)\<rparr>"

definition save_calls :: "fileRecord list \<Rightarrow> fs_call list" where
  "save_calls rs = [OpenTemp, WriteTemp (snapshot rs), SyncTemp, CloseTemp, RenameTemp, ChmodCanonical]"

definition save :: "nat \<Rightarrow> fileRecord list \<Rightarrow> file_state \<Rightarrow> file_state" where
  "save created rs fs = fold (fs_apply created) (save_calls rs) fs"

section \<open>The verbs\<close>

definition open_canonical :: "file_state \<Rightarrow> opened" where
  "open_canonical fs = (case fs_canonical fs of None \<Rightarrow> NotExist | Some f \<Rightarrow> Opened (f_bytes f))"

definition NewFileStore :: "file_state \<Rightarrow> store_error option" where
  "NewFileStore fs = (case parseStoreFile (open_canonical fs) of Inl err \<Rightarrow> Some err | Inr _ \<Rightarrow> None)"

text \<open>\<open>None\<close> is the panic.\<close>

definition load :: "file_state \<Rightarrow> fileRecord list option" where
  "load fs = (case parseStoreFile (open_canonical fs) of Inl _ \<Rightarrow> None | Inr rs \<Rightarrow> Some rs)"

fun put_record :: "fileRecord \<Rightarrow> fileRecord list \<Rightarrow> fileRecord list" where
  "put_record n [] = [n]"
| "put_record n (r # rs) = (if fr_ID r = fr_ID n then n # rs else r # put_record n rs)"

definition fst_Put :: "nat \<Rightarrow> string \<Rightarrow> entry \<Rightarrow> file_state \<Rightarrow> file_state option" where
  "fst_Put created i e fs = map_option (\<lambda>rs. save created (put_record (recordFrom i e) rs) fs) (load fs)"

definition fst_Get :: "string \<Rightarrow> file_state \<Rightarrow> entry option option" where
  "fst_Get i fs = map_option (\<lambda>rs. map_option toEntry (List.find (\<lambda>r. fr_ID r = i) rs)) (load fs)"

definition fst_Delete :: "nat \<Rightarrow> string \<Rightarrow> file_state \<Rightarrow> file_state option" where
  "fst_Delete created i fs =
     map_option (\<lambda>rs.
       let kept = filter (\<lambda>r. fr_ID r \<noteq> i) rs; found = list_ex (\<lambda>r. fr_ID r = i) rs
       in if found then save created kept fs else fs) (load fs)"

definition fst_Scan :: "string \<Rightarrow> file_state \<Rightarrow> entry list option" where
  "fst_Scan query fs =
     map_option (\<lambda>rs. map toEntry (filter (\<lambda>r. substringContains (fr_Content r) query) rs)) (load fs)"

definition fst_ScanScoped :: "string \<Rightarrow> string list \<Rightarrow> file_state \<Rightarrow> entry list option" where
  "fst_ScanScoped query visibleKeys fs =
     map_option (\<lambda>rs. map toEntry (filter (\<lambda>r. substringContains (fr_Content r) query \<and>
         keyIn (fr_BoundIdentity r) visibleKeys) rs)) (load fs)"

definition fst_All :: "file_state \<Rightarrow> entry list option" where
  "fst_All fs = map_option (map toEntry) (load fs)"

definition fst_AllByIndex :: "file_state \<Rightarrow> entry list gomap option" where
  "fst_AllByIndex fs = map_option (\<lambda>es. [(primaryIndexName, es)]) (fst_All fs)"

section \<open>Lines\<close>

lemma split_on_sep: "sep \<notin> set l \<Longrightarrow> split_on sep (l @ sep # s) = l # split_on sep s"
  by (induction l) auto

lemma file_lines_snapshot:
  assumes "\<forall>l \<in> set ls. CHR 0x0A \<notin> set l"
  shows "file_lines (concat (map (\<lambda>l. l @ [CHR 0x0A]) ls)) = ls"
proof -
  have "split_on CHR 0x0A (concat (map (\<lambda>l. l @ [CHR 0x0A]) ls)) = ls @ [[]]"
    using assms by (induction ls) (auto simp: split_on_sep)
  then show ?thesis by (simp add: file_lines_def)
qed

lemma strip_left_none: "lead_seq ws s = None \<Longrightarrow> strip_left ws s = s"
  by (simp add: strip_left.simps)

text \<open>A line of the snapshot begins and ends with a brace, so trimming leaves it alone.\<close>

lemma trim_space_braces: "trim_space (CHR 0x7B # s @ [CHR 0x7D]) = CHR 0x7B # s @ [CHR 0x7D]"
proof -
  have ends: "List.find (\<lambda>w. w \<noteq> [] \<and> prefix w (CHR 0x7B # x)) space_seqs = None"
    "List.find (\<lambda>w. w \<noteq> [] \<and> prefix w (CHR 0x7D # x)) (map rev space_seqs) = None" for x
    by (simp_all add: space_seqs_def ascii_spaces_def)
  have "strip_left space_seqs (CHR 0x7B # s @ [CHR 0x7D]) = CHR 0x7B # s @ [CHR 0x7D]"
    using ends(1) by (intro strip_left_none) (simp add: lead_seq_def)
  moreover have "strip_left (map rev space_seqs) (CHR 0x7D # rev s @ [CHR 0x7B]) = CHR 0x7D # rev s @ [CHR 0x7B]"
    using ends(2) by (intro strip_left_none) (simp add: lead_seq_def)
  ultimately show ?thesis by (simp add: trim_space_def)
qed

section \<open>A line round-trips\<close>

text \<open>Every string of the record is UTF-8; only then does the file hold what was stored.\<close>

definition record_utf8 :: "fileRecord \<Rightarrow> bool" where
  "record_utf8 r \<longleftrightarrow>
     valid_utf8 (fr_ID r) \<and> valid_utf8 (fr_Content r) \<and> valid_utf8 (fr_BoundIdentity r) \<and>
     valid_utf8 (fr_SourceClass r) \<and>
     (case fr_Flags r of None \<Rightarrow> True | Some fs \<Rightarrow> list_all valid_utf8 fs)"

definition record_ok :: "fileRecord \<Rightarrow> bool" where
  "record_ok r \<longleftrightarrow> record_utf8 r \<and> fr_ID r \<noteq> [] \<and> length (json_encode (record_json r)) < maxLine"

lemma strings_of_map [simp]: "strings_of (map JStr fs) old = Some fs"
  by (induction fs arbitrary: old) (auto simp: into_string_def)

lemma into_strings_flags [simp]:
  "into_strings (case fl of None \<Rightarrow> JNull | Some fs \<Rightarrow> JArr (map JStr fs)) (None, []) = Some (fl, [])"
  by (cases fl) (auto simp: into_strings_def Let_def)

lemma json_ok_record: "record_utf8 r \<Longrightarrow> json_ok (record_json r)"
proof -
  assume r: "record_utf8 r"
  have names: "valid_utf8 ''id''" "valid_utf8 ''content''" "valid_utf8 ''bound_identity''"
    "valid_utf8 ''source_class''" "valid_utf8 ''flags''" "valid_utf8 ''quarantined''"
    by (rule valid_utf8_ascii, code_simp)+
  show ?thesis
    using r names by (auto simp: record_json_def record_utf8_def list_all_iff split: option.splits)
qed

lemma fold_max_zero: "\<forall>x \<in> set xs. x = (0 :: nat) \<Longrightarrow> fold max xs 0 = 0"
  by (induction xs) auto

lemma json_depth_record: "json_depth (record_json r) \<le> 2"
proof -
  have "json_depth (JArr (map JStr fs)) = 1" for fs by (simp add: fold_max_zero)
  then show ?thesis by (cases "fr_Flags r") (auto simp: record_json_def)
qed

lemma field_names:
  "fold_name ''id'' = ''id''" "fold_name ''content'' = ''content''"
  "fold_name ''bound_identity'' = ''bound_identity''" "fold_name ''source_class'' = ''source_class''"
  "fold_name ''flags'' = ''flags''" "fold_name ''quarantined'' = ''quarantined''"
  by code_simp+

lemma decode_field_simps:
  "decode_field (''id'', JStr s) (r, sp) = Some (r\<lparr>fr_ID := s\<rparr>, sp)"
  "decode_field (''content'', JStr s) (r, sp) = Some (r\<lparr>fr_Content := s\<rparr>, sp)"
  "decode_field (''bound_identity'', JStr s) (r, sp) = Some (r\<lparr>fr_BoundIdentity := s\<rparr>, sp)"
  "decode_field (''source_class'', JStr s) (r, sp) = Some (r\<lparr>fr_SourceClass := s\<rparr>, sp)"
  "fr_Flags r = None \<Longrightarrow> decode_field (''flags'', case fl of None \<Rightarrow> JNull | Some fs \<Rightarrow> JArr (map JStr fs)) (r, []) =
     Some (r\<lparr>fr_Flags := fl\<rparr>, [])"
  "decode_field (''quarantined'', JBool b) (r, sp) = Some (r\<lparr>fr_Quarantined := b\<rparr>, sp)"
  by (simp_all add: Let_def field_names into_string_def into_bool_def)

declare decode_field.simps [simp del]

lemma decode_record_json: "record_utf8 r \<Longrightarrow> decode_record (json_encode (record_json r)) = Some r"
proof -
  assume r: "record_utf8 r"
  have "json_depth (record_json r) \<le> maxNestingDepth"
    using json_depth_record [of r] by (simp add: maxNestingDepth_def)
  from json_roundtrip [OF json_ok_record [OF r] this]
  have parsed: "json_parse (json_encode (record_json r)) = Some (record_json r)" .
  obtain i c b sc fl q where fields: "r = \<lparr>fr_ID = i, fr_Content = c, fr_BoundIdentity = b, fr_SourceClass = sc,
      fr_Flags = fl, fr_Quarantined = q\<rparr>" by (cases r)
  show ?thesis
    unfolding decode_record_def parsed
    unfolding record_json_def fields
    by (cases "sc = []") (simp_all add: decode_field_simps zero_record_def)
qed

lemma record_text:
  obtains s where "json_encode (record_json r) = CHR 0x7B # s @ [CHR 0x7D]"
  by (simp add: record_json_def)

lemma parse_lines_records:
  "list_all record_ok rs \<Longrightarrow> parse_lines n (map (\<lambda>r. json_encode (record_json r)) rs) = Inr rs"
proof (induction rs arbitrary: n)
  case (Cons r rs)
  then have r: "record_utf8 r" "fr_ID r \<noteq> []" "\<not> maxLine \<le> length (json_encode (record_json r))"
    by (auto simp: record_ok_def)
  have "trim_space (json_encode (record_json r)) = json_encode (record_json r)"
    by (rule record_text [of r]) (simp only: trim_space_braces)
  moreover have "json_encode (record_json r) \<noteq> []" by (simp add: record_json_def)
  ultimately show ?case
    using Cons r by (simp add: Let_def decode_record_json)
qed simp

lemma snapshot_lines_utf8:
  assumes "list_all record_utf8 rs"
  shows "file_lines (snapshot rs) = map (\<lambda>r. json_encode (record_json r)) rs"
proof -
  have "snapshot rs = concat (map (\<lambda>l. l @ [CHR 0x0A]) (map (\<lambda>r. json_encode (record_json r)) rs))"
    by (simp add: snapshot_def record_line_def [abs_def] comp_def)
  moreover have "\<forall>l \<in> set (map (\<lambda>r. json_encode (record_json r)) rs). CHR 0x0A \<notin> set l"
    using assms json_encode_no_newline json_ok_record by (auto simp: list_all_iff)
  ultimately show ?thesis using file_lines_snapshot by presburger
qed

lemma parse_snapshot:
  "list_all record_ok rs \<Longrightarrow> parseStoreFile (Opened (snapshot rs)) = Inr rs"
  using snapshot_lines_utf8 [of rs]
  by (simp add: parseStoreFile_def parse_lines_records list_all_iff record_ok_def)

section \<open>Refinement of the abstract store\<close>

definition rec_map :: "fileRecord list \<Rightarrow> entry gomap" where
  "rec_map rs = map (\<lambda>r. (fr_ID r, toEntry r)) rs"

text \<open>The file parses to records with distinct ids, each fit to be written again.\<close>

definition file_inv :: "file_state \<Rightarrow> bool" where
  "file_inv fs \<longleftrightarrow> (\<exists>rs. load fs = Some rs \<and> wf_map (rec_map rs) \<and> list_all record_ok rs)"

definition file_abs :: "file_state \<Rightarrow> (string \<rightharpoonup> entry)" where
  "file_abs fs = (case load fs of None \<Rightarrow> Map.empty | Some rs \<Rightarrow> map_of (rec_map rs))"

definition storable :: "string \<Rightarrow> entry \<Rightarrow> bool" where
  "storable i e \<longleftrightarrow> record_ok (recordFrom i e)"

lemma toEntry_recordFrom [simp]: "toEntry (recordFrom i e) = e" "fr_ID (recordFrom i e) = i"
  by (simp_all add: toEntry_def recordFrom_def)

lemma wf_rec_map: "wf_map (rec_map rs) \<longleftrightarrow> distinct (map fr_ID rs)"
  by (simp add: wf_map_def rec_map_def comp_def)

lemma save_canonical: "\<exists>m. fs_canonical (save created rs fs) = Some \<lparr>f_bytes = snapshot rs, f_mode = 384\<rparr>"
  by (cases "fs_temp fs") (simp_all add: save_def save_calls_def)

lemma load_save: "list_all record_ok rs \<Longrightarrow> load (save created rs fs) = Some rs"
  using save_canonical [of created rs fs] by (auto simp: load_def open_canonical_def parse_snapshot)

lemma put_record_ids: "set (map fr_ID (put_record n rs)) = insert (fr_ID n) (set (map fr_ID rs))"
  by (induction rs) auto

lemma put_record_wf: "distinct (map fr_ID rs) \<Longrightarrow> distinct (map fr_ID (put_record n rs))"
proof (induction rs)
  case (Cons r rs)
  then show ?case using put_record_ids [of n rs] by auto
qed simp

lemma put_record_ok: "record_ok n \<Longrightarrow> list_all record_ok rs \<Longrightarrow> list_all record_ok (put_record n rs)"
  by (induction rs) auto

lemma put_record_map: "map_of (rec_map (put_record n rs)) = (map_of (rec_map rs))(fr_ID n \<mapsto> toEntry n)"
  by (induction rs) (auto simp: rec_map_def fun_upd_twist)

lemma filter_map_of: "map_of (rec_map (filter (\<lambda>r. fr_ID r \<noteq> i) rs)) = (map_of (rec_map rs))(i := None)"
  by (induction rs) (auto simp: rec_map_def fun_eq_iff)

lemma find_map_of: "map_option toEntry (List.find (\<lambda>r. fr_ID r = i) rs) = map_of (rec_map rs) i"
  by (induction rs) (auto simp: rec_map_def)

lemma file_put:
  assumes "file_inv fs" and "storable i e"
  shows "\<exists>fs'. fst_Put created i e fs = Some fs' \<and> file_inv fs' \<and> file_abs fs' = (file_abs fs)(i \<mapsto> e)"
proof -
  obtain rs where rs: "load fs = Some rs" "distinct (map fr_ID rs)" "list_all record_ok rs"
    using assms(1) by (auto simp: file_inv_def wf_rec_map)
  let ?rs = "put_record (recordFrom i e) rs"
  have "load (save created ?rs fs) = Some ?rs"
    using rs assms(2) by (intro load_save put_record_ok) (simp_all add: storable_def)
  with rs assms(2) show ?thesis
    by (simp add: fst_Put_def file_inv_def file_abs_def wf_rec_map put_record_wf put_record_ok storable_def
        put_record_map)
qed

lemma file_delete:
  assumes "file_inv fs"
  shows "\<exists>fs'. fst_Delete created i fs = Some fs' \<and> file_inv fs' \<and> file_abs fs' = (file_abs fs)(i := None)"
proof -
  obtain rs where rs: "load fs = Some rs" "distinct (map fr_ID rs)" "list_all record_ok rs"
    using assms by (auto simp: file_inv_def wf_rec_map)
  let ?kept = "filter (\<lambda>r. fr_ID r \<noteq> i) rs"
  have ok: "list_all record_ok ?kept" "distinct (map fr_ID ?kept)"
    using rs(2,3) by (auto simp: list_all_iff distinct_map_filter)
  show ?thesis
  proof (cases "list_ex (\<lambda>r. fr_ID r = i) rs")
    case True
    with rs ok load_save [OF ok(1), of created fs] show ?thesis
      by (simp add: fst_Delete_def file_inv_def file_abs_def wf_rec_map filter_map_of)
  next
    case False
    then have "?kept = rs" by (auto simp: list_ex_iff filter_id_conv)
    then have "map_of (rec_map rs) = (map_of (rec_map rs))(i := None)" using filter_map_of [of i rs] by simp
    with rs False show ?thesis
      by (simp add: fst_Delete_def file_inv_def file_abs_def wf_rec_map)
  qed
qed

lemma file_reads:
  assumes "file_inv fs"
  shows "fst_Get i fs = Some (file_abs fs i)"
    and "\<exists>es. fst_All fs = Some es \<and> mset es = stored (file_abs fs)"
    and "\<exists>es. fst_Scan q fs = Some es \<and>
           mset es = filter_mset (\<lambda>e. str_contains (e_content e) q) (stored (file_abs fs))"
    and "\<exists>es. fst_ScanScoped q ks fs = Some es \<and>
           mset es = filter_mset (\<lambda>e. str_contains (e_content e) q \<and> e_boundIdentity e \<in> set ks) (stored (file_abs fs))"
proof -
  obtain rs where rs: "load fs = Some rs" "wf_map (rec_map rs)"
    using assms by (auto simp: file_inv_def)
  have abs: "stored (file_abs fs) = mset (map toEntry rs)"
    using rs stored_map_of [OF rs(2)] by (simp add: file_abs_def rec_map_def comp_def)
  have filt: "mset (map toEntry (filter P rs)) = filter_mset Q (mset (map toEntry rs))"
    if "\<And>r. P r \<longleftrightarrow> Q (toEntry r)" for P Q
    using that by (simp add: filter_mset_image_mset comp_def flip: mset_filter) (simp add: mset_filter)
  show "fst_Get i fs = Some (file_abs fs i)"
    using rs by (simp add: fst_Get_def file_abs_def find_map_of)
  show "\<exists>es. fst_All fs = Some es \<and> mset es = stored (file_abs fs)"
    using rs abs by (simp add: fst_All_def)
  show "\<exists>es. fst_Scan q fs = Some es \<and>
      mset es = filter_mset (\<lambda>e. str_contains (e_content e) q) (stored (file_abs fs))"
    using rs abs filt [of "\<lambda>r. substringContains (fr_Content r) q" "\<lambda>e. str_contains (e_content e) q"]
    by (simp add: fst_Scan_def toEntry_def substringContains_iff)
  show "\<exists>es. fst_ScanScoped q ks fs = Some es \<and>
      mset es = filter_mset (\<lambda>e. str_contains (e_content e) q \<and> e_boundIdentity e \<in> set ks) (stored (file_abs fs))"
    using rs abs filt [of "\<lambda>r. substringContains (fr_Content r) q \<and> keyIn (fr_BoundIdentity r) ks"
        "\<lambda>e. str_contains (e_content e) q \<and> e_boundIdentity e \<in> set ks"]
    by (simp add: fst_ScanScoped_def toEntry_def substringContains_iff)
qed

section \<open>The interface\<close>

text \<open>The method table a \<open>*FileStore\<close> puts behind the MemoryStore interface. Its functions are total: where a
  verb panics they leave the file alone and return nothing. \<open>file_readable\<close> is the condition under
  which no verb panics on loading; the guard's calls over this table are studied in theory Durable,
  where a panic ends the run.\<close>

definition file_readable :: "file_state \<Rightarrow> bool" where
  "file_readable fs \<longleftrightarrow> load fs \<noteq> None"

definition file_ops :: "nat \<Rightarrow> file_state memory_store_ops" where
  "file_ops created =
     \<lparr>ms_Put = (\<lambda>i e fs. case fst_Put created i e fs of None \<Rightarrow> fs | Some fs' \<Rightarrow> fs'),
      ms_Get = (\<lambda>i fs. case fst_Get i fs of None \<Rightarrow> None | Some e \<Rightarrow> e),
      ms_Delete = (\<lambda>i fs. case fst_Delete created i fs of None \<Rightarrow> fs | Some fs' \<Rightarrow> fs'),
      ms_Scan = (\<lambda>q fs. case fst_Scan q fs of None \<Rightarrow> [] | Some es \<Rightarrow> es),
      ms_ScanScoped = (\<lambda>q ks fs. case fst_ScanScoped q ks fs of None \<Rightarrow> [] | Some es \<Rightarrow> es),
      ms_All = (\<lambda>fs. case fst_All fs of None \<Rightarrow> [] | Some es \<Rightarrow> es),
      ms_AllByIndex = (\<lambda>fs. case fst_AllByIndex fs of None \<Rightarrow> [] | Some b \<Rightarrow> b)\<rparr>"

lemma file_abs_finite: "finite (dom (file_abs fs))"
  by (simp add: file_abs_def finite_dom_map_of split: option.split)

lemma file_indexes:
  assumes "file_inv fs"
  obtains es where "ms_AllByIndex (file_ops created) fs = [(primaryIndexName, es)]"
    and "mset es = stored (file_abs fs)"
  using file_reads(2) [OF assms] that by (auto simp: file_ops_def fst_AllByIndex_def)

interpretation disk: bounded_store "file_ops created" file_abs file_inv storable for created
proof (unfold_locales, goal_cases)
  case (1 s) show ?case by (rule file_abs_finite)
next
  case (2 s i) then show ?case by (simp add: file_ops_def file_reads)
next
  case (3 s i e) with file_put [OF this, of created] show ?case by (auto simp: file_ops_def)
next
  case (4 s i e) with file_put [OF this, of created] show ?case by (auto simp: file_ops_def)
next
  case (5 s i) with file_delete [OF this, of created i] show ?case by (auto simp: file_ops_def)
next
  case (6 s i) with file_delete [OF this, of created i] show ?case by (auto simp: file_ops_def)
next
  case (7 s q) with file_reads(3) [OF this, of q] show ?case by (auto simp: file_ops_def)
next
  case (8 s q ks) with file_reads(4) [OF this, of q ks] show ?case by (auto simp: file_ops_def)
next
  case (9 s) with file_reads(2) [OF this] show ?case by (auto simp: file_ops_def)
next
  case (10 s) then show ?case by (rule file_indexes [of s created]) (simp add: wf_map_def)
next
  case (11 s) then show ?case by (rule file_indexes [of s created]) simp
next
  case (12 s n es) then show ?case by (elim file_indexes [of s created]) auto
qed

lemma file_inv_readable: "file_inv fs \<Longrightarrow> file_readable fs"
  by (auto simp: file_inv_def file_readable_def)

section \<open>Properties\<close>

fun file_step :: "nat \<Rightarrow> store_call \<Rightarrow> file_state \<Rightarrow> file_state option" where
  "file_step created (CPut i e) fs = fst_Put created i e fs"
| "file_step created (CDelete i) fs = fst_Delete created i fs"

fun file_run :: "nat \<Rightarrow> store_call list \<Rightarrow> file_state \<Rightarrow> file_state option" where
  "file_run created [] fs = Some fs"
| "file_run created (c # cs) fs =
     (case file_step created c fs of None \<Rightarrow> None | Some fs' \<Rightarrow> file_run created cs fs')"

definition call_storable :: "store_call \<Rightarrow> bool" where
  "call_storable c = (case c of CPut i e \<Rightarrow> storable i e | CDelete i \<Rightarrow> True)"

definition fresh_path :: file_state where
  "fresh_path = \<lparr>fs_canonical = None, fs_temp = None\<rparr>"

lemma fresh_path_load: "load fresh_path = Some []"
  by (simp add: load_def open_canonical_def fresh_path_def parseStoreFile_def)

lemma file_run_refines:
  assumes "file_inv fs" and "list_all call_storable cs"
  shows "\<exists>fs'. file_run created cs fs = Some fs' \<and> file_inv fs' \<and> file_abs fs' = foldl spec_step (file_abs fs) cs"
  using assms
proof (induction cs arbitrary: fs)
  case (Cons c cs)
  have "\<exists>fs1. file_step created c fs = Some fs1 \<and> file_inv fs1 \<and> file_abs fs1 = spec_step (file_abs fs) c"
    using Cons.prems file_put [of fs] file_delete [of fs] by (cases c) (auto simp: call_storable_def)
  then obtain fs1 where fs1: "file_step created c fs = Some fs1" "file_inv fs1"
    "file_abs fs1 = spec_step (file_abs fs) c" by blast
  with Cons.IH [OF fs1(2)] Cons.prems(2) show ?case by simp
qed simp

text \<open>C19: The file store refines the abstract map through its bytes. From a fresh path, any sequence
  of puts and deletes whose entries are UTF-8 and fit a line succeeds without a panic, and what a
  second handle reads back from the file by parsing it, entry by entry and scan by scan, is the
  map that the calls describe, with content, binding, provenance, flags and quarantine bit intact.\<close>

theorem file_store_refines:
  assumes "list_all call_storable cs"
  shows "\<exists>fs. file_run created cs fresh_path = Some fs \<and> NewFileStore fs = None \<and>
     (\<forall>i. fst_Get i fs = Some (foldl spec_step Map.empty cs i)) \<and>
     (\<exists>es. fst_All fs = Some es \<and> mset es = stored (foldl spec_step Map.empty cs)) \<and>
     (\<forall>q ks. \<exists>es. fst_ScanScoped q ks fs = Some es \<and>
        mset es = filter_mset (\<lambda>e. str_contains (e_content e) q \<and> e_boundIdentity e \<in> set ks)
          (stored (foldl spec_step Map.empty cs)))"
proof -
  have inv: "file_inv fresh_path" "file_abs fresh_path = Map.empty"
    by (simp_all add: file_inv_def file_abs_def fresh_path_load rec_map_def wf_map_def)
  from file_run_refines [OF inv(1) assms, of created] obtain fs where fs: "file_run created cs fresh_path = Some fs"
    "file_inv fs" "file_abs fs = foldl spec_step Map.empty cs" by (auto simp: inv)
  have "NewFileStore fs = None" using fs(2) by (auto simp: file_inv_def load_def NewFileStore_def split: sum.splits)
  then show ?thesis using fs file_reads [OF fs(2)] by auto
qed

definition ascii_entry :: entry where
  "ascii_entry = \<lparr>e_content = ''a <b>'', e_boundIdentity = ''spiffe://t/a'', e_sourceClass = ''system'',
     e_flags = [''pii:EMAIL''], e_quarantined = True\<rparr>"

lemma ascii_entry_storable: "storable ''mem-1'' ascii_entry"
proof -
  have "valid_utf8 ''mem-1''" "valid_utf8 ''a <b>''" "valid_utf8 ''spiffe://t/a''" "valid_utf8 ''system''"
    "valid_utf8 ''pii:EMAIL''" by (rule valid_utf8_ascii, code_simp)+
  moreover have "length (json_encode (record_json (recordFrom ''mem-1'' ascii_entry))) < 200" by code_simp
  ultimately show ?thesis
    by (simp add: storable_def record_ok_def record_utf8_def maxLine_def) (simp add: recordFrom_def ascii_entry_def)
qed

theorem file_store_refines_witness:
  "\<exists>fs. file_run 384 [CPut ''mem-1'' ascii_entry] fresh_path = Some fs \<and> fst_Get ''mem-1'' fs = Some (Some ascii_entry)"
proof -
  have "list_all call_storable [CPut ''mem-1'' ascii_entry]" by (simp add: call_storable_def ascii_entry_storable)
  from file_store_refines [OF this, of 384] show ?thesis by auto
qed

text \<open>A snapshot round-trips byte for byte: parsing what save writes gives the records back, and
  saving those again writes the same bytes.\<close>

theorem snapshot_roundtrip:
  assumes "list_all record_ok rs"
  shows "parseStoreFile (Opened (snapshot rs)) = Inr rs \<and>
         open_canonical (save created rs fs) = Opened (snapshot rs) \<and>
         fs_temp (save created rs fs) = None"
  using parse_snapshot [OF assms] save_canonical [of created rs fs]
  by (cases "fs_temp fs") (auto simp: open_canonical_def save_def save_calls_def)

theorem snapshot_roundtrip_witness:
  "parseStoreFile (Opened (snapshot [recordFrom ''mem-1'' ascii_entry])) = Inr [recordFrom ''mem-1'' ascii_entry]"
  using snapshot_roundtrip [of "[recordFrom ''mem-1'' ascii_entry]" 384 fresh_path] ascii_entry_storable
  by (simp add: storable_def)

definition crashed_save :: "nat \<Rightarrow> fileRecord list \<Rightarrow> nat \<Rightarrow> nat \<Rightarrow> file_state \<Rightarrow> file_state" where
  "crashed_save created rs k written fs =
     (if k = 1 then fold (fs_apply created) [OpenTemp, WriteTemp (take written (snapshot rs))] fs
      else fold (fs_apply created) (take k (save_calls rs)) fs)"

text \<open>C20: Saving is atomic under crashes. Whatever prefix of its system calls has run, and however
  much of the write got through, the canonical path holds either the old file, mode included, or
  the complete new snapshot, never a part of one.\<close>

theorem save_crash_atomic:
  "fs_canonical (crashed_save created rs k written fs) =
     (if k < 5 then fs_canonical fs
      else Some \<lparr>f_bytes = snapshot rs,
                 f_mode = (if k = 5 then (case fs_temp fs of None \<Rightarrow> created | Some f \<Rightarrow> f_mode f) else 384)\<rparr>)"
proof -
  consider "k = 0" | "k = 1" | "k = 2" | "k = 3" | "k = 4" | "k = 5" | "6 \<le> k" by linarith
  then show ?thesis
    by cases (auto simp: crashed_save_def save_calls_def take_Cons' split: option.split)
qed

lemma put_record_split:
  "list_all record_ok rs \<Longrightarrow>
     \<exists>as bs. put_record n rs = as @ n # bs \<and> list_all record_ok as \<and> list_all record_ok bs"
proof (induction rs)
  case Nil
  show ?case by (rule exI [of _ "[]"], rule exI [of _ "[]"]) simp
next
  case (Cons r rs)
  show ?case
  proof (cases "fr_ID r = fr_ID n")
    case True
    with Cons.prems show ?thesis by (intro exI [of _ "[]"] exI [of _ rs]) simp
  next
    case False
    from Cons obtain as bs where "put_record n rs = as @ n # bs" "list_all record_ok as" "list_all record_ok bs" by auto
    with False Cons.prems show ?thesis by (intro exI [of _ "r # as"] exI [of _ bs]) simp
  qed
qed

lemma parse_lines_too_long:
  "list_all record_ok as \<Longrightarrow> maxLine \<le> length l \<Longrightarrow>
     parse_lines n (map (\<lambda>r. json_encode (record_json r)) as @ l # ls) = Inl LineTooLong"
proof (induction as arbitrary: n)
  case (Cons r as)
  then have r: "record_utf8 r" "fr_ID r \<noteq> []" "\<not> maxLine \<le> length (json_encode (record_json r))"
    by (auto simp: record_ok_def)
  have "trim_space (json_encode (record_json r)) = json_encode (record_json r)"
    by (rule record_text [of r]) (simp only: trim_space_braces)
  moreover have "json_encode (record_json r) \<noteq> []" by (simp add: record_json_def)
  ultimately show ?case using Cons r by (simp add: Let_def decode_record_json)
qed simp

text \<open>C40: A deletion leaves nothing of the entry on disk. After an id was put and deleted, the file is
  byte for byte the one that any other entry under that id would have left: no byte of the deleted
  content, binding or flags influences it.\<close>

theorem file_delete_forgets:
  assumes "file_inv fs" and "storable i e" and "storable i e'"
  shows "\<exists>f. fs_canonical (the (fst_Delete created i (the (fst_Put created i e fs)))) = Some f \<and>
             fs_canonical (the (fst_Delete created i (the (fst_Put created i e' fs)))) = Some f"
proof -
  obtain rs where rs: "load fs = Some rs" "distinct (map fr_ID rs)" "list_all record_ok rs"
    using assms(1) by (auto simp: file_inv_def wf_rec_map)
  have "fs_canonical (the (fst_Delete created i (the (fst_Put created i x fs)))) =
      Some \<lparr>f_bytes = snapshot (filter (\<lambda>r. fr_ID r \<noteq> i) rs), f_mode = 384\<rparr>" if "storable i x" for x
  proof -
    let ?rs = "put_record (recordFrom i x) rs"
    have "load (save created ?rs fs) = Some ?rs"
      using rs that by (intro load_save put_record_ok) (simp_all add: storable_def)
    moreover have "list_ex (\<lambda>r. fr_ID r = i) ?rs"
      by (induction rs) auto
    moreover have "filter (\<lambda>r. fr_ID r \<noteq> i) ?rs = filter (\<lambda>r. fr_ID r \<noteq> i) rs"
      by (induction rs) auto
    ultimately show ?thesis
      using rs save_canonical by (simp add: fst_Put_def fst_Delete_def Let_def)
  qed
  with assms(2,3) show ?thesis by blast
qed

theorem file_delete_forgets_witness:
  "\<exists>f. fs_canonical (the (fst_Delete 384 ''mem-1'' (the (fst_Put 384 ''mem-1'' ascii_entry fresh_path)))) = Some f"
proof -
  have "file_inv fresh_path" by (simp add: file_inv_def fresh_path_load rec_map_def wf_map_def)
  from file_delete_forgets [OF this ascii_entry_storable ascii_entry_storable, of 384] show ?thesis by blast
qed

text \<open>A line of the snapshot may not reach 16 MiB, but Put does not check: it writes the entry, and the file
  cannot be loaded again. What that does to a guard is shown in theory Durable.\<close>

lemma oversized_put_unloadable:
  assumes "file_inv fs" and "record_utf8 (recordFrom i e)"
    and "maxLine \<le> length (json_encode (record_json (recordFrom i e)))"
  shows "\<exists>fs'. fst_Put created i e fs = Some fs' \<and> NewFileStore fs' = Some LineTooLong \<and> load fs' = None"
proof -
  obtain rs where rs: "load fs = Some rs" "list_all record_ok rs"
    using assms(1) by (auto simp: file_inv_def)
  obtain as bs where split: "put_record (recordFrom i e) rs = as @ recordFrom i e # bs"
    and ok: "list_all record_ok as" "list_all record_ok bs" using put_record_split [OF rs(2)] by blast
  have "list_all record_utf8 (as @ recordFrom i e # bs)"
    using ok assms(2) by (auto simp: list_all_iff record_ok_def)
  note lines = snapshot_lines_utf8 [OF this]
  let ?fs = "save created (as @ recordFrom i e # bs) fs"
  have "parseStoreFile (open_canonical ?fs) = Inl LineTooLong"
    using save_canonical [of created "as @ recordFrom i e # bs" fs] parse_lines_too_long [OF ok(1) assms(3)]
    by (auto simp: open_canonical_def parseStoreFile_def lines)
  then have "load ?fs = None" "NewFileStore ?fs = Some LineTooLong"
    by (simp_all add: load_def NewFileStore_def)
  then show ?thesis
    using rs split by (simp add: fst_Put_def)
qed

text \<open>A run of less-than signs takes six bytes each once escaped.\<close>

lemma esc_less_than: "esc_string (replicate n CHR ''<'') = concat (replicate n (esc_ascii CHR ''<''))"
  by (induction n) (simp_all add: esc_string.simps(2) decode_rune_ascii)

lemma less_than_entry:
  assumes "valid_utf8 i" and "valid_utf8 (e_boundIdentity e)" and "valid_utf8 (e_sourceClass e)"
    and "list_all valid_utf8 (e_flags e)" and "e_content e = replicate n CHR ''<''"
  shows "record_utf8 (recordFrom i e)" and "6 * n \<le> length (json_encode (record_json (recordFrom i e)))"
proof -
  have "valid_utf8 (replicate n CHR ''<'')"
    by (rule valid_utf8_ascii) (simp add: is_ascii_def list_all_iff ascii_byte)
  with assms show "record_utf8 (recordFrom i e)"
    by (simp add: record_utf8_def recordFrom_def)
  have "length (esc_ascii CHR ''<'') = 6" by code_simp
  then have "length (esc_string (replicate n CHR ''<'')) = 6 * n"
    by (simp add: esc_less_than length_concat sum_list_replicate)
  moreover have "length (esc_string (e_content e)) \<le> length (json_encode (record_json (recordFrom i e)))"
    by (simp add: record_json_def recordFrom_def json_string_def)
  ultimately show "6 * n \<le> length (json_encode (record_json (recordFrom i e)))"
    by (simp add: assms(5) del: length_replicate)
qed

end
