(* ===== verification/Wiring.thy ===== *)
theory Wiring
  imports Guard Presidio FileStore
begin

text \<open>
  How main builds a guard (src/main.go, src/store\_config.go, src/detector\_config.go): the two
  factories, the environment's off-switches, and the builder chain of the serve command. The
  environment is a function from names to values, empty when unset; exiting the process with a
  status and a message is a value.

  \<open>wired_guard\<close> is every guard the program can put together over its two in-process backings; the
  properties at the end are about all of them. They rest on the contract \<open>guard_seams\<close> of theory
  Guard, interpreted here.
\<close>

section \<open>The detector factory\<close>

text \<open>The values of the Detector interface. The process behind a PresidioDetector answers \<open>answers t\<close>
  on text t.\<close>

datatype detector_value =
    NativeValue NativeDetector
  | RegexValue RegexDetector
  | PresidioValue PresidioDetector "string \<Rightarrow> presidioEntity list option"

primrec det_of :: "detector_value \<Rightarrow> detector" where
  "det_of (NativeValue d) = native_detector d"
| "det_of (RegexValue d) = regex_detector d"
| "det_of (PresidioValue d answers) = presidio_detector d answers"

definition BackendRegex :: string where "BackendRegex = ''regex''"
definition BackendNative :: string where "BackendNative = ''native''"
definition BackendPresidio :: string where "BackendPresidio = ''presidio''"

definition NewDetectorFromConfig ::
  "(string \<Rightarrow> presidioEntity list option) \<Rightarrow> string \<Rightarrow> string + detector_value" where
  "NewDetectorFromConfig answers backend =
     (if backend = [] \<or> backend = BackendNative then Inr (NativeValue NewNativeDetector)
      else if backend = BackendRegex then Inr (RegexValue NewRegexDetector)
      else if backend = BackendPresidio then
        Inr (PresidioValue (NewPresidioDetector \<lparr>pc_pythonBin = [], pc_scriptPath = [], pc_minScore = 0\<rparr>) answers)
      else Inl (''unknown detector backend '' @ backend))"

section \<open>The store factory\<close>

datatype store_value = MemoryValue in_memory_store | FileValue string

datatype store_config_error = StorePathRequired | StoreFileInvalid store_error | UnknownStore string

definition StoreMemory :: string where "StoreMemory = ''memory''"
definition StoreFile :: string where "StoreFile = ''file''"

text \<open>\<open>disk\<close> gives the state of the file system at a path.\<close>

definition NewStoreFromConfig ::
  "(string \<Rightarrow> file_state) \<Rightarrow> string \<Rightarrow> string \<Rightarrow> store_config_error + store_value" where
  "NewStoreFromConfig disk backend path =
     (if backend = [] \<or> backend = StoreMemory then Inr (MemoryValue NewInMemoryStore)
      else if backend = StoreFile then
        (if path = [] then Inl StorePathRequired
         else (case NewFileStore (disk path) of
                 Some err \<Rightarrow> Inl (StoreFileInvalid err) | None \<Rightarrow> Inr (FileValue path)))
      else Inl (UnknownStore backend))"

section \<open>The serve command\<close>

type_synonym environment = "string \<Rightarrow> string"

definition detectorBackend :: "environment \<Rightarrow> string" where
  "detectorBackend env =
     (if env ''MEMGUARD_DETECTOR'' \<noteq> [] then env ''MEMGUARD_DETECTOR'' else BackendNative)"

definition storeBackend :: "environment \<Rightarrow> string" where
  "storeBackend env = (if env ''MEMGUARD_STORE'' \<noteq> [] then env ''MEMGUARD_STORE'' else StoreMemory)"

definition storePath :: "environment \<Rightarrow> string" where
  "storePath env = env ''MEMGUARD_STORE_PATH''"

definition selfReinforcementEnabled :: "environment \<Rightarrow> bool" where
  "selfReinforcementEnabled env \<longleftrightarrow> env ''MEMGUARD_SELF_REINFORCEMENT'' \<noteq> ''off''"

definition sizeAnomalyEnabled :: "environment \<Rightarrow> bool" where
  "sizeAnomalyEnabled env \<longleftrightarrow> env ''MEMGUARD_SIZE_ANOMALY'' \<noteq> ''off''"

definition zero_size_config :: SizeAnomalyConfig where
  "zero_size_config = \<lparr>sc_WindowSize = 0, sc_SigmaThreshold = 0, sc_MinSamples = 0\<rparr>"

definition buildWriteInspector :: "environment \<Rightarrow> inspector option" where
  "buildWriteInspector env =
     (let inspectors =
        (if selfReinforcementEnabled env then [SelfReinforcement (NewSelfReinforcementDetector [])] else []) @
        (if sizeAnomalyEnabled env then [SizeAnomaly (NewSizeAnomalyDetector zero_size_config)] else [])
      in (case inspectors of
            [] \<Rightarrow> None
          | [i] \<Rightarrow> Some i
          | _ \<Rightarrow> Some (CombineInspectors (map Some inspectors))))"

text \<open>Leaving the process: the status and the head of the message on stderr.\<close>

datatype exit = Exit int string

definition buildDetector ::
  "(string \<Rightarrow> presidioEntity list option) \<Rightarrow> environment \<Rightarrow> exit + detector_value" where
  "buildDetector answers env =
     (case NewDetectorFromConfig answers (detectorBackend env) of
        Inl err \<Rightarrow> Inl (Exit 2 ''detector:'') | Inr d \<Rightarrow> Inr d)"

definition buildStore :: "(string \<Rightarrow> file_state) \<Rightarrow> environment \<Rightarrow> exit + store_value" where
  "buildStore disk env =
     (case NewStoreFromConfig disk (storeBackend env) (storePath env) of
        Inl err \<Rightarrow> Inl (Exit 2 ''store:'') | Inr s \<Rightarrow> Inr s)"

definition buildKeyPolicy :: "environment \<Rightarrow> exit + KeyPolicy" where
  "buildKeyPolicy env =
     (case NewKeyPolicyFromConfig (env ''MEMGUARD_PROTECTED_KEYS'') (env ''MEMGUARD_IMMUTABLE_KEYS'') of
        Inl err \<Rightarrow> Inl (Exit 2 ''key-policy:'') | Inr p \<Rightarrow> Inr p)"

text \<open>What the serve command hands to the builder chain.\<close>

record serve_setup =
  ss_socket :: string
  ss_detector :: detector_value
  ss_store :: store_value
  ss_audit :: "async_state AuditConfig"
  ss_transport :: "(AuditTrailSink \<times> async_state) option"
  ss_policy :: KeyPolicy
  ss_inspector :: "inspector option"

definition serve_command ::
  "(string \<Rightarrow> presidioEntity list option) \<Rightarrow> (string \<Rightarrow> file_state) \<Rightarrow> environment \<Rightarrow> string \<Rightarrow> string \<Rightarrow>
   exit + serve_setup" where
  "serve_command answers disk env socket auditSocket =
     (if socket = [] then Inl (Exit 2 ''serve: --socket is required'')
      else
        (case buildDetector answers env of
           Inl e \<Rightarrow> Inl e
         | Inr det \<Rightarrow>
             (case buildStore disk env of
                Inl e \<Rightarrow> Inl e
              | Inr store \<Rightarrow>
                  (let (cfg, transport) =
                     buildAuditConfig (resolveAuditSocket auditSocket (env ''MEMGUARD_AUDIT_SOCKET''))
                   in (case buildKeyPolicy env of
                         Inl e \<Rightarrow> Inl e
                       | Inr policy \<Rightarrow>
                           Inr \<lparr>ss_socket = socket, ss_detector = det, ss_store = store, ss_audit = cfg,
                                ss_transport = transport, ss_policy = policy,
                                ss_inspector = buildWriteInspector env\<rparr>)))))"

section \<open>Every guard over an in-process backing\<close>

record 'k wiring =
  w_order :: map_order
  w_lower :: "rune \<Rightarrow> rune"
  w_detector :: detector_value
  w_two_index :: bool
  w_audit :: "'k AuditConfig"
  w_policy :: KeyPolicy
  w_inspector :: "inspector option"

text \<open>The builder chain, over a backing that is passed to the constructor or left out.\<close>

definition assemble ::
  "'k wiring \<Rightarrow> 'b memory_store_ops \<Rightarrow> 'b option list \<Rightarrow> 'k \<Rightarrow>
     (in_memory_store + 'b, inspector, 'k) memory_guard \<times> (in_memory_store + 'b, inspector, 'k) guard_state" where
  "assemble w ops stores k =
     (let (g, st) = NewMemoryGuard (w_order w) ops (Some (det_of (w_detector w))) stores
            (case w_inspector w of None \<Rightarrow> Combined [] | Some i \<Rightarrow> i) k
      in (WithWriteInspector (map_option (\<lambda>_. wi_Inspect (w_lower w)) (w_inspector w))
            (WithKeyPolicy (w_policy w) (WithAudit (w_audit w) g)), st))"

definition wired ::
  "'k wiring \<Rightarrow> 'k \<Rightarrow> (in_memory_store + two_index_store, inspector, 'k) memory_guard \<times>
                     (in_memory_store + two_index_store, inspector, 'k) guard_state" where
  "wired w k =
     assemble w (two_index_ops (w_order w)) (if w_two_index w then [Some NewTwoIndexStore] else []) k"

definition wired_guard :: "'k wiring \<Rightarrow> (in_memory_store + two_index_store, inspector, 'k) memory_guard" where
  "wired_guard w = fst (wired w undefined)"

definition wired_state :: "'k wiring \<Rightarrow> 'k \<Rightarrow> (in_memory_store + two_index_store, inspector, 'k) guard_state" where
  "wired_state w k = snd (wired w k)"

text \<open>The abstract content and the consistency of either backing.\<close>

definition stored_map :: "in_memory_store + two_index_store \<Rightarrow> (string \<rightharpoonup> entry)" where
  "stored_map = case_sum map_of (\<lambda>s. map_of (ts_primary s))"

definition stored_inv :: "in_memory_store + two_index_store \<Rightarrow> bool" where
  "stored_inv = case_sum wf_map two_index_inv"

lemma assemble_fields:
  "mg_det (fst (assemble w ops stores k)) = det_of (w_detector w)"
  "mg_store (fst (assemble w ops stores k)) = either_ops (in_memory_ops (w_order w)) ops"
  "mg_audit (fst (assemble w ops stores k)) = (if isActive (w_audit w) then ac_Sink (w_audit w) else None)"
  "mg_inspector (fst (assemble w ops stores k)) = map_option (\<lambda>_. wi_Inspect (w_lower w)) (w_inspector w)"
  "mg_keyPolicy (fst (assemble w ops stores k)) = w_policy w"
  "gs_sink (snd (assemble w ops stores k)) = k" "gs_baselines (snd (assemble w ops stores k)) = (\<lambda>_. None)"
  by (simp_all add: assemble_def NewMemoryGuard_def WithWriteInspector_def WithKeyPolicy_def WithAudit_def Let_def)

lemma assemble_guard: "fst (assemble w ops stores k) = fst (assemble w ops stores k')"
  by (simp add: assemble_def NewMemoryGuard_def WithWriteInspector_def WithKeyPolicy_def WithAudit_def Let_def)

lemma wired_guard_fields [simp]:
  "mg_det (wired_guard w) = det_of (w_detector w)"
  "mg_store (wired_guard w) = either_ops (in_memory_ops (w_order w)) (two_index_ops (w_order w))"
  "mg_audit (wired_guard w) = (if isActive (w_audit w) then ac_Sink (w_audit w) else None)"
  "mg_inspector (wired_guard w) = map_option (\<lambda>_. wi_Inspect (w_lower w)) (w_inspector w)"
  "mg_keyPolicy (wired_guard w) = w_policy w"
  by (simp_all add: wired_guard_def wired_def assemble_fields)

lemma wired_state_fields [simp]:
  "stored_map (gs_store (wired_state w k)) = Map.empty" "stored_inv (gs_store (wired_state w k))"
  "gs_sink (wired_state w k) = k" "gs_baselines (wired_state w k) = (\<lambda>_. None)"
  using NewTwoIndexStore_inv NewInMemoryStore_wf
  by (auto simp: wired_state_def wired_def assemble_def NewMemoryGuard_def Let_def stored_map_def stored_inv_def
      NewTwoIndexStore_def NewInMemoryStore_def)

lemma det_of_seam: "detector_seam (det_of d)"
  by (cases d) (simp_all add: native.detector_seam_axioms regex.detector_seam_axioms presidio.detector_seam_axioms)

text \<open>Any assembled guard meets the contract, over whatever its backing can hold.\<close>

lemma assemble_over:
  fixes ops :: "'b memory_store_ops" and content inv ok
  assumes "bounded_store ops content inv ok"
  shows "guard_over (fst (assemble w ops stores k)) (case_sum map_of content) (case_sum wf_map inv) ok"
proof (rule guard_over.intro)
  show "detector_seam (mg_det (fst (assemble w ops stores k)))" by (simp add: assemble_fields det_of_seam)
  have "two_stores (in_memory_ops (w_order w)) map_of wf_map ops content inv ok"
    by (rule two_stores.intro [OF im.memory_store_axioms assms])
  from two_stores.either_bounded [OF this]
  show "bounded_store (mg_store (fst (assemble w ops stores k))) (case_sum map_of content) (case_sum wf_map inv) ok"
    by (simp add: assemble_fields)
  show "guard_over_axioms (fst (assemble w ops stores k))"
    by (rule guard_over_axioms.intro) (auto simp: assemble_fields wi.write_inspector_axioms)
qed

interpretation wired: guard_seams "wired_guard w" stored_map stored_inv for w
  unfolding wired_guard_def wired_def stored_map_def stored_inv_def
  by (intro guard_seams.intro assemble_over memory_store.axioms ts.memory_store_axioms)

end
