(* ===== verification/Session.thy ===== *)
theory Session
  imports Wiring
begin

text \<open>
  Whole sessions of a wired guard: what its calls and replies say is stored, what a reader's view of
  that is, what two sessions look like to a reader that may not see where they differ, and what the
  events of a session can contain.
\<close>

section \<open>Sessions\<close>

text \<open>A session: a fresh guard, built as main builds it, runs a list of calls.\<close>

definition session :: "'k wiring \<Rightarrow> guard_call list \<Rightarrow> 'k \<Rightarrow>
    guard_reply list \<times> (in_memory_store + two_index_store, inspector, 'k) guard_state" where
  "session w cs k = guard_run (wired_guard w) cs (wired_state w k)"

definition replies :: "'k wiring \<Rightarrow> guard_call list \<Rightarrow> 'k \<Rightarrow> guard_reply list" where
  "replies w cs k = fst (session w cs k)"

definition final :: "'k wiring \<Rightarrow> guard_call list \<Rightarrow> 'k \<Rightarrow> (in_memory_store + two_index_store, inspector, 'k) guard_state" where
  "final w cs k = snd (session w cs k)"

text \<open>What calls and replies say is stored.\<close>

definition logged :: "'k wiring \<Rightarrow> guard_call list \<Rightarrow> 'k \<Rightarrow> (string \<rightharpoonup> entry)" where
  "logged w cs k = log_of (wired_guard w) cs (replies w cs k) Map.empty"

lemma session_facts:
  "stored_inv (gs_store (final w cs k))"
  "stored_map (gs_store (final w cs k)) = logged w cs k"
  "gs_sink (final w cs k) =
     fold (emitSafe (mg_audit (wired_guard w))) (run_events (wired_guard w) cs (replies w cs k)) k"
  "length (replies w cs k) = length cs"
  "gs_baselines (final w cs k) = run_policy (w_policy w) (policy_writes (wired_guard w) cs) (\<lambda>_. None)"
proof -
  obtain rs st where run: "guard_run (wired_guard w) cs (wired_state w k) = (rs, st)" by fastforce
  then have s: "replies w cs k = rs" "final w cs k = st"
    by (simp_all add: replies_def final_def session_def)
  from wired.run_log_any [OF run] wired.run_baselines_any [OF run]
  show "stored_inv (gs_store (final w cs k))"
    "stored_map (gs_store (final w cs k)) = logged w cs k"
    "gs_sink (final w cs k) =
       fold (emitSafe (mg_audit (wired_guard w))) (run_events (wired_guard w) cs (replies w cs k)) k"
    "length (replies w cs k) = length cs"
    "gs_baselines (final w cs k) = run_policy (w_policy w) (policy_writes (wired_guard w) cs) (\<lambda>_. None)"
    by (simp_all add: s logged_def del: wired_guard_fields) simp
qed

lemma rewired_audit:
  "wired_guard (w\<lparr>w_audit := cfg\<rparr>) = (wired_guard w)\<lparr>mg_audit := (if isActive cfg then ac_Sink cfg else None)\<rparr>"
  "core (wired_state (w\<lparr>w_audit := cfg\<rparr>) k) = core (wired_state w k')"
  by (simp_all add: wired_guard_def wired_state_def wired_def assemble_def NewMemoryGuard_def WithWriteInspector_def
      WithKeyPolicy_def WithAudit_def Let_def core_def)


lemma session_audit:
  "replies (w\<lparr>w_audit := cfg\<rparr>) cs k = replies w cs k'"
  "core (final (w\<lparr>w_audit := cfg\<rparr>) cs k) = core (final w cs k')"
  using run_sink_irrelevant [OF rewired_audit(2), where g = "wired_guard w" and cs = cs]
  by (simp_all add: replies_def final_def session_def rewired_audit(1))

lemma call_event_audit: "call_event (g\<lparr>mg_audit := a\<rparr>) cr = call_event g cr"
  by (cases cr; cases "fst cr"; cases "snd cr") (auto simp: write_event_def)

lemma run_events_audit: "run_events (wired_guard (w\<lparr>w_audit := cfg\<rparr>)) cs rs = run_events (wired_guard w) cs rs"
  by (simp add: run_events_def rewired_audit(1) call_event_audit [abs_def])

section \<open>Views\<close>

text \<open>What a review under this detector answers when these entries are stored.\<close>

definition review_of :: "detector \<Rightarrow> (string \<rightharpoonup> entry) \<Rightarrow> string \<Rightarrow> review_response" where
  "review_of det es i =
     (case es i of
        Some e \<Rightarrow>
          if e_quarantined e
          then \<lparr>qr_found = True, qr_content_redacted = fst (det_RedactPII det (e_content e)), qr_flags = e_flags e\<rparr>
          else \<lparr>qr_found = False, qr_content_redacted = [], qr_flags = []\<rparr>
      | None \<Rightarrow> \<lparr>qr_found = False, qr_content_redacted = [], qr_flags = []\<rparr>)"

text \<open>What a read under this detector answers for these contents.\<close>

definition read_of :: "detector \<Rightarrow> string list \<Rightarrow> read_response" where
  "read_of det hits =
     (let (redacted, flags) = det_RedactPII det (join ''\<newline>'' hits)
      in \<lparr>rr_allow = True, rr_content_redacted = redacted, rr_flags = flags\<rparr>)"

text \<open>The part of a map that is bound to a key the reader may see.\<close>

definition view :: "identity \<Rightarrow> (string \<rightharpoonup> entry) \<Rightarrow> (string \<rightharpoonup> entry)" where
  "view m es = (\<lambda>i. case es i of None \<Rightarrow> None
     | Some e \<Rightarrow> if e_boundIdentity e \<in> set (visible_keys m) then Some e else None)"

text \<open>The calls a reader must not be able to notice: the writes bound to a key it may not see. Not
  among them are the attested writes under a reserved key: they pin the baseline every later
  writer of that key is held to, whoever it is.\<close>

definition hidden_from :: "identity \<Rightarrow> guard_call \<Rightarrow> bool" where
  "hidden_from m call = (case call of
     CWrite env c writer key \<Rightarrow>
       boundKeyFor (Some (principalFromMap writer)) \<notin> set (visible_keys m) \<and>
       \<not> (isReservedSystemKey (firstKey key) \<and> Attested (principalFromMap writer))
   | _ \<Rightarrow> False)"

text \<open>What a reader can tell of a map: under each visible id the content and the quarantine bit.\<close>

definition shown :: "identity \<Rightarrow> (string \<rightharpoonup> entry) \<Rightarrow> (string \<rightharpoonup> string \<times> string \<times> bool)" where
  "shown m es = (\<lambda>i. map_option (\<lambda>e. (e_content e, e_boundIdentity e, e_quarantined e)) (view m es i))"

definition reply_id :: "guard_reply \<Rightarrow> string option" where
  "reply_id r = (case r of RWrite w \<Rightarrow> wr_stored_id w | _ \<Rightarrow> None)"

definition reply_ids :: "guard_reply list \<Rightarrow> string list" where
  "reply_ids rs = List.map_filter reply_id rs"

lemma reply_ids_simps [simp]:
  "reply_ids [] = []"
  "reply_ids (r # rs) = (case reply_id r of None \<Rightarrow> reply_ids rs | Some i \<Rightarrow> i # reply_ids rs)"
  by (simp_all add: reply_ids_def map_filter_simps split: option.split)

lemma view_update:
  "view m (es(i \<mapsto> e)) =
     (if e_boundIdentity e \<in> set (visible_keys m) then (view m es)(i \<mapsto> e) else (view m es)(i := None))"
  "view m (es(i := None)) = (view m es)(i := None)"
  by (auto simp: view_def fun_eq_iff)

lemma entry_of_write_bound [simp]:
  "e_boundIdentity (entry_of_write g c m fs) = boundKeyFor (Some (principalFromMap m))"
  by (simp add: entry_of_write_def)

lemma shown_update:
  "shown m (es(i \<mapsto> e)) =
     (if e_boundIdentity e \<in> set (visible_keys m)
      then (shown m es)(i \<mapsto> (e_content e, e_boundIdentity e, e_quarantined e)) else (shown m es)(i := None))"
  "shown m (es(i := None)) = (shown m es)(i := None)"
  by (auto simp: shown_def view_def fun_eq_iff)

lemma shown_absent: "es i = None \<Longrightarrow> (shown m es)(i := None) = shown m es"
  by (auto simp: shown_def view_def fun_eq_iff)

lemma dom_log_step: "dom (log_step g cr es) \<subseteq> dom es \<union> set_option (reply_id (snd cr))"
  by (cases "fst cr"; cases "snd cr"; cases cr) (auto simp: reply_id_def split: option.splits if_splits)

lemma finite_log: "finite (dom es) \<Longrightarrow> finite (dom (fold (log_step g) crs es))"
proof (induction crs arbitrary: es)
  case (Cons cr crs)
  have "finite (dom (log_step g cr es))"
    by (rule finite_subset [OF dom_log_step]) (simp add: Cons.prems)
  with Cons.IH show ?case by simp
qed simp

lemma readable_view:
  assumes "finite (dom es)"
  shows "filter_mset (readable m q) (stored (view m es)) = filter_mset (readable m q) (stored es)"
proof -
  have dom: "dom (view m es) = {i \<in> dom es. e_boundIdentity (the (es i)) \<in> set (visible_keys m)}"
    by (auto simp: view_def split: option.splits if_splits)
  have "stored (view m es) =
      image_mset (\<lambda>k. the (es k)) (filter_mset (\<lambda>i. e_boundIdentity (the (es i)) \<in> set (visible_keys m)) (mset_set (dom es)))"
    using assms unfolding stored_def dom filter_mset_mset_set [OF assms]
    by (intro image_mset_cong) (auto simp: view_def)
  also have "\<dots> = filter_mset (\<lambda>e. e_boundIdentity e \<in> set (visible_keys m)) (stored es)"
    by (simp add: stored_def filter_mset_image_mset comp_def)
  finally show ?thesis by (simp add: filter_filter_mset readable_def [abs_def] conj_ac)
qed

lemma stored_shown:
  assumes "finite (dom es)"
  shows "image_mset e_content (filter_mset (readable m q) (stored es)) =
     image_mset fst (filter_mset (\<lambda>(c, b, quarantined). str_contains c q \<and> b \<in> set (visible_keys m) \<and> \<not> quarantined)
       (stored (shown m es)))"
proof -
  let ?f = "\<lambda>e. (e_content e, e_boundIdentity e, e_quarantined e)"
  have dom: "dom (shown m es) = dom (view m es)" by (auto simp: shown_def)
  have "finite (dom (view m es))"
    by (rule finite_subset [OF _ assms]) (auto simp: view_def split: option.splits)
  then have "stored (shown m es) = image_mset ?f (stored (view m es))"
    unfolding stored_def multiset.map_comp dom by (intro image_mset_cong) (auto simp: shown_def)
  moreover have "(\<lambda>(c, b, quarantined). str_contains c q \<and> b \<in> set (visible_keys m) \<and> \<not> quarantined) \<circ> ?f = readable m q"
    by (simp add: fun_eq_iff readable_def)
  ultimately show ?thesis
    by (simp add: readable_view [OF assms, symmetric] filter_mset_image_mset multiset.map_comp comp_def)
qed

text \<open>Two states a reader cannot tell apart: the same part of the store is shown to it, and the
  reserved keys are pinned alike.\<close>

definition alike :: "identity \<Rightarrow> (in_memory_store + two_index_store, inspector, 'k) guard_state \<Rightarrow>
    (in_memory_store + two_index_store, inspector, 'k) guard_state \<Rightarrow> bool" where
  "alike m st st' \<longleftrightarrow>
     stored_inv (gs_store st) \<and> stored_inv (gs_store st') \<and>
     shown m (stored_map (gs_store st)) = shown m (stored_map (gs_store st')) \<and>
     (\<forall>key. isReservedSystemKey key \<longrightarrow> gs_baselines st key = gs_baselines st' key)"

lemma evaluate_reject_alike:
  assumes "isReservedSystemKey key \<longrightarrow> bs key = bs' key"
  shows "fst (snd (evaluateKeyPolicy policy key c att bs)) = fst (snd (evaluateKeyPolicy policy key c att bs'))"
  using assms by (cases "isReservedSystemKey key") (auto simp: evaluate_unreserved key_policy_defs split: option.splits)

lemma write_accepted_alike:
  "\<forall>key. isReservedSystemKey key \<longrightarrow> bs key = bs' key \<Longrightarrow>
     write_accepted g c m key bs = write_accepted g c m key bs'"
  using evaluate_reject_alike [of "firstKey key" bs bs' "mg_keyPolicy g" "fst (det_RedactPII (mg_det g) c)"
      "Attested (principalFromMap m)"]
  by (simp add: write_accepted_def key_stage_def)

text \<open>A call both runs make keeps them alike, and tells both clients the same id.\<close>

lemma alike_step:
  assumes "alike m st st'"
    and "guard_step (wired_guard w) call st = (r, st1)" and "guard_step (wired_guard w) call st' = (r', st1')"
  shows "alike m st1 st1' \<and> reply_id r = reply_id r'"
proof -
  note [simp del] = wired_guard_fields
  have inv: "stored_inv (gs_store st)" "stored_inv (gs_store st')"
    and same: "shown m (stored_map (gs_store st)) = shown m (stored_map (gs_store st'))"
    and pins: "\<forall>key. isReservedSystemKey key \<longrightarrow> gs_baselines st key = gs_baselines st' key"
    using assms(1) by (auto simp: alike_def)
  note log = wired.step_log [OF assms(2) inv(1) reply_ok_True] wired.step_log [OF assms(3) inv(2) reply_ok_True]
  have pins1: "\<forall>key. isReservedSystemKey key \<longrightarrow> gs_baselines st1 key = gs_baselines st1' key"
    unfolding wired.step_baselines [OF assms(2) inv(1)] wired.step_baselines [OF assms(3) inv(2)]
    using pins by (auto simp: policy_writes_def map_filter_simps evaluate_baseline split: guard_call.splits)
  have "shown m (log_step (wired_guard w) (call, r) (stored_map (gs_store st))) =
      shown m (log_step (wired_guard w) (call, r') (stored_map (gs_store st'))) \<and> reply_id r = reply_id r'"
  proof (cases call)
    case (CWrite env c writer key)
    then obtain wr wr' where v: "ValidateWrite (wired_guard w) env c writer key st = (wr, st1)" "r = RWrite wr"
      "ValidateWrite (wired_guard w) env c writer key st' = (wr', st1')" "r' = RWrite wr'"
      using assms(2,3) by (auto split: prod.splits)
    have "wr_stored_id wr = wr_stored_id wr'"
      using wired.write_response_shape [OF v(1)] wired.write_response_shape [OF v(3)]
        write_accepted_alike [OF pins, of "wired_guard w" c writer key] by simp
    then show ?thesis
      by (auto simp: CWrite v(2,4) reply_id_def shown_update same entry_of_write_def split: option.split)
  qed (use assms(2,3) same in \<open>auto simp: shown_update reply_id_def split: prod.splits\<close>)
  with log pins1 show ?thesis by (simp add: alike_def)
qed

text \<open>A call only the one run makes is not noticed when it is hidden and its id is new.\<close>

lemma alike_hidden:
  assumes "alike m st st'" and "hidden_from m call" and "guard_step (wired_guard w) call st = (r, st1)"
    and "\<forall>i. reply_id r = Some i \<longrightarrow> stored_map (gs_store st) i = None"
  shows "alike m st1 st'"
proof -
  note [simp del] = wired_guard_fields
  obtain env c writer key where call: "call = CWrite env c writer key"
    and bound: "boundKeyFor (Some (principalFromMap writer)) \<notin> set (visible_keys m)"
    and pin: "\<not> (isReservedSystemKey (firstKey key) \<and> Attested (principalFromMap writer))"
    using assms(2) by (auto simp: hidden_from_def split: guard_call.splits)
  obtain wr where v: "ValidateWrite (wired_guard w) env c writer key st = (wr, st1)" "r = RWrite wr"
    using assms(3) by (auto simp: call split: prod.splits)
  have inv: "stored_inv (gs_store st)" using assms(1) by (simp add: alike_def)
  note log = wired.step_log [OF assms(3) inv reply_ok_True]
  have "gs_baselines st1 k = gs_baselines st k" if "isReservedSystemKey k" for k
    unfolding wired.step_baselines [OF assms(3) inv]
    using pin that by (auto simp: call policy_writes_def map_filter_simps evaluate_baseline)
  moreover have "shown m (stored_map (gs_store st1)) = shown m (stored_map (gs_store st))"
    using bound assms(4) unfolding log(2) call v(2)
    by (auto simp: reply_id_def shown_update shown_absent split: option.split)
  ultimately show ?thesis using assms(1) log(1) by (simp add: alike_def)
qed

text \<open>The run and the run purged of what is hidden from the reader end alike.\<close>

lemma purged_run:
  assumes "guard_run (wired_guard w) cs st = (rs, st1)"
    and "guard_run (wired_guard w) (filter (\<lambda>c. \<not> hidden_from m c) cs) st' = (rs', st1')"
    and "alike m st st'" and "distinct (reply_ids rs)"
    and "set (reply_ids rs) \<inter> dom (stored_map (gs_store st)) = {}"
  shows "alike m st1 st1'"
  using assms
proof (induction cs arbitrary: st st' rs rs')
  case (Cons c cs)
  obtain r s where step: "guard_step (wired_guard w) c st = (r, s)" by (cases "guard_step (wired_guard w) c st")
  obtain rs2 where run: "guard_run (wired_guard w) cs s = (rs2, st1)" and rs: "rs = r # rs2"
    using Cons.prems(1) step by (auto split: prod.splits)
  have inv: "stored_inv (gs_store st)" using Cons.prems(3) by (simp add: alike_def)
  have ids: "distinct (reply_ids rs2)" "\<forall>i. reply_id r = Some i \<longrightarrow> stored_map (gs_store st) i = None"
    "set_option (reply_id r) \<inter> set (reply_ids rs2) = {}"
    "set (reply_ids rs2) \<inter> dom (stored_map (gs_store st)) = {}"
    using Cons.prems(4,5) by (auto simp: rs split: option.splits)
  have fresh: "set (reply_ids rs2) \<inter> dom (stored_map (gs_store s)) = {}"
    using ids(3,4) dom_log_step [of "wired_guard w" "(c, r)" "stored_map (gs_store st)", unfolded snd_conv]
    unfolding wired.step_log(2) [OF step inv reply_ok_True] by blast
  show ?case
  proof (cases "hidden_from m c")
    case True
    with Cons.prems(2) have "guard_run (wired_guard w) (filter (\<lambda>c. \<not> hidden_from m c) cs) st' = (rs', st1')"
      by simp
    from Cons.IH [OF run this alike_hidden [OF Cons.prems(3) True step ids(2)] ids(1) fresh] show ?thesis .
  next
    case False
    obtain r' s' where step': "guard_step (wired_guard w) c st' = (r', s')"
      by (cases "guard_step (wired_guard w) c st'")
    obtain rs2' where run': "guard_run (wired_guard w) (filter (\<lambda>c. \<not> hidden_from m c) cs) s' = (rs2', st1')"
      using Cons.prems(2) False step' by (auto split: prod.splits)
    from alike_step [OF Cons.prems(3) step step'] have "alike m s s'" by blast
    from Cons.IH [OF run run' this ids(1) fresh] show ?thesis .
  qed
qed simp

lemma own_key_visible:
  "Subject (principalFromMap m) \<noteq> sharedScopeKey \<Longrightarrow> boundKeyFor (Some (principalFromMap m)) \<in> set (visible_keys m)"
  by (auto simp: visible_keys_def boundKeyFor_def readerVisibilityKey_def Let_def)

lemma purged_session:
  assumes "distinct (reply_ids (replies w cs k))"
  shows "alike m (final w cs k) (final w (filter (\<lambda>c. \<not> hidden_from m c) cs) k')"
proof (rule purged_run)
  show "guard_run (wired_guard w) cs (wired_state w k) = (replies w cs k, final w cs k)"
    by (simp add: replies_def final_def session_def)
  show "guard_run (wired_guard w) (filter (\<lambda>c. \<not> hidden_from m c) cs) (wired_state w k') =
      (replies w (filter (\<lambda>c. \<not> hidden_from m c) cs) k', final w (filter (\<lambda>c. \<not> hidden_from m c) cs) k')"
    by (simp add: replies_def final_def session_def)
  show "alike m (wired_state w k) (wired_state w k')" by (simp add: alike_def)
qed (use assms in simp_all)

lemma read_final:
  obtains hits where
    "mset hits = image_mset e_content (filter_mset (readable m q) (stored (stored_map (gs_store (final w cs k)))))"
    and "ValidateRead (wired_guard w) q m (final w cs k) = read_of (det_of (w_detector w)) hits"
  by (rule wired.read_answer [OF session_facts(1), where w = w and m = m and query = q and cs1 = cs and k1 = k])
    (auto simp: read_of_def case_prod_beta Let_def intro: that)

section \<open>What an event can contain\<close>

text \<open>The labels a detector can put into a flag.\<close>

primrec detector_labels :: "detector_value \<Rightarrow> string list" where
  "detector_labels (NativeValue d) = map fst (rd_pii (nd_base d))"
| "detector_labels (RegexValue d) = map fst (rd_pii d)"
| "detector_labels (PresidioValue d answers) =
     map fst (rd_pii (nd_base (pd_native d))) @ map snd presidioEntityLabels"

definition flag_vocabulary :: "detector_value \<Rightarrow> string list" where
  "flag_vocabulary d =
     [injection_suspected, borderline_suspected, protectedKeyViolationFlag, immutableMismatchFlag,
      selfReinforcementFlag, sizeAnomalyFlag, ''residue_detected''] @ map pii_flag (detector_labels d)"

definition hex_alphabet :: string where
  "hex_alphabet = ''0123456789abcdef''"

text \<open>The deletion hashes that callers were told, and the clock readings of a session's calls.\<close>

definition reply_hashes :: "guard_reply list \<Rightarrow> string list" where
  "reply_hashes rs = concat (map (\<lambda>r. case r of RDelete d \<Rightarrow> [dr_deletion_hash d] | _ \<Rightarrow> []) rs)"

definition call_times :: "guard_call list \<Rightarrow> int list" where
  "call_times cs = concat (map (\<lambda>call. case call of
     CWrite env c m key \<Rightarrow> [ge_now env] | CDeleteEntry env i \<Rightarrow> [ge_now env] | _ \<Rightarrow> []) cs)"

text \<open>An event built from constants, labels, clock readings, ids and hashes only: every field of it.\<close>

definition content_free :: "detector_value \<Rightarrow> guard_reply list \<Rightarrow> int list \<Rightarrow> OCSFEvent \<Rightarrow> bool" where
  "content_free d rs clocks ev \<longleftrightarrow>
     (let f = ev_Finding ev in
      ev_ClassUID ev = ocsfClassSecurityFinding \<and> ev_CategoryUID ev = ocsfCategoryFindings \<and>
      ev_ActivityID ev = ocsfActivityCreate \<and>
      ev_SeverityID ev \<in> set [ocsfSeverityInformational, ocsfSeverityLow, ocsfSeverityMedium, ocsfSeverityHigh] \<and>
      ev_Time ev \<in> set clocks \<and>
      ev_Metadata ev = \<lparr>md_Product = \<lparr>pr_Name = ''memory-guard'', pr_Version = []\<rparr>,
                        md_Version = ocsfSchemaVersion, md_EventCode = []\<rparr> \<and>
      set (fi_Flags f) \<subseteq> set (flag_vocabulary d) \<and> fi_FlagCount f = int (length (fi_Flags f)) \<and>
      fi_StoredID f \<in> set ([] # reply_ids rs) \<and>
      fi_SourceClass f \<in> set [[], sourceClassExternalTool, sourceClassUserInput, sourceClassAgentAuthored,
                              sourceClassSystem, sourceClassUnknown] \<and>
      fi_DeletionHash f \<in> set ([] # reply_hashes rs) \<and> length (fi_DeletionHash f) \<in> {0, 64} \<and>
       set (fi_DeletionHash f) \<subseteq> set hex_alphabet \<and>
      (fi_Operation f, fi_Type f) \<in> set [(''validate_write'', ''injection_rejected''), (''validate_write'', ''pii_redaction''),
         (''verify_delete'', ''residue_found''), (''verify_delete'', ''deletion_verified'')] \<and>
      fi_RelatedEvents f = [])"

lemma RedactPII_labels: "set (snd (RedactPII d t)) \<subseteq> pii_flag ` set (map fst (rd_pii d))"
proof -
  obtain out flags where r: "RedactPII d t = (out, flags)" by (cases "RedactPII d t")
  from subseq_subset [OF conjunct1 [OF RedactPII_flags [OF r]]] show ?thesis by (simp add: r image_image)
qed

lemma ner_hit_labels:
  "nh_label ` set (fst (foldl (ner_step d t) (hits, seen) es)) \<subseteq>
     nh_label ` set hits \<union> set (map snd presidioEntityLabels)"
proof (induction es arbitrary: hits seen)
  case (Cons e es)
  obtain hits' seen' where st: "ner_step d t (hits, seen) e = (hits', seen')" by fastforce
  have "nh_label ` set hits' \<subseteq> nh_label ` set hits \<union> set (map snd presidioEntityLabels)"
    using st by (auto simp: Let_def split: option.splits if_splits dest!: map_of_SomeD) force+
  with Cons.IH [of hits' seen'] show ?case by (simp add: st del: ner_step.simps) blast
qed simp

lemma detector_flags: "set (snd (det_RedactPII (det_of v) t)) \<subseteq> pii_flag ` set (detector_labels v)"
proof (cases v)
  case (PresidioValue d answers)
  obtain nr nfs where n: "det_RedactPII (native_detector (pd_native d)) t = (nr, nfs)" by fastforce
  have "pii_flag ` set (map fst (rd_pii (nd_base (pd_native d)))) \<subseteq> pii_flag ` set (detector_labels v)"
    by (rule image_mono) (simp add: PresidioValue)
  then have nfs: "set nfs \<subseteq> pii_flag ` set (detector_labels v)"
    using RedactPII_labels [of "nd_base (pd_native d)" t] n by (simp add: native_detector_def)
  show ?thesis
  proof (cases "answers t")
    case None
    with nfs show ?thesis by (simp add: PresidioValue presidio_detector_def presidio_RedactPII_def n)
  next
    case (Some entities)
    obtain r fs where fold: "foldl overlay (nr, remdups nfs) (longest_first (ner_hits d t entities)) = (r, fs)"
      by fastforce
    have "nh_label ` set (ner_hits d t entities) \<subseteq> set (detector_labels v)"
      using ner_hit_labels [of d t "[]" "[]" entities]
      unfolding ner_hits_def PresidioValue detector_labels.simps set_append list.set(1) image_empty Un_empty_left
      by (rule le_supI2)
    then have hits: "pii_flag ` nh_label ` set (ner_hits d t entities) \<subseteq> pii_flag ` set (detector_labels v)"
      by (rule image_mono)
    have "set fs \<subseteq> set nfs \<union> pii_flag ` nh_label ` set (ner_hits d t entities)"
      using overlay_fold [OF fold] by (simp add: longest_first_def image_image)
    from order_trans [OF this Un_least [OF nfs hits]]
    show ?thesis
      by (simp add: PresidioValue presidio_detector_def presidio_RedactPII_def n Some fold)
  qed
next
  case (NativeValue d)
  with RedactPII_labels [of "nd_base d" t] show ?thesis by (simp add: native_detector_def)
next
  case (RegexValue d)
  with RedactPII_labels [of d t] show ?thesis by (simp add: regex_detector_def)
qed

lemma detected_vocabulary:
  "set ((det_DetectInjection (det_of v) c @ snd (det_RedactPII (det_of v) c)) @ det_DetectBorderline (det_of v) c)
     \<subseteq> set (flag_vocabulary v)"
  unfolding set_append
proof (intro Un_least)
  show "set (det_DetectInjection (det_of v) c) \<subseteq> set (flag_vocabulary v)"
    using detector_seam.injection_flags [OF det_of_seam, of v c] by (auto simp: flag_vocabulary_def)
  show "set (det_DetectBorderline (det_of v) c) \<subseteq> set (flag_vocabulary v)"
    using detector_seam.borderline_flags [OF det_of_seam, of v c] by (auto simp: flag_vocabulary_def)
  have "pii_flag ` set (detector_labels v) \<subseteq> set (flag_vocabulary v)"
    unfolding flag_vocabulary_def set_append set_map by (rule le_supI2) (rule order_refl)
  with detector_flags [of v c] show "set (snd (det_RedactPII (det_of v) c)) \<subseteq> set (flag_vocabulary v)"
    by (rule order_trans)
qed

lemma inspect_vocabulary: "set (fst (inspect_stage (wired_guard w) now c ctx i)) \<subseteq> set (flag_vocabulary v)"
  using wi_flags(1) [of "w_lower w" now c ctx i]
  by (cases "w_inspector w") (auto simp: inspect_stage_def flag_vocabulary_def behavioral_flags_def)

lemma write_vocabulary:
  assumes "ValidateWrite (wired_guard w) env c m key st = (r, st')"
  shows "set (wr_flags r) \<subseteq> set (flag_vocabulary (w_detector w))"
proof -
  have "{protectedKeyViolationFlag, immutableMismatchFlag} \<subseteq> set (flag_vocabulary (w_detector w))"
    by (simp add: flag_vocabulary_def)
  with wired.write_flag_origin [OF assms] detected_vocabulary [of "w_detector w" c]
    inspect_vocabulary [of w _ c, where v = "w_detector w"]
  show ?thesis unfolding wired_guard_fields(1) by blast
qed

lemma hex_digit_set: "0 \<le> d \<Longrightarrow> d < 16 \<Longrightarrow> hex_digit d \<in> set hex_alphabet"
proof -
  assume "0 \<le> d" "d < 16"
  then have "d \<in> set [0..15]" by simp
  moreover have "list_all (\<lambda>d. hex_digit d \<in> set hex_alphabet) [0..15]" by code_simp
  ultimately show ?thesis by (simp only: list_all_iff)
qed

lemma hex_encode_set: "set (hex_encode s) \<subseteq> set hex_alphabet"
proof -
  have "set (hex_byte c) \<subseteq> set hex_alphabet" for c
  proof -
    have "0 \<le> byte_val c div 16" "byte_val c div 16 < 16" "0 \<le> byte_val c mod 16" "byte_val c mod 16 < 16"
      using byte_val_range [of c] by auto
    then show ?thesis by (simp add: hex_byte_def hex_digit_set)
  qed
  then show ?thesis by (auto simp: hex_encode_def)
qed

text \<open>Every event of a run is that of one of its steps.\<close>

lemma run_events_step:
  assumes "guard_run g cs st = (rs, st')" and "ev \<in> set (run_events g cs rs)"
  shows "\<exists>c r s s'. c \<in> set cs \<and> guard_step g c s = (r, s') \<and> call_event g (c, r) = Some ev \<and> r \<in> set rs"
  using assms
proof (induction cs arbitrary: st rs)
  case (Cons c cs)
  obtain r st1 where step: "guard_step g c st = (r, st1)" by (cases "guard_step g c st")
  obtain rs1 where run: "guard_run g cs st1 = (rs1, st')" and rs: "rs = r # rs1"
    using Cons.prems(1) step by (auto split: prod.splits)
  from Cons.prems(2) consider "call_event g (c, r) = Some ev" | "ev \<in> set (run_events g cs rs1)"
    by (auto simp: rs split: option.splits)
  then show ?case
  proof cases
    case 1
    with step show ?thesis by (auto simp: rs)
  next
    case 2
    from Cons.IH [OF run this] show ?thesis by (auto simp: rs)
  qed
qed simp

lemma source_class_known:
  "sourceClassFromMap m \<in> set [[], sourceClassExternalTool, sourceClassUserInput, sourceClassAgentAuthored,
     sourceClassSystem, sourceClassUnknown]"
  using sourceClassFromMap_range [of m] by auto

lemma call_event_content_free:
  assumes step: "guard_step (wired_guard w) call s = (r, s')"
    and ev: "call_event (wired_guard w) (call, r) = Some ev"
  shows "content_free (w_detector w) [r] (call_times [call]) ev"
proof (cases call)
  case (CWrite env c m key)
  then obtain wr where wr: "ValidateWrite (wired_guard w) env c m key s = (wr, s')" "r = RWrite wr"
    using step by (auto split: prod.splits)
  have "wr_allow wr \<longrightarrow> reply_ids [r] = [minted env]"
    using wired.write_response_shape [OF wr(1)] by (simp add: wr(2) reply_id_def)
  with ev write_vocabulary [OF wr(1)] source_class_known [of m] show ?thesis
    by (auto simp: CWrite wr(2) write_event_def content_free_def call_times_def event_builders split: if_splits)
next
  case (CDeleteEntry env i)
  then obtain dr where dr: "VerifyDelete (wired_guard w) env i s = (dr, s')" "r = RDelete dr"
    using step by (auto split: prod.splits)
  have "\<exists>c. dr_deletion_hash dr = deletionHash i c"
    using dr(1) by (auto simp: VerifyDelete_def Let_def case_prod_beta)
  then obtain c where c: "dr_deletion_hash dr = deletionHash i c" by blast
  have "set (deletionHash i c) \<subseteq> set hex_alphabet"
    unfolding deletionHash_def by (rule hex_encode_set)
  with ev show ?thesis
    by (cases "dr_residue_detected dr")
      (auto simp: CDeleteEntry dr(2) c reply_hashes_def content_free_def call_times_def event_builders Let_def flag_vocabulary_def)
qed (use ev in auto)

lemma content_free_mono:
  assumes "content_free v rs' clocks' ev" and "set rs' \<subseteq> set rs" and "set clocks' \<subseteq> set clocks"
  shows "content_free v rs clocks ev"
proof -
  have ids: "set ([] # reply_ids rs') \<subseteq> set ([] # reply_ids rs)"
    using assms(2) by (auto simp: reply_ids_def set_map_filter)
  have hashes: "set ([] # reply_hashes rs') \<subseteq> set ([] # reply_hashes rs)"
    using assms(2) by (auto simp: reply_hashes_def)
  from assms(1) show ?thesis
    unfolding content_free_def Let_def using subsetD [OF assms(3)] subsetD [OF ids] subsetD [OF hashes] by blast
qed

lemma run_events_content_free:
  assumes "ev \<in> set (run_events (wired_guard w) cs (replies w cs k))"
  shows "content_free (w_detector w) (replies w cs k) (call_times cs) ev"
proof -
  have run: "guard_run (wired_guard w) cs (wired_state w k) = (replies w cs k, final w cs k)"
    by (simp add: replies_def final_def session_def)
  obtain c r s s' where c: "c \<in> set cs" "guard_step (wired_guard w) c s = (r, s')" "r \<in> set (replies w cs k)"
    and ev: "call_event (wired_guard w) (c, r) = Some ev"
    using run_events_step [OF run assms] by blast
  show ?thesis
    by (rule content_free_mono [OF call_event_content_free [OF c(2) ev]]) (use c(1,3) in \<open>auto simp: call_times_def\<close>)
qed

section \<open>Sample sessions\<close>

text \<open>The default wiring less its inspectors, and inputs for the concrete sessions.\<close>

definition plain_wiring :: "unit wiring" where
  "plain_wiring = \<lparr>w_order = insertion_order, w_lower = (\<lambda>r. r), w_detector = NativeValue NewNativeDetector,
     w_two_index = False, w_audit = \<lparr>ac_Enabled = False, ac_Sink = None\<rparr>, w_policy = zero_policy,
     w_inspector = None\<rparr>"

definition sample_env :: "string \<Rightarrow> guard_env" where
  "sample_env bytes = \<lparr>ge_rand = bytes, ge_now = 0, ge_clock = 0, ge_order = insertion_order, ge_unicode = ascii_env\<rparr>"

definition attested_as :: "string \<Rightarrow> identity" where
  "attested_as subject = [''spiffe_id'' \<mapsto> JStr subject, ''trust_tier'' \<mapsto> JStr ''attested'']"

definition keyed_wiring :: "unit wiring" where
  "keyed_wiring = plain_wiring\<lparr>w_policy := \<lparr>Protected = [], Immutable = [''cfg'']\<rparr>\<rparr>"

definition borderline_text :: string where
  "borderline_text = ''pretend this never happened''"

text \<open>The replies to the writes of a session, and their states.\<close>

definition write_replies :: "guard_reply list \<Rightarrow> write_response list" where
  "write_replies rs = List.map_filter (\<lambda>r. case r of RWrite w \<Rightarrow> Some w | _ \<Rightarrow> None) rs"

lemma write_accepted_unreserved:
  "det_DetectInjection (det_of (w_detector w)) c = [] \<Longrightarrow> \<not> isReservedSystemKey (firstKey key) \<Longrightarrow>
     write_accepted (wired_guard w) c m key bs"
  using evaluate_unreserved by (simp add: write_accepted_def key_stage_def)

lemma single_write_state:
  "map wr_state (write_replies (replies w [CWrite env c m key] k)) =
     [write_state (wired_guard w) c m key (gs_baselines (wired_state w k))]"
proof -
  obtain r st where v: "ValidateWrite (wired_guard w) env c m key (wired_state w k) = (r, st)" by fastforce
  from wired.write_response_shape [OF v] show ?thesis
    by (simp add: replies_def session_def v write_replies_def map_filter_simps)
qed

text \<open>What the native detector says of the sample texts; the quoted phrase and the whole.\<close>

definition phrase :: string where
  "phrase = ''never happened''"

lemma borderline_text_facts:
  "det_DetectInjection (det_of (w_detector plain_wiring)) borderline_text = []"
  "det_RedactPII (det_of (w_detector plain_wiring)) borderline_text = (borderline_text, [])"
  "det_DetectBorderline (det_of (w_detector plain_wiring)) borderline_text = [borderline_suspected]"
  by code_simp+

lemma phrase_facts:
  "det_DetectInjection (det_of (w_detector plain_wiring)) phrase = []"
  "det_RedactPII (det_of (w_detector plain_wiring)) phrase = (phrase, [])"
  "det_DetectBorderline (det_of (w_detector plain_wiring)) phrase = []"
  by code_simp+

lemma plain_store: "gs_store (wired_state plain_wiring ()) = Inl []"
  by code_simp

lemma plain_write:
  assumes "det_DetectInjection (det_of (w_detector plain_wiring)) c = []"
    and "det_RedactPII (det_of (w_detector plain_wiring)) c = (c, [])"
  defines "fs \<equiv> det_DetectBorderline (det_of (w_detector plain_wiring)) c"
  shows "ValidateWrite (wired_guard plain_wiring) env c m [] st =
     (\<lparr>wr_allow = True, wr_stored_id = Some (minted env),
       wr_state = (if fs = [] then ''allow'' else ''quarantine''), wr_flags = fs\<rparr>,
      st\<lparr>gs_store := ms_Put (mg_store (wired_guard plain_wiring)) (minted env)
           (entry_of_write (wired_guard plain_wiring) c m fs) (gs_store st)\<rparr>)"
proof -
  have "\<not> det_DetectInjection (mg_det (wired_guard plain_wiring)) c \<noteq> []" using assms(1) by simp
  moreover have "mg_inspector (wired_guard plain_wiring) = None" by (simp add: plain_wiring_def)
  ultimately show ?thesis
    using assms(1,2) by (simp add: wired.write_bare fs_def)
qed

lemma delete_summary:
  assumes "ms_Get (mg_store g) i (gs_store st) = Some d"
    and "ms_AllByIndex (mg_store g) (ms_Delete (mg_store g) i (gs_store st)) = [(primaryIndexName, [e])]"
    and "trim_space (e_content d) = c" and "c \<noteq> []" and "str_contains (e_content e) c"
  shows "dr_residue_summary (fst (VerifyDelete g env i st)) =
     Some (residueSummaryInIndex (ge_unicode env) ''verbatim'' primaryIndexName
             (survivorRef (ge_unicode env) (e_content e)) c)"
  using verbatim_summary [OF assms(3-5)] assms(1,2) by (simp add: VerifyDelete_def Let_def)

lemma keyed_detector [simp]: "w_detector keyed_wiring = w_detector plain_wiring"
  by (simp add: keyed_wiring_def)

end
