(* ===== verification/Ipc.thy ===== *)
theory Ipc
  imports Session
begin

text \<open>
  The request loop (src/ipc.go). A connection is what reading up
  to a newline gave: the bytes, and whether the read failed; the reply is the bytes written back,
  \<open>None\<close> when the handler just closes. The last section has the client's side of a request and its reply. Each connection runs to its end before the next. The error
  text of a malformed request is that of encoding/json, a parameter.
\<close>

section \<open>Replies\<close>

definition flags_json :: "string list \<Rightarrow> json" where
  "flags_json fs = JArr (map JStr fs)"

fun reply_json :: "guard_reply \<Rightarrow> json" where
  "reply_json (RWrite r) = JObj
     [(''allow'', JBool (wr_allow r)), (''flags'', flags_json (wr_flags r)), (''state'', JStr (wr_state r)),
      (''stored_id'', case wr_stored_id r of None \<Rightarrow> JNull | Some i \<Rightarrow> JStr i)]"
| "reply_json (RRead r) = JObj
     [(''allow'', JBool (rr_allow r)), (''content_redacted'', JStr (rr_content_redacted r)),
      (''flags'', flags_json (rr_flags r))]"
| "reply_json (RReview r) = JObj
     [(''content_redacted'', JStr (qr_content_redacted r)), (''flags'', flags_json (qr_flags r)),
      (''found'', JBool (qr_found r))]"
| "reply_json (RDelete r) = JObj
     ([(''confirmed'', JBool (dr_confirmed r)), (''deletion_hash'', JStr (dr_deletion_hash r)),
       (''residue_detected'', JBool (dr_residue_detected r))] @
      (case dr_residue_summary r of None \<Rightarrow> [] | Some s \<Rightarrow> [(''residue_summary'', JStr s)]))"

definition writeJSON :: "json \<Rightarrow> string" where
  "writeJSON v = json_encode v @ [CHR 0x0A]"

definition errShape :: "string \<Rightarrow> string \<Rightarrow> json" where
  "errShape code msg = JObj [(''error'', JObj
     [(''code'', JStr code), (''message'', JStr msg), (''retryable'', JBool False)])]"

section \<open>Requests\<close>

definition str :: "json option \<Rightarrow> string" where
  "str v = (case v of Some (JStr s) \<Rightarrow> s | _ \<Rightarrow> [])"

text \<open>The comma-ok assertion to a map: anything else is the nil map.\<close>

definition as_map :: "json option \<Rightarrow> identity" where
  "as_map v = (case v of Some (JObj ms) \<Rightarrow> map_of (rev ms) | _ \<Rightarrow> Map.empty)"

record connection =
  cn_env :: guard_env
  cn_line :: string
  cn_failed :: bool

definition handleConn ::
  "('s, 'i, 'k) memory_guard \<Rightarrow> (string \<Rightarrow> string) \<Rightarrow> connection \<Rightarrow> ('s, 'i, 'k) guard_state \<Rightarrow>
   string option \<times> ('s, 'i, 'k) guard_state" where
  "handleConn g err_text cn st =
     (if cn_failed cn \<and> cn_line cn = [] then (None, st)
      else (case unmarshal_map (cn_line cn) of
        None \<Rightarrow> (Some (writeJSON (errShape ''bad_request'' (err_text (cn_line cn)))), st)
      | Some req \<Rightarrow>
          (let identity = as_map (req ''identity'');
               is_op = (\<lambda>name. req ''op'' = Some (JStr name))
           in if is_op ''validate_write'' then
                (let (r, st') = ValidateWrite g (cn_env cn) (str (req ''entry'')) identity [str (req ''key'')] st
                 in (Some (writeJSON (reply_json (RWrite r))), st'))
              else if is_op ''validate_read'' then
                (Some (writeJSON (reply_json (RRead (ValidateRead g (str (req ''query'')) identity st)))), st)
              else if is_op ''verify_delete'' then
                (let (r, st') = VerifyDelete g (cn_env cn) (str (req ''id'')) st
                 in (Some (writeJSON (reply_json (RDelete r))), st'))
              else if is_op ''review_quarantine'' then
                (Some (writeJSON (reply_json (RReview (ReviewQuarantine g (str (req ''id'')) st)))), st)
              else if is_op ''ping'' then (Some (writeJSON (JObj [(''ok'', JBool True)])), st)
              else (Some (writeJSON (errShape ''unknown_op'' ''unsupported op'')), st))))"

fun serve ::
  "('s, 'i, 'k) memory_guard \<Rightarrow> (string \<Rightarrow> string) \<Rightarrow> connection list \<Rightarrow> ('s, 'i, 'k) guard_state \<Rightarrow>
   string option list \<times> ('s, 'i, 'k) guard_state" where
  "serve g err_text [] st = ([], st)"
| "serve g err_text (cn # cns) st =
     (let (out, st1) = handleConn g err_text cn st; (outs, st2) = serve g err_text cns st1
      in (out # outs, st2))"

text \<open>The listener: \<open>serve\<close> fails when it cannot listen; otherwise each accepted connection gets a handler, and
  the first failing accept ends the loop with its error. Handlers run concurrently (theory
  Concurrent); \<open>serve\<close> above runs them in the order of their arrival.\<close>

datatype accepted = Accepted connection | AcceptFails string

fun accept_loop :: "accepted list \<Rightarrow> connection list \<times> string option" where
  "accept_loop [] = ([], None)"
| "accept_loop (AcceptFails err # xs) = ([], Some err)"
| "accept_loop (Accepted cn # xs) = (let (cns, err) = accept_loop xs in (cn # cns, err))"

definition listen_and_serve :: "string option \<Rightarrow> accepted list \<Rightarrow> connection list \<times> string option" where
  "listen_and_serve listen_error xs =
     (case listen_error of Some err \<Rightarrow> ([], Some err) | None \<Rightarrow> accept_loop xs)"

section \<open>The loop is a guard session\<close>

text \<open>The guard call that a connection carries, if any.\<close>

definition request_call :: "connection \<Rightarrow> guard_call option" where
  "request_call cn =
     (if cn_failed cn \<and> cn_line cn = [] then None
      else (case unmarshal_map (cn_line cn) of
        None \<Rightarrow> None
      | Some req \<Rightarrow>
          (case req ''op'' of
             Some (JStr op) \<Rightarrow>
               if op = ''validate_write'' then
                 Some (CWrite (cn_env cn) (str (req ''entry'')) (as_map (req ''identity'')) [str (req ''key'')])
               else if op = ''validate_read'' then Some (CRead (str (req ''query'')) (as_map (req ''identity'')))
               else if op = ''verify_delete'' then Some (CDeleteEntry (cn_env cn) (str (req ''id'')))
               else if op = ''review_quarantine'' then Some (CReview (str (req ''id'')))
               else None
           | _ \<Rightarrow> None)))"

text \<open>What a connection without a call is answered.\<close>

definition control_reply :: "(string \<Rightarrow> string) \<Rightarrow> connection \<Rightarrow> string option" where
  "control_reply err_text cn =
     (if cn_failed cn \<and> cn_line cn = [] then None
      else (case unmarshal_map (cn_line cn) of
        None \<Rightarrow> Some (json_line (errShape ''bad_request'' (err_text (cn_line cn))))
      | Some req \<Rightarrow> Some (json_line (if req ''op'' = Some (JStr ''ping'') then JObj [(''ok'', JBool True)]
                                        else errShape ''unknown_op'' ''unsupported op''))))"

text \<open>The replies of a loop, given those of the guard.\<close>

fun reply_lines :: "(string \<Rightarrow> string) \<Rightarrow> connection list \<Rightarrow> guard_reply list \<Rightarrow> string option list" where
  "reply_lines err_text [] rs = []"
| "reply_lines err_text (cn # cns) rs =
     (case request_call cn of
        None \<Rightarrow> control_reply err_text cn # reply_lines err_text cns rs
      | Some call \<Rightarrow> Some (json_line (reply_json (hd rs))) # reply_lines err_text cns (tl rs))"

lemma handleConn_eq:
  "handleConn g err_text cn st =
     (case request_call cn of
        None \<Rightarrow> (control_reply err_text cn, st)
      | Some call \<Rightarrow> (case guard_step g call st of (r, st') \<Rightarrow> (Some (json_line (reply_json r)), st')))"
proof (cases "cn_failed cn \<and> cn_line cn = []")
  case False
  then have read: "(cn_failed cn \<and> cn_line cn = []) = False" by simp
  show ?thesis
  proof (cases "unmarshal_map (cn_line cn)")
    case (Some req)
    then show ?thesis
      by (cases "req ''op''"; cases "the (req ''op'')")
        (simp_all add: handleConn_def request_call_def control_reply_def writeJSON_def json_line_def Let_def read
          split: prod.split)
  qed (simp add: handleConn_def request_call_def control_reply_def writeJSON_def json_line_def read)
qed (simp add: handleConn_def request_call_def control_reply_def)

lemma serve_eq:
  "serve g err_text cns st =
     (reply_lines err_text cns (fst (guard_run g (List.map_filter request_call cns) st)),
      snd (guard_run g (List.map_filter request_call cns) st))"
proof (induction cns arbitrary: st)
  case (Cons cn cns)
  show ?case
    by (cases "request_call cn")
      (simp_all add: handleConn_eq Cons map_filter_simps Let_def case_prod_beta)
qed (simp add: map_filter_simps)

text \<open>C16: The request loop is a guard session. Serving any connections (malformed lines, unknown and
  missing operations, wrong types, half-read and empty requests among them) leaves the guard in exactly
  the state of the session of those connections that carry a call, in order; each of these is
  answered with the guard's reply, and every other one changes nothing and is answered with an
  error, a ping with ok, an empty connection with nothing.\<close>

theorem serve_is_session:
  "serve (wired_guard w) err_text cns (wired_state w k) =
     (reply_lines err_text cns (replies w (List.map_filter request_call cns) k),
      final w (List.map_filter request_call cns) k)"
  by (simp add: serve_eq replies_def final_def session_def)

lemma one_line_flags [simp]: "one_line (flags_json fs)"
  by (simp add: flags_json_def list_all_iff)

lemma one_line_reply: "one_line (reply_json r)"
  by (cases r) (auto split: option.split)

lemma one_line_error: "one_line (errShape code msg)"
  by (simp add: errShape_def)

lemmas one_line_replies = one_line_reply one_line_error

text \<open>C35: The framing never breaks. Whatever bytes arrive and whatever the store holds (newlines, quotes
  and bytes that are not UTF-8 included), a connection on which something was read gets exactly
  one line back: one newline, at the end.\<close>

theorem one_reply_line:
  "case fst (handleConn g err_text cn st) of
     None \<Rightarrow> cn_failed cn \<and> cn_line cn = []
   | Some bytes \<Rightarrow> \<exists>l. bytes = l @ [CHR 0x0A] \<and> CHR 0x0A \<notin> set l"
proof -
  have line: "\<exists>l. json_line v = l @ [CHR 0x0A] \<and> CHR 0x0A \<notin> set l" if "one_line v" for v
    using encode_one_line [OF that] by (simp add: json_line_def)
  have ping: "one_line (JObj [(''ok'', JBool True)])" by simp
  show ?thesis
  proof (cases "request_call cn")
    case None
    then show ?thesis
      by (auto simp: handleConn_eq control_reply_def line one_line_replies ping split: option.split)
  next
    case (Some call)
    then show ?thesis by (simp add: handleConn_eq case_prod_beta line one_line_replies)
  qed
qed

lemma valid_reply_names:
  "valid_utf8 []" "valid_utf8 ''content_redacted''" "valid_utf8 ''flags''" "valid_utf8 ''found''"
  by (rule valid_utf8_ascii, code_simp)+

lemma reply_depth: "json_depth (reply_json r) \<le> 2"
proof -
  have "json_depth (flags_json fs) = 1" for fs by (simp add: flags_json_def fold_max_zero)
  then show ?thesis by (cases r) (auto split: option.split)
qed

section \<open>The contract of the replies\<close>

text \<open>The reply shapes of docs/CONTRACT.md and docs/spec/interfaces.md, as types of JSON objects whose keys are
  in the order json.Marshal gives a map.\<close>

datatype field_type = TBool | TStr | TStrs | TNullableStr

fun has_type :: "field_type \<Rightarrow> json \<Rightarrow> bool" where
  "has_type TBool (JBool _) = True"
| "has_type TStr (JStr _) = True"
| "has_type TStrs (JArr vs) = list_all (has_type TStr) vs"
| "has_type TNullableStr JNull = True"
| "has_type TNullableStr (JStr _) = True"
| "has_type _ _ = False"

fun typed :: "(string \<times> field_type) list \<Rightarrow> json \<Rightarrow> bool" where
  "typed fts (JObj ms) \<longleftrightarrow>
     map fst ms = map fst fts \<and> list_all2 (\<lambda>f m. has_type (snd f) (snd m)) fts ms"
| "typed fts _ = False"

fun field :: "json \<Rightarrow> string \<Rightarrow> json option" where
  "field (JObj ms) k = map_of ms k"
| "field _ k = None"

definition write_contract :: "json \<Rightarrow> bool" where
  "write_contract v \<longleftrightarrow>
     typed [(''allow'', TBool), (''flags'', TStrs), (''state'', TStr), (''stored_id'', TNullableStr)] v \<and>
     field v ''state'' \<in> {Some (JStr ''allow''), Some (JStr ''quarantine''), Some (JStr ''block'')} \<and>
     field v ''allow'' = Some (JBool (field v ''state'' \<noteq> Some (JStr ''block''))) \<and>
     (field v ''stored_id'' = Some JNull \<longleftrightarrow> field v ''state'' = Some (JStr ''block''))"

definition read_contract :: "json \<Rightarrow> bool" where
  "read_contract v \<longleftrightarrow>
     typed [(''allow'', TBool), (''content_redacted'', TStr), (''flags'', TStrs)] v \<and>
     field v ''allow'' = Some (JBool True)"

definition review_contract :: "json \<Rightarrow> bool" where
  "review_contract v \<longleftrightarrow>
     typed [(''content_redacted'', TStr), (''flags'', TStrs), (''found'', TBool)] v \<and>
     (if field v ''found'' = Some (JBool False)
      then v = JObj [(''content_redacted'', JStr []), (''flags'', JArr []), (''found'', JBool False)] else True)"

definition delete_contract :: "json \<Rightarrow> bool" where
  "delete_contract v \<longleftrightarrow>
     typed ([(''confirmed'', TBool), (''deletion_hash'', TStr), (''residue_detected'', TBool)] @
            (if field v ''residue_detected'' = Some (JBool True) then [(''residue_summary'', TStr)] else [])) v"

definition error_contract :: "string \<Rightarrow> json \<Rightarrow> bool" where
  "error_contract code v \<longleftrightarrow>
     (\<exists>e. v = JObj [(''error'', e)] \<and> typed [(''code'', TStr), (''message'', TStr), (''retryable'', TBool)] e \<and>
        field e ''code'' = Some (JStr code) \<and> field e ''retryable'' = Some (JBool False))"

text \<open>What a line is answered.\<close>

definition reply_contract :: "string \<Rightarrow> json \<Rightarrow> bool" where
  "reply_contract line v =
     (case unmarshal_map line of
        None \<Rightarrow> error_contract ''bad_request'' v
      | Some req \<Rightarrow>
          if req ''op'' = Some (JStr ''validate_write'') then write_contract v
          else if req ''op'' = Some (JStr ''validate_read'') then read_contract v
          else if req ''op'' = Some (JStr ''verify_delete'') then delete_contract v
          else if req ''op'' = Some (JStr ''review_quarantine'') then review_contract v
          else if req ''op'' = Some (JStr ''ping'') then v = JObj [(''ok'', JBool True)]
          else error_contract ''unknown_op'' v)"

lemma flags_typed [simp]: "has_type TStrs (flags_json fs)"
  by (simp add: flags_json_def list_all_iff)

lemma write_shapes_typed:
  "write_contract (reply_json (RWrite \<lparr>wr_allow = False, wr_stored_id = None, wr_state = ''block'', wr_flags = fs\<rparr>))"
  "write_contract (reply_json (RWrite \<lparr>wr_allow = True, wr_stored_id = Some i,
     wr_state = (if q then ''quarantine'' else ''allow''), wr_flags = fs\<rparr>))"
  by (simp_all add: write_contract_def)

lemma write_branches_typed:
  "write_contract (reply_json (RWrite x)) \<Longrightarrow> write_contract (reply_json (RWrite y)) \<Longrightarrow>
     write_contract (reply_json (RWrite (if b then x else y)))"
  by (cases b) (simp_all only: if_True if_False)

lemma write_reply_typed:
  assumes "ValidateWrite g env c m key st = (r, st')"
  shows "write_contract (reply_json (RWrite r))"
proof -
  have "write_contract (reply_json (RWrite (fst (ValidateWrite g env c m key st))))"
    unfolding ValidateWrite_def store_write_def Let_def case_prod_beta
    by (simp only: if_distrib [of fst] fst_conv) (intro write_branches_typed write_shapes_typed)
  then show ?thesis by (simp only: assms fst_conv)
qed

lemma delete_reply_typed:
  assumes "VerifyDelete g env i st = (r, st')"
  shows "delete_contract (reply_json (RDelete r))"
proof -
  have "r = fst (VerifyDelete g env i st)" by (simp add: assms)
  then have "\<exists>s. dr_residue_summary r = (if dr_residue_detected r then Some s else None)"
    unfolding VerifyDelete_def Let_def case_prod_beta by (simp only: fst_conv delete_response.select_convs) blast
  then show ?thesis by (auto simp: delete_contract_def)
qed

lemma read_reply_typed: "read_contract (reply_json (RRead (ValidateRead g q m st)))"
  by (simp add: read_contract_def ValidateRead_def Let_def case_prod_beta)

lemma review_reply_typed: "review_contract (reply_json (RReview (ReviewQuarantine g i st)))"
  by (auto simp: review_contract_def ReviewQuarantine_def Let_def case_prod_beta flags_json_def list_all_iff
      split: option.split)

lemma error_typed: "error_contract code (errShape code msg)"
  by (simp add: error_contract_def errShape_def)

lemma some_reply: "out = Some (writeJSON v) \<Longrightarrow> R v \<Longrightarrow> (\<And>x. R x \<Longrightarrow> C x) \<Longrightarrow> \<exists>x. out = Some (writeJSON x) \<and> C x"
  by blast

text \<open>A well-formed request is answered with the type of its operation.\<close>

lemma object_reply_typed:
  assumes "(cn_failed cn \<and> cn_line cn = []) = False" and "unmarshal_map (cn_line cn) = Some req"
  shows "\<exists>v. fst (handleConn g err_text cn st) = Some (writeJSON v) \<and> reply_contract (cn_line cn) v"
proof -
  note conn = handleConn_def reply_contract_def assms
  consider "req ''op'' = Some (JStr ''validate_write'')" | "req ''op'' = Some (JStr ''validate_read'')"
    | "req ''op'' = Some (JStr ''verify_delete'')" | "req ''op'' = Some (JStr ''review_quarantine'')"
    | "req ''op'' = Some (JStr ''ping'')"
    | "req ''op'' \<notin> {Some (JStr ''validate_write''), Some (JStr ''validate_read''), Some (JStr ''verify_delete''),
        Some (JStr ''review_quarantine''), Some (JStr ''ping'')}" by (simp only: insert_iff empty_iff) argo
  then show ?thesis
  proof cases
    case 1
    have "fst (handleConn g err_text cn st) = Some (writeJSON (reply_json (RWrite (fst (ValidateWrite g (cn_env cn) (str (req ''entry'')) (as_map (req ''identity''))
        [str (req ''key'')] st)))))"
      by (simp add: conn 1 Let_def case_prod_beta del: reply_json.simps)
    then show ?thesis
      by (rule some_reply) (rule write_reply_typed [OF prod.collapse [symmetric]], simp add: reply_contract_def assms(2) 1)
  next
    case 2
    have "fst (handleConn g err_text cn st) = Some (writeJSON (reply_json (RRead (ValidateRead g (str (req ''query'')) (as_map (req ''identity'')) st))))"
      by (simp add: conn 2 Let_def case_prod_beta del: reply_json.simps)
    then show ?thesis
      by (rule some_reply) (rule read_reply_typed, simp add: reply_contract_def assms(2) 2)
  next
    case 3
    have "fst (handleConn g err_text cn st) = Some (writeJSON (reply_json (RDelete (fst (VerifyDelete g (cn_env cn) (str (req ''id'')) st)))))"
      by (simp add: conn 3 Let_def case_prod_beta del: reply_json.simps)
    then show ?thesis
      by (rule some_reply) (rule delete_reply_typed [OF prod.collapse [symmetric]], simp add: reply_contract_def assms(2) 3)
  next
    case 4
    have "fst (handleConn g err_text cn st) = Some (writeJSON (reply_json (RReview (ReviewQuarantine g (str (req ''id'')) st))))"
      by (simp add: conn 4 Let_def case_prod_beta del: reply_json.simps)
    then show ?thesis
      by (rule some_reply) (rule review_reply_typed, simp add: reply_contract_def assms(2) 4)
  next
    case 5
    show ?thesis
      by (rule some_reply [of _ _ "\<lambda>v. v = JObj [(''ok'', JBool True)]"]) (simp_all add: conn 5)
  next
    case 6
    show ?thesis
      by (rule some_reply [where R = "error_contract ''unknown_op''", OF _ error_typed]) (use 6 in \<open>simp_all add: conn\<close>)
  qed
qed

text \<open>C17: Every reply has the type its operation promises. Over any guard and in any state, what a connection is
  answered is one encoded object of exactly the promised keys and types: a write's state is one of
  three, allow says that it is not block, and the stored id is null exactly then; a read is always
  allowed; a deletion carries a residue summary exactly when residue was detected; a review that
  found nothing is one fixed object; a line that is no object, or names no known operation, gets
  the error object with its code, never retryable.\<close>

theorem replies_well_typed:
  "case fst (handleConn g err_text cn st) of
     None \<Rightarrow> cn_failed cn \<and> cn_line cn = []
   | Some bytes \<Rightarrow> \<exists>v. bytes = writeJSON v \<and> reply_contract (cn_line cn) v"
proof (cases "cn_failed cn \<and> cn_line cn = []")
  case False
  then have read: "(cn_failed cn \<and> cn_line cn = []) = False" by simp
  have "\<exists>v. fst (handleConn g err_text cn st) = Some (writeJSON v) \<and> reply_contract (cn_line cn) v"
  proof (cases "unmarshal_map (cn_line cn)")
    case None
    have "fst (handleConn g err_text cn st) = Some (writeJSON (errShape ''bad_request'' (err_text (cn_line cn))))"
      by (simp add: handleConn_def read None)
    moreover have "reply_contract (cn_line cn) (errShape ''bad_request'' (err_text (cn_line cn)))"
      by (simp add: reply_contract_def None error_typed)
    ultimately show ?thesis by (intro exI conjI)
  next
    case (Some req)
    from object_reply_typed [OF read this] show ?thesis .
  qed
  then show ?thesis by auto
qed (simp add: handleConn_def)

section \<open>Clients\<close>

text \<open>The requests a client can make, their objects (as docs/CONTRACT.md has them) and the calls they mean.
  Claims are the members of an object, in the order they are written.\<close>

datatype client_request =
    AskWrite string "(string \<times> json) list" string
  | AskRead string "(string \<times> json) list"
  | AskReview string
  | AskDelete string

fun request_object :: "client_request \<Rightarrow> (string \<times> json) list" where
  "request_object (AskWrite content claims key) =
     [(''op'', JStr ''validate_write''), (''entry'', JStr content), (''identity'', JObj claims), (''key'', JStr key)]"
| "request_object (AskRead query claims) =
     [(''op'', JStr ''validate_read''), (''query'', JStr query), (''identity'', JObj claims)]"
| "request_object (AskReview i) = [(''op'', JStr ''review_quarantine''), (''id'', JStr i)]"
| "request_object (AskDelete i) = [(''op'', JStr ''verify_delete''), (''id'', JStr i)]"

fun asked_call :: "guard_env \<Rightarrow> client_request \<Rightarrow> guard_call" where
  "asked_call env (AskWrite content claims key) = CWrite env content (map_of (rev claims)) [key]"
| "asked_call env (AskRead query claims) = CRead query (map_of (rev claims))"
| "asked_call env (AskReview i) = CReview i"
| "asked_call env (AskDelete i) = CDeleteEntry env i"

text \<open>A client's reading of a reply object: each field by its name, with its type.\<close>

definition bool_field :: "json \<Rightarrow> string \<Rightarrow> bool option" where
  "bool_field v k = (case field v k of Some (JBool b) \<Rightarrow> Some b | _ \<Rightarrow> None)"

definition str_field_of :: "json \<Rightarrow> string \<Rightarrow> string option" where
  "str_field_of v k = (case field v k of Some (JStr s) \<Rightarrow> Some s | _ \<Rightarrow> None)"

definition strs_field :: "json \<Rightarrow> string \<Rightarrow> string list option" where
  "strs_field v k = (case field v k of
     Some (JArr vs) \<Rightarrow> those (map (\<lambda>x. case x of JStr s \<Rightarrow> Some s | _ \<Rightarrow> None) vs) | _ \<Rightarrow> None)"

fun read_reply :: "client_request \<Rightarrow> json \<Rightarrow> guard_reply option" where
  "read_reply (AskWrite _ _ _) v =
     (case (bool_field v ''allow'', strs_field v ''flags'', str_field_of v ''state'') of
        (Some allow, Some flags, Some state) \<Rightarrow>
          Some (RWrite \<lparr>wr_allow = allow, wr_stored_id = str_field_of v ''stored_id'', wr_state = state, wr_flags = flags\<rparr>)
      | _ \<Rightarrow> None)"
| "read_reply (AskRead _ _) v =
     (case (bool_field v ''allow'', str_field_of v ''content_redacted'', strs_field v ''flags'') of
        (Some allow, Some content, Some flags) \<Rightarrow>
          Some (RRead \<lparr>rr_allow = allow, rr_content_redacted = content, rr_flags = flags\<rparr>)
      | _ \<Rightarrow> None)"
| "read_reply (AskReview _) v =
     (case (bool_field v ''found'', str_field_of v ''content_redacted'', strs_field v ''flags'') of
        (Some found, Some content, Some flags) \<Rightarrow>
          Some (RReview \<lparr>qr_found = found, qr_content_redacted = content, qr_flags = flags\<rparr>)
      | _ \<Rightarrow> None)"
| "read_reply (AskDelete _) v =
     (case (bool_field v ''confirmed'', bool_field v ''residue_detected'', str_field_of v ''deletion_hash'') of
        (Some confirmed, Some detected, Some hash) \<Rightarrow>
          Some (RDelete \<lparr>dr_confirmed = confirmed, dr_residue_detected = detected,
                  dr_residue_summary = str_field_of v ''residue_summary'', dr_deletion_hash = hash\<rparr>)
      | _ \<Rightarrow> None)"

lemma those_strings: "those (map ((\<lambda>x. case x of JStr s \<Rightarrow> Some s | _ \<Rightarrow> None) \<circ> JStr) fs) = Some fs"
  by (induction fs) simp_all

lemma asked_request_call:
  assumes "json_ok (JObj (request_object q))" and "json_fits (JObj (request_object q))"
    and "json_depth (JObj (request_object q)) \<le> maxNestingDepth"
  shows "request_call \<lparr>cn_env = env, cn_line = json_line (JObj (request_object q)), cn_failed = False\<rparr> =
     Some (asked_call env q)"
  using unmarshal_line [OF assms(1,3,2)]
  by (cases q) (simp_all add: request_call_def str_def as_map_def)

lemma read_reply_json:
  assumes "guard_step g (asked_call env q) st = (r, st')"
  shows "read_reply q (reply_json r) = Some r"
  using assms
  by (cases q)
    (auto simp: bool_field_def str_field_of_def strs_field_def flags_json_def those_strings
      split: prod.splits option.splits)

text \<open>C36: Requests and replies round-trip through the handler. For each of the four operations: a client
  encodes its request as one line of JSON, the handler reads that line in any state of any guard, and
  the client parses the line it gets back and reads the fields of its operation by name. Then the
  guard has made exactly the call the client meant (its text, query, id and key byte for byte, its
  claims as the map they spell), and the client holds exactly the guard's reply, every field of it. The
  request must be one that JSON can carry (strings in UTF-8, numbers in range, claims nested within
  Go's limit), and so must the reply's strings.\<close>

theorem request_reply_roundtrip:
  assumes "json_ok (JObj (request_object q))" and "json_fits (JObj (request_object q))"
    and "json_depth (JObj (request_object q)) \<le> maxNestingDepth"
    and "guard_step g (asked_call env q) st = (r, st')" and "json_ok (reply_json r)"
  shows "\<exists>line. handleConn g err_text
         \<lparr>cn_env = env, cn_line = json_line (JObj (request_object q)), cn_failed = False\<rparr> st = (Some line, st') \<and>
       Option.bind (json_parse line) (read_reply q) = Some r"
proof -
  have "json_parse (json_line (reply_json r)) = Some (reply_json r)"
    using json_line_roundtrip [OF assms(5)] reply_depth [of r] by (simp add: maxNestingDepth_def)
  with read_reply_json [OF assms(4)] show ?thesis
    by (simp add: handleConn_eq asked_request_call [OF assms(1-3)] assms(4))
qed

theorem request_reply_roundtrip_witness:
  "\<exists>line st. handleConn (wired_guard plain_wiring) (\<lambda>t. t)
         \<lparr>cn_env = sample_env ''AAAAAA'',
          cn_line = json_line (JObj (request_object (AskWrite phrase [(''spiffe_id'', JStr ''bob'')] ''cfg''))),
          cn_failed = False\<rparr> (wired_state plain_wiring ()) = (Some line, st) \<and>
       Option.bind (json_parse line) (read_reply (AskWrite phrase [(''spiffe_id'', JStr ''bob'')] ''cfg'')) =
         Some (RWrite \<lparr>wr_allow = True, wr_stored_id = Some ''mem-414141414141'', wr_state = ''allow'', wr_flags = []\<rparr>)"
proof -
  let ?g = "wired_guard plain_wiring" and ?q = "AskWrite phrase [(''spiffe_id'', JStr ''bob'')] ''cfg''"
  let ?r = "RWrite \<lparr>wr_allow = True, wr_stored_id = Some ''mem-414141414141'', wr_state = ''allow'', wr_flags = []\<rparr>"
  have ascii: "valid_utf8 ''op''" "valid_utf8 ''validate_write''" "valid_utf8 ''entry''" "valid_utf8 ''identity''"
    "valid_utf8 ''key''" "valid_utf8 phrase" "valid_utf8 ''spiffe_id''" "valid_utf8 ''bob''" "valid_utf8 ''cfg''"
    "valid_utf8 ''allow''" "valid_utf8 ''state''" "valid_utf8 ''stored_id''" "valid_utf8 ''mem-414141414141''"
    by (rule valid_utf8_ascii, code_simp)+
  have ni: "\<not> det_DetectInjection (mg_det ?g) phrase \<noteq> []" by (simp add: phrase_facts)
  have "key_stage ?g (firstKey [''cfg'']) c att bs = ([], False, bs)" for c att bs
  proof -
    have "firstKey [''cfg''] \<noteq> []" "\<not> isReservedSystemKey (firstKey [''cfg''])" by code_simp+
    then show ?thesis by (simp add: key_stage_def evaluateKeyPolicy_def plain_wiring_def zero_policy_def)
  qed
  moreover have "inspect_stage ?g now c ctx i = ([], i)" for now c ctx i
    by (simp add: inspect_stage_def plain_wiring_def)
  moreover have "minted (sample_env ''AAAAAA'') = ''mem-414141414141''" by code_simp
  ultimately obtain st' where "guard_step ?g (asked_call (sample_env ''AAAAAA'') ?q) (wired_state plain_wiring ()) = (?r, st')"
    using wired.write_stored_entry [OF ni] by (simp add: phrase_facts)
  from request_reply_roundtrip [OF _ _ _ this, of "\<lambda>t. t"] show ?thesis
    using ascii valid_reply_names by (auto simp: maxNestingDepth_def flags_json_def)
qed

end
