(* ===== verification/Transport.thy ===== *)
theory Transport
  imports AuditEvents Json
begin

text \<open>
  The audit-trail transport's \<open>Emit\<close> (src/audit\_trail\_sink.go): one request line out, one response
  line in. What the socket does is the datatype \<open>exchange\<close>; the response's bytes are parsed as the
  code parses them.
\<close>

section \<open>Wire values\<close>

text \<open>\<open>json.Marshal\<close> writes the keys of a map in byte order.\<close>

fun to_json :: "wire \<Rightarrow> json" where
  "to_json (WStr s) = JStr s"
| "to_json (WInt n) = JNum (int_dec n)"
| "to_json (WArr vs) = JArr (map to_json vs)"
| "to_json (WObj ms) = JObj (sort_key fst (map (\<lambda>(k, v). (k, to_json v)) ms))"

definition emit_request :: "OCSFEvent \<Rightarrow> json" where
  "emit_request e = JObj [(''event'', to_json (WObj (mapToAuditTrailEvent e))), (''op'', JStr ''emit'')]"

section \<open>Emit\<close>

text \<open>Where the exchange ends: dialing, setting the deadline, writing, or with the bytes read up to a
  newline and whether reading them failed.\<close>

datatype exchange = DialFailed | DeadlineFailed | WriteFailed | Response string bool

definition AuditTrailSink_Emit :: "exchange \<Rightarrow> OCSFEvent \<Rightarrow> string option \<times> emit_outcome" where
  "AuditTrailSink_Emit x event =
     (case x of
        DialFailed \<Rightarrow> (None, EmitErr ''audit-trail dial'')
      | DeadlineFailed \<Rightarrow> (None, EmitErr ''audit-trail set deadline'')
      | WriteFailed \<Rightarrow> (Some (json_line (emit_request event)), EmitErr ''audit-trail write'')
      | Response respLine failed \<Rightarrow>
          (Some (json_line (emit_request event)),
           if failed \<and> respLine = [] then EmitErr ''audit-trail read''
           else (case unmarshal_map respLine of
                   None \<Rightarrow> EmitErr ''audit-trail decode''
                 | Some resp \<Rightarrow>
                     if resp ''error'' \<noteq> None then EmitErr ''audit-trail emit rejected''
                     else if resp ''hash'' = None then EmitErr ''audit-trail response missing hash''
                     else EmitOk)))"

section \<open>Events as JSON\<close>

text \<open>The marshalled event: the fields in the order of the structs, those tagged omitempty left out when
  empty, a nil pointer left out, and slices never null, since the builders make them non-nil.\<close>

definition omitempty :: "string \<Rightarrow> string \<Rightarrow> (string \<times> json) list" where
  "omitempty k v = (if v = [] then [] else [(k, JStr v)])"

definition product_json :: "OCSFProduct \<Rightarrow> json" where
  "product_json p = JObj ((''name'', JStr (pr_Name p)) # omitempty ''version'' (pr_Version p))"

definition metadata_json :: "OCSFMetadata \<Rightarrow> json" where
  "metadata_json m = JObj
     ((''product'', product_json (md_Product m)) # (''version'', JStr (md_Version m)) #
      omitempty ''event_code'' (md_EventCode m))"

definition finding_json :: "OCSFFinding \<Rightarrow> json" where
  "finding_json f = JObj
     ([(''type'', JStr (fi_Type f)), (''operation'', JStr (fi_Operation f)),
       (''flags'', JArr (map JStr (fi_Flags f))), (''flag_count'', JNum (int_dec (fi_FlagCount f)))] @
      omitempty ''stored_id'' (fi_StoredID f) @
      [(''source_class'', JStr (fi_SourceClass f))] @
      omitempty ''deletion_hash'' (fi_DeletionHash f) @
      (case fi_ResidueDetected f of None \<Rightarrow> [] | Some b \<Rightarrow> [(''residue_detected'', JBool b)]) @
      [(''related_events'', JArr (map JStr (fi_RelatedEvents f)))])"

definition event_json :: "OCSFEvent \<Rightarrow> json" where
  "event_json e = JObj
     [(''class_uid'', JNum (int_dec (ev_ClassUID e))), (''category_uid'', JNum (int_dec (ev_CategoryUID e))),
      (''activity_id'', JNum (int_dec (ev_ActivityID e))), (''severity_id'', JNum (int_dec (ev_SeverityID e))),
      (''time'', JNum (int_dec (ev_Time e))), (''metadata'', metadata_json (ev_Metadata e)),
      (''finding'', finding_json (ev_Finding e))]"

definition collecting_SerializedEvents :: "OCSFEvent list \<Rightarrow> string list" where
  "collecting_SerializedEvents k = map (\<lambda>e. json_encode (event_json e)) k"

section \<open>Properties\<close>

lemma digit_char_digit: "0 \<le> d \<Longrightarrow> d < 10 \<Longrightarrow> digit_byte (digit_char d)"
proof -
  assume "0 \<le> d" "d < 10"
  then have "d \<in> set [0..9]" by simp
  moreover have "list_all (\<lambda>d. digit_byte (digit_char d)) [0..9]" by code_simp
  ultimately show ?thesis by (simp only: list_all_iff)
qed

lemma nat_dec_digits: "0 \<le> n \<Longrightarrow> list_all digit_byte (nat_dec n)"
proof (induction n rule: nat_dec.induct)
  case (1 n)
  then show ?case
    by (subst nat_dec.simps) (auto simp: digit_char_digit pos_imp_zdiv_nonneg_iff)
qed

lemma nat_dec_first: "0 < n \<Longrightarrow> hd (nat_dec n) \<noteq> CHR ''0''"
proof (induction n rule: nat_dec.induct)
  case (1 n)
  show ?case
  proof (cases "n < 10")
    case True
    with 1(2) have "n \<in> set [1..9]" by simp
    moreover have "list_all (\<lambda>d. digit_char d \<noteq> CHR ''0'') [1..9]" by code_simp
    ultimately have "digit_char n \<noteq> CHR ''0''" unfolding list_all_iff by blast
    with True show ?thesis by (subst nat_dec.simps) simp
  next
    case False
    then have "0 < n div 10" by (simp add: pos_imp_zdiv_pos_iff)
    with 1(1) False show ?thesis by (subst nat_dec.simps) simp
  qed
qed

lemma int_literal_int_dec: "int_literal (int_dec n)"
proof -
  have "int_literal (nat_dec m) \<and> int_literal (CHR ''-'' # nat_dec m)" if m: "0 < m" for m
  proof -
    have "digit_byte (hd (nat_dec m))" using nat_dec_digits [of m] m by (cases "nat_dec m") auto
    then have "hd (nat_dec m) \<noteq> CHR ''-''" using digit_byte_facts by blast
    with nat_dec_digits [of m] nat_dec_first [OF m] m show ?thesis by (simp add: int_literal_def)
  qed
  moreover have "int_literal (nat_dec 0)" by code_simp
  ultimately show ?thesis by (cases n "0 :: int" rule: linorder_cases) (auto simp: int_dec_def)
qed

lemma to_json_one_line: "one_line (to_json w)"
  by (induction w) (auto simp: int_literal_int_dec int_number_literal list_all_iff)

text \<open>The transport speaks the line protocol and accepts nothing but a receipt. Whatever the event,
  what it writes is one line, the newline only at its end; it writes nothing when it could not dial
  or arm the deadline; and it reports success exactly when the response parses as an object with a
  hash and without an error.\<close>

theorem transport_emit_exact:
  "case AuditTrailSink_Emit x event of (sent, outcome) \<Rightarrow>
     (case sent of None \<Rightarrow> x = DialFailed \<or> x = DeadlineFailed
      | Some bytes \<Rightarrow> \<exists>l. bytes = l @ [CHR 0x0A] \<and> CHR 0x0A \<notin> set l) \<and>
     (outcome = EmitOk \<longleftrightarrow>
        (\<exists>line failed resp hash. x = Response line failed \<and> (if line = [] then \<not> failed else True) \<and>
           unmarshal_map line = Some resp \<and> resp ''hash'' = Some hash \<and> resp ''error'' = None)) \<and>
     (\<forall>msg. outcome \<noteq> EmitPanic msg)"
proof -
  have "one_line (emit_request event)"
    unfolding emit_request_def one_line.simps by (simp add: to_json_one_line del: to_json.simps)
  from encode_one_line [OF this] have line: "\<exists>l. json_line (emit_request event) = l @ [CHR 0x0A] \<and> CHR 0x0A \<notin> set l"
    by (simp add: json_line_def)
  show ?thesis
    by (cases x) (auto simp: AuditTrailSink_Emit_def line split: option.split)
qed

text \<open>Decimal numerals determine their number.\<close>

definition dec_val :: "string \<Rightarrow> int" where
  "dec_val s = foldl (\<lambda>a c. 10 * a + (byte_val c - 48)) 0 s"

lemma digit_char_val: "0 \<le> d \<Longrightarrow> d < 10 \<Longrightarrow> byte_val (digit_char d) = 48 + d"
proof -
  assume "0 \<le> d" "d < 10"
  then have "d \<in> set [0..9]" by simp
  moreover have "list_all (\<lambda>d. byte_val (digit_char d) = 48 + d) [0..9]" by code_simp
  ultimately show ?thesis by (simp only: list_all_iff)
qed

lemma dec_val_nat_dec: "0 \<le> n \<Longrightarrow> dec_val (nat_dec n) = n"
proof (induction n rule: nat_dec.induct)
  case (1 n)
  show ?case
  proof (cases "n < 10")
    case True
    with 1(2) show ?thesis by (subst nat_dec.simps) (simp add: dec_val_def digit_char_val)
  next
    case False
    with 1 have "dec_val (nat_dec (n div 10)) = n div 10" by (simp add: pos_imp_zdiv_nonneg_iff)
    with False 1(2) show ?thesis by (subst nat_dec.simps) (simp add: dec_val_def digit_char_val)
  qed
qed

lemma nat_dec_inj: "0 \<le> a \<Longrightarrow> 0 \<le> b \<Longrightarrow> nat_dec a = nat_dec b \<longleftrightarrow> a = b"
  by (metis dec_val_nat_dec)

lemma nat_dec_unsigned: "0 \<le> n \<Longrightarrow> nat_dec n \<noteq> CHR ''-'' # s"
proof
  assume "0 \<le> n" "nat_dec n = CHR ''-'' # s"
  with nat_dec_digits [of n] have "digit_byte CHR ''-''" by simp
  moreover have "\<not> digit_byte CHR ''-''" by code_simp
  ultimately show False by simp
qed

lemma int_dec_inj [simp]: "int_dec a = int_dec b \<longleftrightarrow> a = b"
  using nat_dec_inj [of a b] nat_dec_inj [of "- a" "- b"] nat_dec_unsigned [of a "nat_dec (- b)"]
    nat_dec_unsigned [of b "nat_dec (- a)"]
  by (cases "a < 0"; cases "b < 0") (auto simp: int_dec_def)

lemma omitempty_cons:
  "k \<noteq> k' \<Longrightarrow> omitempty k v @ (k', x) # xs = omitempty k w @ (k', y) # ys \<longleftrightarrow> v = w \<and> x = y \<and> xs = ys"
  by (auto simp: omitempty_def)

lemma omitempty_last: "omitempty k v = omitempty k w \<longleftrightarrow> v = w"
  by (auto simp: omitempty_def)

lemma map_JStr_inj [simp]: "map JStr xs = map JStr ys \<longleftrightarrow> xs = ys"
  by (simp add: inj_def inj_map_eq_map)

lemma residue_field_cons:
  "k \<noteq> k' \<Longrightarrow> (case r of None \<Rightarrow> [] | Some b \<Rightarrow> [(k, JBool b)]) @ (k', x) # xs =
     (case r' of None \<Rightarrow> [] | Some b \<Rightarrow> [(k, JBool b)]) @ (k', y) # ys \<longleftrightarrow> r = r' \<and> x = y \<and> xs = ys"
  by (auto split: option.splits)

lemma finding_json_inj: "finding_json f = finding_json f' \<longleftrightarrow> f = f'"
proof (cases f; cases f')
  fix t op fl n si sc dh rd re t' op' fl' n' si' sc' dh' rd' re'
  assume f: "f = \<lparr>fi_Type = t, fi_Operation = op, fi_Flags = fl, fi_FlagCount = n, fi_StoredID = si,
      fi_SourceClass = sc, fi_DeletionHash = dh, fi_ResidueDetected = rd, fi_RelatedEvents = re\<rparr>"
    and f': "f' = \<lparr>fi_Type = t', fi_Operation = op', fi_Flags = fl', fi_FlagCount = n', fi_StoredID = si',
      fi_SourceClass = sc', fi_DeletionHash = dh', fi_ResidueDetected = rd', fi_RelatedEvents = re'\<rparr>"
  have tail: "omitempty ''deletion_hash'' dh @ (case rd of None \<Rightarrow> [] | Some b \<Rightarrow> [(''residue_detected'', JBool b)]) @
        [(''related_events'', JArr (map JStr re))] =
      omitempty ''deletion_hash'' dh' @ (case rd' of None \<Rightarrow> [] | Some b \<Rightarrow> [(''residue_detected'', JBool b)]) @
        [(''related_events'', JArr (map JStr re'))] \<longleftrightarrow> dh = dh' \<and> rd = rd' \<and> re = re'"
    by (cases "dh = []"; cases "dh' = []"; cases rd; cases rd') (auto simp: omitempty_def)
  show ?thesis by (auto simp: finding_json_def f f' omitempty_cons tail)
qed

lemma metadata_json_inj: "metadata_json m = metadata_json m' \<longleftrightarrow> m = m'"
  by (cases m; cases m'; cases "md_Product m"; cases "md_Product m'")
    (auto simp: metadata_json_def product_json_def omitempty_last)

lemma event_json_inj: "event_json e = event_json e' \<longleftrightarrow> e = e'"
  by (cases e; cases e') (auto simp: event_json_def finding_json_inj metadata_json_inj)

text \<open>Every string of the event is UTF-8: so are the builders' literals, ids, hashes and flags.\<close>

definition event_utf8 :: "OCSFEvent \<Rightarrow> bool" where
  "event_utf8 e \<longleftrightarrow>
     (let m = ev_Metadata e; f = ev_Finding e in
      list_all valid_utf8 ([pr_Name (md_Product m), pr_Version (md_Product m), md_Version m, md_EventCode m,
        fi_Type f, fi_Operation f, fi_StoredID f, fi_SourceClass f, fi_DeletionHash f] @ fi_Flags f @ fi_RelatedEvents f))"

lemma event_keys:
  "list_all valid_utf8 [''class_uid'', ''category_uid'', ''activity_id'', ''severity_id'', ''time'', ''metadata'', ''finding'',
     ''product'', ''name'', ''version'', ''event_code'', ''type'', ''operation'', ''flags'', ''flag_count'', ''stored_id'',
     ''source_class'', ''deletion_hash'', ''residue_detected'', ''related_events'']"
  by (rule all_ascii_utf8) code_simp

lemma event_json_ok: "event_utf8 e \<Longrightarrow> json_ok (event_json e)"
  using event_keys
  by (auto simp: event_json_def metadata_json_def product_json_def finding_json_def omitempty_def event_utf8_def
      Let_def list_all_iff int_literal_int_dec split: option.splits)

lemma event_json_depth: "json_depth (event_json e) \<le> maxNestingDepth"
proof -
  have strs: "fold max (map json_depth (map JStr xs)) 0 = 0" for xs by (induction xs) simp_all
  have "json_depth (finding_json (ev_Finding e)) \<le> 2" "json_depth (metadata_json (ev_Metadata e)) \<le> 2"
    using strs by (auto simp: finding_json_def metadata_json_def product_json_def omitempty_def comp_def split: option.splits)
  then show ?thesis by (simp add: event_json_def maxNestingDepth_def)
qed

text \<open>C37: The serialized trail is the trail. For captured events with UTF-8 strings, each serialized event is one
  line of JSON that parses back to the event's document, whose optional fields are present exactly
  when the event has them, and two captures serialize alike only when they are the same events:
  nothing of an event is lost on this wire, the provenance included.\<close>

theorem serialized_events_roundtrip:
  assumes "list_all event_utf8 k" and "list_all event_utf8 k'"
  shows "list_all2 (\<lambda>bytes e. json_parse bytes = Some (event_json e) \<and> CHR 0x0A \<notin> set bytes)
       (collecting_SerializedEvents k) (collecting_Events k) \<and>
     (collecting_SerializedEvents k = collecting_SerializedEvents k' \<longleftrightarrow> k = k') \<and>
     length (collecting_SerializedEvents k) = nat (collecting_Count k)"
proof -
  have parse: "json_parse (json_encode (event_json e)) = Some (event_json e)" if "event_utf8 e" for e
    by (rule json_roundtrip [OF event_json_ok [OF that] event_json_depth])
  have "inj_on (\<lambda>e. json_encode (event_json e)) {e. event_utf8 e}"
    by (rule inj_onI) (metis parse event_json_inj mem_Collect_eq option.inject)
  moreover have "set k \<union> set k' \<subseteq> {e. event_utf8 e}" using assms by (auto simp: list_all_iff)
  ultimately have "map (\<lambda>e. json_encode (event_json e)) k = map (\<lambda>e. json_encode (event_json e)) k' \<longleftrightarrow> k = k'"
    by (intro inj_on_map_eq_map) (rule inj_on_subset)
  with assms(1) parse show ?thesis
    by (auto simp: collecting_SerializedEvents_def collecting_Events_def collecting_Count_def list_all2_conv_all_nth
        list_all_length json_encode_no_newline [OF event_json_ok])
qed

theorem serialized_events_roundtrip_witness:
  "collecting_SerializedEvents [BuildInjectionRejectedEvent 7 [''injection_suspected''] ''system'']
     \<noteq> collecting_SerializedEvents [BuildInjectionRejectedEvent 7 [''injection_suspected''] ''unknown'']"
proof -
  have "event_utf8 (BuildInjectionRejectedEvent 7 [''injection_suspected''] c)" if "valid_utf8 c" for c
    using that all_ascii_utf8 [of "[''memory-guard'', ''1.1.0'', ''injection_rejected'', ''validate_write'', ''injection_suspected'', []]"]
    by (simp add: event_utf8_def event_builders ocsf_consts Let_def) (simp add: is_ascii_def less_char_def)
  moreover have "list_all valid_utf8 [''system'', ''unknown'']" by (rule all_ascii_utf8) code_simp
  ultimately have "list_all event_utf8 [BuildInjectionRejectedEvent 7 [''injection_suspected''] ''system'']"
    "list_all event_utf8 [BuildInjectionRejectedEvent 7 [''injection_suspected''] ''unknown'']" by simp_all
  from serialized_events_roundtrip [OF this] show ?thesis by (simp add: event_builders)
qed

end
