(* ===== verification/Concurrent.thy ===== *)
theory Concurrent
  imports Session
begin

text \<open>
  Concurrent calls. The server runs one goroutine per connection (src/ipc.go), all over one guard, whose
  mutex the calls of src/guard.go take for parts of their work only. Here a call is cut where the code
  holds or leaves the mutex: a \<open>stage\<close> is where a call stands and what it carries, \<open>stage_step\<close>
  is its next indivisible piece, and \<open>cstep\<close> lets any unfinished call move.

  Pieces: the detector calls, which touch nothing shared; the key policy, whose registry access is one
  critical section; the inspector, which has a lock of its own (the two locks of a combined inspector
  are taken as one); minting an id and storing, under the mutex; each emission, after the mutex is
  left; the scan of a read and the lookup of a review, under the mutex, and their redaction after it;
  a deletion, wholly under the mutex.
\<close>

section \<open>Stages\<close>

datatype stage =
    Arrived guard_call
  | Refused guard_call "string list"
  | Screened guard_call "string list"
  | Keyed guard_call "string list"
  | Inspected guard_call "string list"
  | Stored guard_call "string list"
  | Scanned guard_call "entry list"
  | Fetched guard_call "entry option"
  | Done guard_call guard_reply

definition blocked_reply :: "string list \<Rightarrow> guard_reply" where
  "blocked_reply flags =
     RWrite \<lparr>wr_allow = False, wr_stored_id = None, wr_state = ''block'', wr_flags = flags\<rparr>"

definition stored_reply :: "guard_env \<Rightarrow> string list \<Rightarrow> guard_reply" where
  "stored_reply env flags =
     RWrite \<lparr>wr_allow = True, wr_stored_id = Some (minted env),
             wr_state = (if contains flags ''borderline_suspected'' then ''quarantine'' else ''allow''),
             wr_flags = flags\<rparr>"

definition redacted_reply :: "detector \<Rightarrow> entry list \<Rightarrow> guard_reply" where
  "redacted_reply det es =
     (let (redacted, flags) = det_RedactPII det (join ''\<newline>'' (map e_content (filter (\<lambda>e. \<not> e_quarantined e) es)))
      in RRead \<lparr>rr_allow = True, rr_content_redacted = redacted, rr_flags = flags\<rparr>)"

definition fetched_reply :: "detector \<Rightarrow> entry option \<Rightarrow> guard_reply" where
  "fetched_reply det found =
     RReview (case found of
        None \<Rightarrow> \<lparr>qr_found = False, qr_content_redacted = [], qr_flags = []\<rparr>
      | Some e \<Rightarrow>
          if \<not> e_quarantined e then \<lparr>qr_found = False, qr_content_redacted = [], qr_flags = []\<rparr>
          else \<lparr>qr_found = True, qr_content_redacted = fst (det_RedactPII det (e_content e)), qr_flags = e_flags e\<rparr>)"

text \<open>One piece of a call. A stage that does not fit its call is not reached and stands still.\<close>

fun stage_step ::
  "('s, 'i, 'k) memory_guard \<Rightarrow> stage \<Rightarrow> ('s, 'i, 'k) guard_state \<Rightarrow> stage \<times> ('s, 'i, 'k) guard_state" where
  "stage_step g (Arrived (CWrite env c m key)) st =
     (let flags = (det_DetectInjection (mg_det g) c @ snd (det_RedactPII (mg_det g) c)) @ det_DetectBorderline (mg_det g) c
      in (if contains flags ''injection_suspected'' then Refused (CWrite env c m key) flags
          else Screened (CWrite env c m key) flags, st))"
| "stage_step g (Refused (CWrite env c m key) flags) st =
     (Done (CWrite env c m key) (blocked_reply flags),
      st\<lparr>gs_sink := emitSafe (mg_audit g)
           (BuildInjectionRejectedEvent (ge_now env) flags (sourceClassFromMap m)) (gs_sink st)\<rparr>)"
| "stage_step g (Screened (CWrite env c m key) flags) st =
     (let (fs, reject, bs) = key_stage g (firstKey key) (fst (det_RedactPII (mg_det g) c))
            (Attested (principalFromMap m)) (gs_baselines st)
      in (if reject then Done (CWrite env c m key) (blocked_reply (flags @ fs))
          else Keyed (CWrite env c m key) (flags @ fs), st\<lparr>gs_baselines := bs\<rparr>))"
| "stage_step g (Keyed (CWrite env c m key) flags) st =
     (let (behavioral, i) = inspect_stage g (ge_clock env) c
            \<lparr>wc_Key = boundKeyFor (Some (principalFromMap m)), wc_SourceClass = writeProvenanceHint m\<rparr>
            (gs_inspector st)
      in (Inspected (CWrite env c m key) (flags @ behavioral), st\<lparr>gs_inspector := i\<rparr>))"
| "stage_step g (Inspected (CWrite env c m key) flags) st =
     (Stored (CWrite env c m key) flags,
      st\<lparr>gs_store := ms_Put (mg_store g) (''mem-'' @ randHex 6 (ge_rand env))
           \<lparr>e_content = fst (det_RedactPII (mg_det g) c), e_boundIdentity = boundKeyFor (Some (principalFromMap m)),
            e_sourceClass = sourceClassFromMap m, e_flags = flags,
            e_quarantined = contains flags ''borderline_suspected''\<rparr> (gs_store st)\<rparr>)"
| "stage_step g (Stored (CWrite env c m key) flags) st =
     (Done (CWrite env c m key) (stored_reply env flags),
      if snd (det_RedactPII (mg_det g) c) \<noteq> []
      then st\<lparr>gs_sink := emitSafe (mg_audit g)
             (BuildPIIRedactionEvent (ge_now env) flags (minted env) (sourceClassFromMap m)) (gs_sink st)\<rparr>
      else st)"
| "stage_step g (Arrived (CRead q m)) st =
     (Scanned (CRead q m) (ms_ScanScoped (mg_store g) q
        [fst (readerVisibilityKey (Some (principalFromMap m))), sharedScopeKey] (gs_store st)), st)"
| "stage_step g (Scanned call es) st = (Done call (redacted_reply (mg_det g) es), st)"
| "stage_step g (Arrived (CReview i)) st = (Fetched (CReview i) (ms_Get (mg_store g) i (gs_store st)), st)"
| "stage_step g (Fetched call found) st = (Done call (fetched_reply (mg_det g) found), st)"
| "stage_step g (Arrived (CDeleteEntry env i)) st =
     (case VerifyDelete g env i st of (r, st') \<Rightarrow> (Done (CDeleteEntry env i) (RDelete r), st'))"
| "stage_step g t st = (t, st)"

fun finished :: "stage \<Rightarrow> bool" where
  "finished (Done _ _) = True"
| "finished _ = False"

type_synonym ('s, 'i, 'k) config = "stage list \<times> ('s, 'i, 'k) guard_state"

inductive cstep ::
  "('s, 'i, 'k) memory_guard \<Rightarrow> ('s, 'i, 'k) config \<Rightarrow> ('s, 'i, 'k) config \<Rightarrow> bool" for g where
  move: "j < length ts \<Longrightarrow> \<not> finished (ts ! j) \<Longrightarrow> stage_step g (ts ! j) st = (t, st') \<Longrightarrow>
     cstep g (ts, st) (ts[j := t], st')"

inductive_cases cstepE: "cstep g (ts, st) cfg"
inductive_simps cstep_iff: "cstep g (ts, st) (ts', st')"

text \<open>All calls at their start, and all calls answered.\<close>

definition arrivals :: "guard_call list \<Rightarrow> stage list" where
  "arrivals cs = map Arrived cs"

definition answered :: "guard_call list \<Rightarrow> guard_reply list \<Rightarrow> stage list" where
  "answered cs rs = map2 Done cs rs"

section \<open>One call\<close>

fun call_of :: "stage \<Rightarrow> guard_call" where
  "call_of (Arrived c) = c"
| "call_of (Refused c _) = c"
| "call_of (Screened c _) = c"
| "call_of (Keyed c _) = c"
| "call_of (Inspected c _) = c"
| "call_of (Stored c _) = c"
| "call_of (Scanned c _) = c"
| "call_of (Fetched c _) = c"
| "call_of (Done c _) = c"

fun is_write :: "guard_call \<Rightarrow> bool" where
  "is_write (CWrite _ _ _ _) = True"
| "is_write _ = False"

text \<open>How many pieces are left at most.\<close>

fun rank :: "stage \<Rightarrow> nat" where
  "rank (Arrived _) = 5"
| "rank (Screened _ _) = 4"
| "rank (Keyed _ _) = 3"
| "rank (Inspected _ _) = 2"
| "rank (Refused _ _) = 1"
| "rank (Stored _ _) = 1"
| "rank (Scanned _ _) = 1"
| "rank (Fetched _ _) = 1"
| "rank (Done _ _) = 0"

text \<open>The flags a write carries past the injection gate: those of the detectors first, then others
  that do not route.\<close>

definition detector_flags_of :: "('s, 'i, 'k) memory_guard \<Rightarrow> string \<Rightarrow> string list" where
  "detector_flags_of g c =
     (det_DetectInjection (mg_det g) c @ snd (det_RedactPII (mg_det g) c)) @ det_DetectBorderline (mg_det g) c"

definition screened_ok :: "('s, 'i, 'k) memory_guard \<Rightarrow> string \<Rightarrow> string list \<Rightarrow> bool" where
  "screened_ok g c flags \<longleftrightarrow>
     det_DetectInjection (mg_det g) c = [] \<and> prefix (detector_flags_of g c) flags \<and>
     (borderline_suspected \<in> set flags \<longleftrightarrow> det_DetectBorderline (mg_det g) c \<noteq> [])"

fun stage_ok :: "('s, 'i, 'k) memory_guard \<Rightarrow> stage \<Rightarrow> bool" where
  "stage_ok g (Arrived _) = True"
| "stage_ok g (Refused (CWrite env c m key) flags) \<longleftrightarrow>
     det_DetectInjection (mg_det g) c \<noteq> [] \<and> flags = detector_flags_of g c"
| "stage_ok g (Screened (CWrite env c m key) flags) \<longleftrightarrow> screened_ok g c flags"
| "stage_ok g (Keyed (CWrite env c m key) flags) \<longleftrightarrow> screened_ok g c flags"
| "stage_ok g (Inspected (CWrite env c m key) flags) \<longleftrightarrow> screened_ok g c flags"
| "stage_ok g (Stored (CWrite env c m key) flags) \<longleftrightarrow> screened_ok g c flags"
| "stage_ok g (Scanned (CRead q m) es) = True"
| "stage_ok g (Fetched (CReview i) found) = True"
| "stage_ok g (Done _ _) = True"
| "stage_ok g _ = False"

text \<open>What a call has done so far: its reply, once it is settled; the keyed writes it has shown to the
  policy; the events it has emitted.\<close>

fun commits :: "('s, 'i, 'k) memory_guard \<Rightarrow> stage \<Rightarrow> (guard_call \<times> guard_reply) list" where
  "commits g (Refused c flags) = [(c, blocked_reply flags)]"
| "commits g (Stored (CWrite env c m key) flags) = [(CWrite env c m key, stored_reply env flags)]"
| "commits g (Scanned c es) = [(c, redacted_reply (mg_det g) es)]"
| "commits g (Fetched c found) = [(c, fetched_reply (mg_det g) found)]"
| "commits g (Done c r) = [(c, r)]"
| "commits g _ = []"

fun policed :: "('s, 'i, 'k) memory_guard \<Rightarrow> stage \<Rightarrow> keyed_write list" where
  "policed g (Arrived _) = []"
| "policed g (Screened _ _) = []"
| "policed g t = policy_writes g [call_of t]"

fun emits :: "('s, 'i, 'k) memory_guard \<Rightarrow> stage \<Rightarrow> OCSFEvent list" where
  "emits g (Done c r) = (case call_event g (c, r) of None \<Rightarrow> [] | Some ev \<Rightarrow> [ev])"
| "emits g _ = []"

section \<open>What a reply may be\<close>

text \<open>The reply to a call that takes effect when the stored entries are \<open>es\<close>.\<close>

fun answers_at :: "('s, 'i, 'k) memory_guard \<Rightarrow> (string \<rightharpoonup> entry) \<Rightarrow> guard_call \<times> guard_reply \<Rightarrow> bool" where
  "answers_at g es (CWrite env c m key, RWrite r) \<longleftrightarrow>
     wr_stored_id r = (if wr_allow r then Some (minted env) else None) \<and>
     wr_state r = (if \<not> wr_allow r then ''block''
                   else if det_DetectBorderline (mg_det g) c \<noteq> [] then ''quarantine'' else ''allow'') \<and>
     prefix (detector_flags_of g c) (wr_flags r) \<and>
     (if det_DetectInjection (mg_det g) c \<noteq> [] then \<not> wr_allow r
      else wr_allow r \<or> isReservedSystemKey (firstKey key))"
| "answers_at g es (CRead q m, RRead r) \<longleftrightarrow>
     (\<exists>hits. mset hits = image_mset e_content (filter_mset (readable m q) (stored es)) \<and>
        r = \<lparr>rr_allow = True, rr_content_redacted = fst (det_RedactPII (mg_det g) (join ''\<newline>'' hits)),
             rr_flags = snd (det_RedactPII (mg_det g) (join ''\<newline>'' hits))\<rparr>)"
| "answers_at g es (CReview i, RReview r) \<longleftrightarrow> r = review_of (mg_det g) es i"
| "answers_at g es (CDeleteEntry env i, RDelete r) \<longleftrightarrow>
     dr_confirmed r \<and>
     dr_deletion_hash r = deletionHash i (case es i of None \<Rightarrow> [] | Some e \<Rightarrow> e_content e) \<and>
     (dr_residue_detected r \<longleftrightarrow>
        (\<exists>e. es i = Some e \<and> trim_space (e_content e) \<noteq> [] \<and>
           (\<exists>j e'. j \<noteq> i \<and> es j = Some e' \<and>
              survivor_hit (ge_unicode env) (trim_space (e_content e)) (e_content e'))))"
| "answers_at g es _ = False"

text \<open>Calls in the order in which they take effect, each answered for what is stored at that moment.\<close>

fun legal :: "('s, 'i, 'k) memory_guard \<Rightarrow> (string \<rightharpoonup> entry) \<Rightarrow> (guard_call \<times> guard_reply) list \<Rightarrow> bool" where
  "legal g es [] = True"
| "legal g es (x # xs) \<longleftrightarrow> answers_at g es x \<and> legal g (log_step g x es) xs"

lemma legal_append: "legal g es (xs @ ys) \<longleftrightarrow> legal g es xs \<and> legal g (fold (log_step g) xs es) ys"
  by (induction xs arbitrary: es) auto

section \<open>One piece\<close>

lemma key_stage_reject:
  "key_stage g key c att bs = (fs, True, bs') \<Longrightarrow> isReservedSystemKey key"
  using evaluate_unreserved [of key "mg_keyPolicy g" c att bs] by (auto simp: key_stage_def split: if_splits)

text \<open>The stages a call can be at with a piece still to do.\<close>

lemma live_stage_cases [consumes 2, case_names arrived refused screened keyed inspected stored read scanned
    review fetched delete]:
  assumes "stage_ok g t" and "\<not> finished t"
  obtains env c m key where "t = Arrived (CWrite env c m key)"
  | env c m key flags where "t = Refused (CWrite env c m key) flags"
  | env c m key flags where "t = Screened (CWrite env c m key) flags"
  | env c m key flags where "t = Keyed (CWrite env c m key) flags"
  | env c m key flags where "t = Inspected (CWrite env c m key) flags"
  | env c m key flags where "t = Stored (CWrite env c m key) flags"
  | q m where "t = Arrived (CRead q m)"
  | q m es where "t = Scanned (CRead q m) es"
  | i where "t = Arrived (CReview i)"
  | i found where "t = Fetched (CReview i) found"
  | env i where "t = Arrived (CDeleteEntry env i)"
  using assms by (cases "(g, t)" rule: stage_ok.cases) (auto elim: guard_call.exhaust)

lemma stage_rank:
  assumes "stage_ok g t" and "\<not> finished t" and "stage_step g t st = (t', st')"
  shows "rank t' < rank t"
  using assms by (cases rule: live_stage_cases) (auto simp: Let_def split: if_splits prod.splits)

text \<open>A settled call stays settled.\<close>

lemma stage_commits: "\<exists>L. commits g (fst (stage_step g t st)) = commits g t @ L"
  by (cases "(g, t, st)" rule: stage_step.cases) (simp_all add: Let_def case_prod_beta)

lemma stage_call:
  assumes "stage_ok g t" and "\<not> finished t" and "stage_step g t st = (t', st')"
  shows "call_of t' = call_of t"
  using assms by (cases rule: live_stage_cases) (auto simp: Let_def split: if_splits prod.splits)

context guard_over
begin

lemma screened_more:
  assumes "screened_ok g c flags" and "borderline_suspected \<notin> set fs"
  shows "screened_ok g c (flags @ fs)"
  using assms by (auto simp: screened_ok_def)

lemma screened_start: "\<not> injected c \<Longrightarrow> screened_ok g c (detector_flags_of g c)"
  by (auto simp: screened_ok_def detector_flags_of_def)

lemma gate_flag: "injection_suspected \<in> set (detector_flags_of g c) \<longleftrightarrow> injected c"
  by (auto simp: detector_flags_of_def)

lemma arrive_write:
  "stage_step g (Arrived (CWrite env c m key)) st =
     (if injected c then Refused (CWrite env c m key) (detector_flags_of g c)
      else Screened (CWrite env c m key) (detector_flags_of g c), st)"
  using gate_flag [of c] by (simp add: Let_def detector_flags_of_def)

text \<open>What one piece of a call does: it keeps the backing consistent; it either settles the call's reply, which
  then answers for the entries stored at that moment and has the effect the log gives it, or leaves
  the stored entries alone; the registry moves by the keyed writes it shows the policy, the sink by
  the events it emits.\<close>

definition piece_ok ::
  "stage \<Rightarrow> ('s, 'i, 'k) guard_state \<Rightarrow> stage \<Rightarrow> ('s, 'i, 'k) guard_state \<Rightarrow>
   (guard_call \<times> guard_reply) list \<Rightarrow> keyed_write list \<Rightarrow> OCSFEvent list \<Rightarrow> bool" where
  "piece_ok t st t' st' L P E \<longleftrightarrow>
     inv (gs_store st') \<and> stage_ok g t' \<and>
     commits g t' = commits g t @ L \<and> legal g (abs (gs_store st)) L \<and>
     abs (gs_store st') = fold (log_step g) L (abs (gs_store st)) \<and>
     policed g t' = policed g t @ P \<and>
     gs_baselines st' = run_policy (mg_keyPolicy g) P (gs_baselines st) \<and>
     emits g t' = emits g t @ E \<and> gs_sink st' = fold (emitSafe (mg_audit g)) E (gs_sink st)"

lemma stage_piece:
  assumes "stage_ok g t" and "\<not> finished t" and "stage_step g t st = (t', st')" and "inv (gs_store st)"
    and "list_all (reply_ok g ok) (commits g t')"
  shows "\<exists>L P E. piece_ok t st t' st' L P E"
  using assms(1,2)
proof (cases rule: live_stage_cases)
  case (arrived env c m key)
  show ?thesis
  proof (cases "injected c")
    case True
    with assms show ?thesis unfolding arrived piece_ok_def
      by (intro exI [of _ "[(CWrite env c m key, blocked_reply (detector_flags_of g c))]"] exI [of _ "[]"])
        (auto simp: arrive_write blocked_reply_def policy_writes_def map_filter_simps simp del: stage_step.simps)
  next
    case False
    with assms screened_start show ?thesis unfolding arrived piece_ok_def
      by (intro exI [of _ "[]"]) (auto simp: arrive_write simp del: stage_step.simps)
  qed
next
  case (refused env c m key flags)
  with assms show ?thesis unfolding piece_ok_def
    by (intro exI [of _ "[]"] exI [of _ "[BuildInjectionRejectedEvent (ge_now env) flags (sourceClassFromMap m)]"])
      (auto simp: blocked_reply_def write_event_def)
next
  case (screened env c m key flags)
  let ?call = "CWrite env c m key"
  obtain fs rej bs where ks: "key_stage g (firstKey key) (redact c) (Attested (principalFromMap m)) (gs_baselines st) = (fs, rej, bs)"
    by (metis prod_cases3)
  have scr: "screened_ok g c (flags @ fs)"
    using assms(1) screened key_stage_routing [OF ks, of borderline_suspected] by (auto intro!: screened_more)
  have bs: "bs = run_policy (mg_keyPolicy g) (policy_writes g [?call]) (gs_baselines st)"
    using ks assms(1) screened by (auto simp: key_stage_def policy_writes_def map_filter_simps screened_ok_def split: if_splits)
  show ?thesis
  proof (cases rej)
    case True
    then have st': "t' = Done ?call (blocked_reply (flags @ fs))" "st' = st\<lparr>gs_baselines := bs\<rparr>"
      using assms(3) ks screened by simp_all
    have "answers_at g es (?call, blocked_reply (flags @ fs))" for es
      using scr key_stage_reject [of g _ _ _ _ fs bs] ks True by (auto simp: blocked_reply_def screened_ok_def)
    moreover have "call_event g (?call, blocked_reply (flags @ fs)) = None"
      using scr by (simp add: blocked_reply_def write_event_def screened_ok_def)
    ultimately show ?thesis using assms(4) bs unfolding piece_ok_def st' screened
      by (intro exI [of _ "[(?call, blocked_reply (flags @ fs))]"] exI [of _ "policy_writes g [?call]"] exI [of _ "[]"])
        (auto simp: blocked_reply_def split: if_splits)
  next
    case False
    then have "t' = Keyed ?call (flags @ fs)" "st' = st\<lparr>gs_baselines := bs\<rparr>"
      using assms(3) ks screened by simp_all
    with assms(4) scr bs show ?thesis unfolding piece_ok_def screened
      by (intro exI [of _ "[]"] exI [of _ "policy_writes g [?call]"]) simp
  qed
next
  case (keyed env c m key flags)
  obtain behavioral i where ins: "inspect_stage g (ge_clock env) c
      \<lparr>wc_Key = boundKeyFor (Some (principalFromMap m)), wc_SourceClass = writeProvenanceHint m\<rparr>
      (gs_inspector st) = (behavioral, i)" by (metis surj_pair)
  have "screened_ok g c (flags @ behavioral)"
    using assms(1) keyed inspect_stage_routing [OF ins, of borderline_suspected] by (auto intro!: screened_more)
  with assms(3,4) ins show ?thesis unfolding piece_ok_def keyed
    by (intro exI [of _ "[]"]) auto
next
  case (inspected env c m key flags)
  let ?call = "CWrite env c m key"
  have scr: "screened_ok g c flags" using assms(1) inspected by simp
  then have "answers_at g es (?call, stored_reply env flags)" for es
    by (auto simp: stored_reply_def screened_ok_def)
  moreover have "e = entry_of_write g c m flags" if "e = \<lparr>e_content = redact c,
      e_boundIdentity = boundKeyFor (Some (principalFromMap m)), e_sourceClass = sourceClassFromMap m, e_flags = flags,
      e_quarantined = contains flags ''borderline_suspected''\<rparr>" for e
    using scr that by (simp add: entry_of_write_def screened_ok_def)
  moreover have "det_DetectInjection (mg_det g) c = []" using scr by (simp add: screened_ok_def)
  moreover have "ok (minted env) (entry_of_write g c m flags)"
    using assms(3,5) by (auto simp: inspected stored_reply_def)
  ultimately show ?thesis using assms(3,4) scr unfolding piece_ok_def inspected
    by (intro exI [of _ "[(?call, stored_reply env flags)]"] exI [of _ "[]"])
      (auto simp: st.put_inv st.put_abs stored_reply_def minted_def)
next
  case (stored env c m key flags)
  let ?ev = "BuildPIIRedactionEvent (ge_now env) flags (minted env) (sourceClassFromMap m)"
  have "call_event g (CWrite env c m key, stored_reply env flags) = (if pii c \<noteq> [] then Some ?ev else None)"
    using assms(1) stored by (simp add: stored_reply_def write_event_def screened_ok_def)
  with assms stored show ?thesis unfolding piece_ok_def stored
    by (intro exI [of _ "[]"] exI [of _ "if pii c \<noteq> [] then [?ev] else []"]) auto
next
  case (read q m)
  let ?es = "ms_ScanScoped (mg_store g) q (visible_keys m) (gs_store st)"
  have r: "redacted_reply (mg_det g) ?es = RRead (ValidateRead g q m st)"
    by (simp add: redacted_reply_def ValidateRead_def Let_def case_prod_beta visible_keys_def)
  have "answers_at g (abs (gs_store st)) (CRead q m, redacted_reply (mg_det g) ?es)"
    unfolding r by (rule read_answer [OF assms(4), of m q]) auto
  with assms(3,4) show ?thesis unfolding piece_ok_def read
    by (intro exI [of _ "[(CRead q m, redacted_reply (mg_det g) ?es)]"] exI [of _ "[]"])
      (auto simp: visible_keys_def policy_writes_def map_filter_simps redacted_reply_def Let_def split: prod.splits)
next
  case (review i)
  have "fetched_reply (mg_det g) (ms_Get (mg_store g) i (gs_store st)) = RReview (review_of (mg_det g) (abs (gs_store st)) i)"
    by (simp add: fetched_reply_def review_of_def st.get_abs [OF assms(4)] split: option.split)
  with assms(3,4) show ?thesis unfolding piece_ok_def review
    by (intro exI [of _ "[(CReview i, fetched_reply (mg_det g) (ms_Get (mg_store g) i (gs_store st)))]"] exI [of _ "[]"])
      (auto simp: policy_writes_def map_filter_simps)
next
  case (delete env i)
  obtain r where v: "VerifyDelete g env i st = (r, st')" "t' = Done (CDeleteEntry env i) (RDelete r)"
    using assms(3) delete by (auto split: prod.splits)
  note d = delete_result [OF v(1) assms(4)] delete_residue [OF v(1) assms(4)] delete_sink [OF v(1)]
  from d(1,2,3,4,6,7) d(8) show ?thesis unfolding piece_ok_def delete v(2)
    by (intro exI [of _ "[(CDeleteEntry env i, RDelete r)]"] exI [of _ "[]"]
        exI [of _ "emits g (Done (CDeleteEntry env i) (RDelete r))"])
      (simp add: policy_writes_def map_filter_simps emit_option_def)
next
  case (scanned q m es)
  with assms show ?thesis unfolding piece_ok_def
    by (intro exI [of _ "[]"]) (auto simp: redacted_reply_def Let_def split: prod.splits)
next
  case (fetched i found)
  with assms show ?thesis unfolding piece_ok_def
    by (intro exI [of _ "[]"]) (auto simp: fetched_reply_def)
qed

end

section \<open>Any interleaving\<close>

lemma concat_update:
  assumes "j < length ts" and "f t = f (ts ! j) @ zs"
  shows "mset (concat (map f (ts[j := t]))) = mset (concat (map f ts)) + mset zs"
proof -
  have "ts = take j ts @ ts ! j # drop (Suc j) ts" by (rule id_take_nth_drop [OF assms(1)])
  then have "mset (concat (map f ts)) =
      mset (concat (map f (take j ts))) + mset (f (ts ! j)) + mset (concat (map f (drop (Suc j) ts)))"
    by (metis concat.simps(2) concat_append list.simps(9) map_append mset_append union_assoc)
  then show ?thesis by (simp add: upd_conv_take_nth_drop [OF assms(1)] assms(2))
qed

lemma fold_run_policy: "run_policy policy (xs @ ys) bs = run_policy policy ys (run_policy policy xs bs)"
  by (rule run_policy_append)

text \<open>The orders in which the calls of a configuration have taken effect so far: replies, keyed writes, events.\<close>

definition tracked ::
  "('s, 'i, 'k) memory_guard \<Rightarrow> ('s \<Rightarrow> (string \<rightharpoonup> entry)) \<Rightarrow> ('s, 'i, 'k) guard_state \<Rightarrow> ('s, 'i, 'k) config \<Rightarrow>
   (guard_call \<times> guard_reply) list \<Rightarrow> keyed_write list \<Rightarrow> OCSFEvent list \<Rightarrow> bool" where
  "tracked g content st0 cfg L P E \<longleftrightarrow>
     (case cfg of (ts, st) \<Rightarrow>
        mset L = mset (concat (map (commits g) ts)) \<and> legal g (content (gs_store st0)) L \<and>
        content (gs_store st) = fold (log_step g) L (content (gs_store st0)) \<and>
        mset P = mset (concat (map (policed g) ts)) \<and>
        gs_baselines st = run_policy (mg_keyPolicy g) P (gs_baselines st0) \<and>
        mset E = mset (concat (map (emits g) ts)) \<and>
        gs_sink st = fold (emitSafe (mg_audit g)) E (gs_sink st0))"

lemma finished_answered:
  "list_all finished ts \<Longrightarrow> \<exists>rs. length rs = length ts \<and> ts = answered (map call_of ts) rs"
proof (induction ts)
  case (Cons t ts)
  then obtain rs where "length rs = length ts" "ts = answered (map call_of ts) rs" by auto
  moreover from Cons.prems obtain c r where "t = Done c r" by (cases t) auto
  ultimately show ?case by (intro exI [of _ "r # rs"]) (simp add: answered_def)
qed (simp add: answered_def)

lemma answered_done:
  assumes "length rs = length cs"
  shows "concat (map (commits g) (answered cs rs)) = zip cs rs"
    and "concat (map (policed g) (answered cs rs)) = policy_writes g cs"
    and "concat (map (emits g) (answered cs rs)) = run_events g cs rs"
    and "list_all finished (answered cs rs)" and "map call_of (answered cs rs) = cs"
proof -
  have nil: "policy_writes g [] = []" by (simp add: policy_writes_def map_filter_simps)
  have pol: "policed g (Done c r) @ policy_writes g cs = policy_writes g (c # cs)" for c r cs
    by (simp add: policy_writes_def map_filter_simps split: option.split)
  have ev: "emits g (Done c r) @ run_events g cs rs = run_events g (c # cs) (r # rs)" for c r cs rs
    by (simp split: option.split)
  have "concat (map (commits g) (answered cs rs)) = zip cs rs \<and>
      concat (map (policed g) (answered cs rs)) = policy_writes g cs \<and>
      concat (map (emits g) (answered cs rs)) = run_events g cs rs \<and>
      list_all finished (answered cs rs) \<and> map call_of (answered cs rs) = cs"
    using assms
  proof (induction cs rs rule: list_induct2')
    case (4 c cs r rs)
    then show ?case using pol [of c r cs] ev [of c r cs rs] by (simp add: answered_def del: policed.simps emits.simps run_events_Cons)
  qed (simp_all add: answered_def nil)
  then show "concat (map (commits g) (answered cs rs)) = zip cs rs"
    and "concat (map (policed g) (answered cs rs)) = policy_writes g cs"
    and "concat (map (emits g) (answered cs rs)) = run_events g cs rs"
    and "list_all finished (answered cs rs)" and "map call_of (answered cs rs) = cs" by simp_all
qed

text \<open>How many pieces a configuration has left at most.\<close>

definition work :: "('s, 'i, 'k) config \<Rightarrow> nat" where
  "work cfg = sum_list (map rank (fst cfg))"

lemma work_arrivals: "work (arrivals cs, st) = 5 * length cs"
  by (induction cs) (simp_all add: work_def arrivals_def)

lemma rank_update:
  assumes "j < length ts" and "rank t < rank (ts ! j)"
  shows "sum_list (map rank (ts[j := t])) < sum_list (map rank ts)"
proof -
  have "ts = take j ts @ ts ! j # drop (Suc j) ts" by (rule id_take_nth_drop [OF assms(1)])
  then have "sum_list (map rank ts) =
      sum_list (map rank (take j ts)) + rank (ts ! j) + sum_list (map rank (drop (Suc j) ts))"
    by (metis add.assoc list.simps(9) map_append sum_list.Cons sum_list.append)
  with assms(2) show ?thesis by (simp add: upd_conv_take_nth_drop [OF assms(1)])
qed

text \<open>Nothing ever waits: while a call is unfinished, it can move.\<close>

lemma cstep_stuck: "(\<nexists>cfg'. cstep g (ts, st) cfg') \<longleftrightarrow> list_all finished ts"
proof
  assume stuck: "\<nexists>cfg'. cstep g (ts, st) cfg'"
  have "finished (ts ! j)" if "j < length ts" for j
    using stuck cstep.move [OF that _ prod.collapse [symmetric]] by blast
  then show "list_all finished ts" by (simp add: list_all_length)
next
  assume "list_all finished ts"
  then show "\<nexists>cfg'. cstep g (ts, st) cfg'" by (auto simp: list_all_length elim: cstepE)
qed

context guard_over
begin

definition config_ok :: "guard_call list \<Rightarrow> ('s, 'i, 'k) config \<Rightarrow> bool" where
  "config_ok cs cfg \<longleftrightarrow>
     inv (gs_store (snd cfg)) \<and> list_all (stage_ok g) (fst cfg) \<and> map call_of (fst cfg) = cs"

lemma start_ok: "inv (gs_store st) \<Longrightarrow> config_ok cs (arrivals cs, st)"
  by (induction cs) (simp_all add: config_ok_def arrivals_def)

lemma start_tracked: "tracked g abs st (arrivals cs, st) [] [] []"
  by (induction cs) (simp_all add: tracked_def arrivals_def)

text \<open>The settled writes of a configuration fit the store.\<close>

definition fits :: "('s, 'i, 'k) config \<Rightarrow> bool" where
  "fits cfg \<longleftrightarrow> list_all (list_all (reply_ok g ok) \<circ> commits g) (fst cfg)"

lemma fits_nth: "fits (ts, st) \<longleftrightarrow> (\<forall>i < length ts. list_all (reply_ok g ok) (commits g (ts ! i)))"
  by (simp add: fits_def list_all_length [of _ ts])

lemma cstep_fits:
  assumes "cstep g cfg cfg'" and "fits cfg'"
  shows "fits cfg"
  using assms(1)
proof cases
  case (move j ts st t st')
  obtain L where L: "commits g t = commits g (ts ! j) @ L"
    using stage_commits [of g "ts ! j" st] move(5) by auto
  have "list_all (reply_ok g ok) (commits g (ts ! i))" if i: "i < length ts" for i
    using assms(2) i move(2,3) L by (cases "i = j") (auto simp: fits_nth dest: spec [of _ i])
  then show ?thesis by (simp add: fits_nth move(1))
qed

lemma csteps_fit: "(cstep g)\<^sup>*\<^sup>* cfg cfg' \<Longrightarrow> fits cfg' \<Longrightarrow> fits cfg"
  by (induction rule: rtranclp_induct) (auto dest: cstep_fits)

lemma fits_answered: "length rs = length cs \<Longrightarrow> fits (answered cs rs, st) \<longleftrightarrow> run_ok g ok cs rs"
  by (induction cs rs rule: list_induct2') (simp_all add: fits_def answered_def run_ok_def)

lemma cstep_tracked:
  assumes "cstep g cfg cfg'" and "config_ok cs cfg" and "fits cfg'"
  shows "config_ok cs cfg' \<and> work cfg' < work cfg \<and>
     (\<forall>L P E. tracked g abs st0 cfg L P E \<longrightarrow>
        (\<exists>L' P' E'. tracked g abs st0 cfg' (L @ L') (P @ P') (E @ E')))"
  using assms(1)
proof cases
  case (move j ts st t st')
  then have live: "stage_ok g (ts ! j)" "inv (gs_store st)" "map call_of ts = cs"
    using assms(2) by (auto simp: config_ok_def list_all_length)
  have "list_all (reply_ok g ok) (commits g t)"
    using assms(3) move(2,3) by (auto simp: fits_nth dest: spec [of _ j])
  from stage_piece [OF live(1) move(4,5) live(2) this] obtain L' P' E' where piece: "piece_ok (ts ! j) st t st' L' P' E'"
    by blast
  have "tracked g abs st0 cfg' (L @ L') (P @ P') (E @ E')" if "tracked g abs st0 cfg L P E" for L P E
    using that piece move(1,2) concat_update [OF move(3), of "commits g" t L']
      concat_update [OF move(3), of "policed g" t P'] concat_update [OF move(3), of "emits g" t E']
    by (simp add: tracked_def piece_ok_def legal_append run_policy_append)
  moreover have "map call_of (ts[j := t]) = cs"
    using stage_call [OF live(1) move(4,5)] live(3) move(3) by (simp add: map_update) (metis list_update_id nth_map)
  then have "config_ok cs cfg'"
    using assms(2) piece move(1,2) by (auto simp: config_ok_def piece_ok_def list_all_iff dest: set_update_subset_insert [THEN subsetD])
  moreover have "work cfg' < work cfg"
    using rank_update [OF move(3) stage_rank [OF live(1) move(4,5)]] move(1,2) by (simp add: work_def)
  ultimately show ?thesis by blast
qed

text \<open>Orders only grow: what has taken effect stays before what takes effect later.\<close>

lemma csteps_tracked:
  assumes "(cstep g)\<^sup>*\<^sup>* cfg cfg'" and "config_ok cs cfg" and "tracked g abs st0 cfg L P E" and "fits cfg'"
  shows "config_ok cs cfg' \<and> (\<exists>L' P' E'. tracked g abs st0 cfg' (L @ L') (P @ P') (E @ E'))"
  using assms
proof (induction rule: rtranclp_induct)
  case base
  then show ?case by (intro conjI exI [of _ "[]"]) simp_all
next
  case (step cfg1 cfg2)
  from cstep_fits [OF step.hyps(2) step.prems(3)] step.IH step.prems
  obtain L' P' E' where "config_ok cs cfg1" "tracked g abs st0 cfg1 (L @ L') (P @ P') (E @ E')" by blast
  with cstep_tracked [OF step.hyps(2)] step.prems(3) have "config_ok cs cfg2"
    "\<exists>L2 P2 E2. tracked g abs st0 cfg2 ((L @ L') @ L2) ((P @ P') @ P2) ((E @ E') @ E2)" by blast+
  then show ?case unfolding append_assoc by blast
qed

lemma interleaving_done:
  assumes "(cstep g)\<^sup>*\<^sup>* (arrivals cs, st0) (mid, st1)" and "(cstep g)\<^sup>*\<^sup>* (mid, st1) (ts, st)"
    and "inv (gs_store st0)" and "list_all finished ts" and "fits (ts, st)"
  shows "\<exists>rs L1 L2 P E. ts = answered cs rs \<and> length rs = length cs \<and>
     mset L1 = mset (concat (map (commits g) mid)) \<and> mset (L1 @ L2) = mset (zip cs rs) \<and>
     legal g (abs (gs_store st0)) (L1 @ L2) \<and>
     abs (gs_store st) = fold (log_step g) (L1 @ L2) (abs (gs_store st0)) \<and>
     mset P = mset (policy_writes g cs) \<and> gs_baselines st = run_policy (mg_keyPolicy g) P (gs_baselines st0) \<and>
     mset E = mset (run_events g cs rs) \<and> gs_sink st = fold (emitSafe (mg_audit g)) E (gs_sink st0)"
proof -
  from csteps_tracked [OF assms(1) start_ok [OF assms(3)] start_tracked csteps_fit [OF assms(2,5)]]
  obtain L1 P1 E1 where mid: "config_ok cs (mid, st1)" "tracked g abs st0 (mid, st1) L1 P1 E1" by auto
  from csteps_tracked [OF assms(2) mid assms(5)]
  obtain L2 P2 E2 where ok: "config_ok cs (ts, st)" and tr: "tracked g abs st0 (ts, st) (L1 @ L2) (P1 @ P2) (E1 @ E2)"
    by auto
  then have calls: "map call_of ts = cs" by (simp add: config_ok_def)
  then have "length ts = length cs" by auto
  with finished_answered [OF assms(4)] calls obtain rs where rs: "length rs = length cs" "ts = answered cs rs"
    by auto
  from tr mid(2) rs(1) show ?thesis
    by (intro exI [of _ rs] exI [of _ L1] exI [of _ L2] exI [of _ "P1 @ P2"] exI [of _ "E1 @ E2"])
      (simp add: rs(2) tracked_def answered_done)
qed

end

context guard_seams
begin

lemma fits_any [simp]: "fits cfg"
  by (simp add: fits_def list_all_iff)

lemmas interleaving_done_any = interleaving_done [OF _ _ _ _ fits_any]
lemmas cstep_tracked_any = cstep_tracked [OF _ _ fits_any]

lemma csteps_bound:
  assumes "(cstep g ^^ n) cfg cfg'" and "config_ok cs cfg"
  shows "config_ok cs cfg' \<and> n + work cfg' \<le> work cfg"
  using assms
proof (induction n arbitrary: cfg')
  case (Suc n)
  then obtain cfg1 where "(cstep g ^^ n) cfg cfg1" "cstep g cfg1 cfg'" by auto
  with Suc.IH [of cfg1] Suc.prems(2) cstep_tracked_any [of cfg1 cfg' cs] show ?case by fastforce
qed simp

lemma csteps_complete:
  assumes "config_ok cs cfg"
  shows "\<exists>m ts st. (cstep g ^^ m) cfg (ts, st) \<and> m \<le> work cfg \<and> list_all finished ts \<and> config_ok cs (ts, st)"
  using assms
proof (induction "work cfg" arbitrary: cfg rule: less_induct)
  case less
  obtain ts st where cfg: "cfg = (ts, st)" by fastforce
  show ?case
  proof (cases "list_all finished ts")
    case True
    with less.prems show ?thesis by (intro exI [of _ 0]) (auto simp: cfg)
  next
    case False
    then obtain cfg1 where step: "cstep g cfg cfg1" using cstep_stuck cfg by blast
    with cstep_tracked_any [OF step less.prems] have "config_ok cs cfg1" "work cfg1 < work cfg" by blast+
    with less.hyps obtain m ts' st' where m: "(cstep g ^^ m) cfg1 (ts', st')" "m \<le> work cfg1" "list_all finished ts'"
      "config_ok cs (ts', st')" by blast
    from step m(1) have "(cstep g ^^ Suc m) cfg (ts', st')" by (meson relpowp_Suc_I2)
    with m(2-4) \<open>work cfg1 < work cfg\<close> show ?thesis by (intro exI [of _ "Suc m"]) auto
  qed
qed

end

section \<open>The sequential guard is one interleaving\<close>

lemma move_at:
  assumes "\<not> finished t" and "stage_step g t st = (t', st')"
  shows "cstep g (xs @ t # ys, st) (xs @ t' # ys, st')"
  using cstep.move [of "length xs" "xs @ t # ys" g st t' st'] assms by simp

lemma moves_at:
  assumes "(cstep g)\<^sup>*\<^sup>* cfg (xs @ t # ys, st)" and "\<not> finished t" and "stage_step g t st = (t', st')"
  shows "(cstep g)\<^sup>*\<^sup>* cfg (xs @ t' # ys, st')"
  using assms(1) move_at [OF assms(2,3)] by (rule rtranclp.rtrancl_into_rtrancl)

context guard_over
begin

lemma sequential_write:
  assumes "ValidateWrite g env c m key st = (r, st')"
  shows "(cstep g)\<^sup>*\<^sup>* (xs @ Arrived (CWrite env c m key) # ys, st) (xs @ Done (CWrite env c m key) (RWrite r) # ys, st')"
    (is "?run (Arrived ?call) st (Done ?call (RWrite r)) st'")
proof (cases rule: write_cases [where c = c and key = key and m = m and st = st and env = env])
  case injection
  have "?run (Arrived ?call) st (Refused ?call (detected c)) st"
    by (rule moves_at [OF rtranclp.rtrancl_refl]) (use injection in \<open>simp_all add: arrive_write detector_flags_of_def del: stage_step.simps\<close>)
  then show ?thesis
    by (rule moves_at) (use assms injection in \<open>auto simp: write_injection blocked_reply_def\<close>)
next
  case (rejected fs bs')
  have "?run (Arrived ?call) st (Screened ?call (detected c)) st"
    by (rule moves_at [OF rtranclp.rtrancl_refl]) (use rejected in \<open>simp_all add: arrive_write detector_flags_of_def del: stage_step.simps\<close>)
  then show ?thesis
    by (rule moves_at) (use assms rejected in \<open>auto simp: write_rejected blocked_reply_def\<close>)
next
  case (stored fs bs' behavioral i')
  let ?flags = "detected c @ fs @ behavioral"
  let ?st = "st\<lparr>gs_baselines := bs', gs_inspector := i',
    gs_store := ms_Put (mg_store g) (minted env) (entry_of_write g c m ?flags) (gs_store st)\<rparr>"
  have border: "contains ?flags ''borderline_suspected'' = borderline c"
    using routing(2) [OF stored] by simp
  have "?run (Arrived ?call) st (Screened ?call (detected c)) st"
    by (rule moves_at [OF rtranclp.rtrancl_refl]) (use stored in \<open>simp_all add: arrive_write detector_flags_of_def del: stage_step.simps\<close>)
  then have "?run (Arrived ?call) st (Keyed ?call (detected c @ fs)) (st\<lparr>gs_baselines := bs'\<rparr>)"
    by (rule moves_at) (use stored in simp_all)
  then have "?run (Arrived ?call) st (Inspected ?call ?flags) (st\<lparr>gs_baselines := bs', gs_inspector := i'\<rparr>)"
    by (rule moves_at) (use stored in simp_all)
  then have "?run (Arrived ?call) st (Stored ?call ?flags) ?st"
    by (rule moves_at) (use border in \<open>simp_all add: minted_def entry_of_write_def del: contains_iff\<close>)
  then show ?thesis
    by (rule moves_at) (use assms border in \<open>auto simp: write_stored_entry [OF stored] stored_reply_def simp del: contains_iff\<close>)
qed

lemma sequential_call:
  assumes "guard_step g call st = (r, st')"
  shows "(cstep g)\<^sup>*\<^sup>* (xs @ Arrived call # ys, st) (xs @ Done call r # ys, st')"
proof (cases call)
  case (CWrite env c m key)
  with assms sequential_write show ?thesis by (auto split: prod.splits)
next
  case (CRead q m)
  let ?es = "ms_ScanScoped (mg_store g) q (visible_keys m) (gs_store st)"
  have "(cstep g)\<^sup>*\<^sup>* (xs @ Arrived call # ys, st) (xs @ Scanned call ?es # ys, st)"
    by (rule moves_at [OF rtranclp.rtrancl_refl]) (simp_all add: CRead visible_keys_def)
  then show ?thesis
    by (rule moves_at)
      (use assms in \<open>auto simp: CRead redacted_reply_def ValidateRead_def Let_def case_prod_beta visible_keys_def\<close>)
next
  case (CReview i)
  have "(cstep g)\<^sup>*\<^sup>* (xs @ Arrived call # ys, st) (xs @ Fetched call (ms_Get (mg_store g) i (gs_store st)) # ys, st)"
    by (rule moves_at [OF rtranclp.rtrancl_refl]) (simp_all add: CReview)
  then show ?thesis
    by (rule moves_at)
      (use assms in \<open>auto simp: CReview fetched_reply_def ReviewQuarantine_def Let_def case_prod_beta split: option.split\<close>)
next
  case (CDeleteEntry env i)
  show ?thesis
    by (rule moves_at [OF rtranclp.rtrancl_refl]) (use assms in \<open>auto simp: CDeleteEntry split: prod.splits\<close>)
qed

lemma sequential_calls:
  assumes "guard_run g cs st = (rs, st')"
  shows "(cstep g)\<^sup>*\<^sup>* (xs @ arrivals cs, st) (xs @ answered cs rs, st')"
  using assms
proof (induction cs arbitrary: st rs xs)
  case (Cons c cs)
  obtain r st1 where step: "guard_step g c st = (r, st1)" by fastforce
  obtain rs1 where run: "guard_run g cs st1 = (rs1, st')" and rs: "rs = r # rs1"
    using Cons.prems step by (auto split: prod.splits)
  have "(cstep g)\<^sup>*\<^sup>* (xs @ arrivals (c # cs), st) ((xs @ [Done c r]) @ arrivals cs, st1)"
    using sequential_call [OF step, of xs "arrivals cs"] by (simp add: arrivals_def)
  from rtranclp_trans [OF this Cons.IH [OF run, of "xs @ [Done c r]"]] show ?case
    by (simp add: rs answered_def)
qed (simp add: arrivals_def answered_def)

end

section \<open>Properties\<close>

text \<open>C3: Concurrent calls behave as if each took effect at one instant. However the goroutines of a wired
  guard interleave, once all calls are answered there is an order of the calls, each with its reply,
  in which every reply is right for what is stored at its turn (a read redacts exactly the entries
  its reader may see, a review and a deletion report exactly the entry's presence, a deletion is
  always confirmed, a write is blocked, quarantined or allowed for its own text and key) and after
  which the store holds what the order says. The order never contradicts time: at any earlier
  moment, the calls settled by then are an initial part of it. The pins are those of some order of
  the keyed writes, and the sink has received every event of the replies exactly once.\<close>

theorem concurrent_calls_linearize:
  assumes "(cstep (wired_guard w))\<^sup>*\<^sup>* (arrivals cs, wired_state w k) (mid, st1)"
    and "(cstep (wired_guard w))\<^sup>*\<^sup>* (mid, st1) (ts, st)" and "list_all finished ts"
  shows "\<exists>rs L1 L2 P E. ts = answered cs rs \<and> length rs = length cs \<and>
     mset L1 = mset (concat (map (commits (wired_guard w)) mid)) \<and> mset (L1 @ L2) = mset (zip cs rs) \<and>
     legal (wired_guard w) Map.empty (L1 @ L2) \<and>
     stored_map (gs_store st) = fold (log_step (wired_guard w)) (L1 @ L2) Map.empty \<and>
     mset P = mset (policy_writes (wired_guard w) cs) \<and> gs_baselines st = run_policy (w_policy w) P (\<lambda>_. None) \<and>
     mset E = mset (run_events (wired_guard w) cs rs) \<and>
     gs_sink st = fold (emitSafe (mg_audit (wired_guard w))) E k"
  using wired.interleaving_done_any [OF assms(1,2) wired_state_fields(2) assms(3)]
  unfolding wired_state_fields wired_guard_fields(5) .

text \<open>The sample interleaving: a review looks its id up, a deletion of the id runs, the review answers.\<close>

definition sample_calls :: "guard_call list" where
  "sample_calls = [CReview ''a'', CDeleteEntry (sample_env ''AAAAAA'') ''a'']"

lemma sample_interleaving:
  "\<exists>r r' st. (cstep (wired_guard w))\<^sup>*\<^sup>* ([Fetched (CReview ''a'') None, Arrived (CDeleteEntry (sample_env ''AAAAAA'') ''a'')], wired_state w k)
     (answered sample_calls [r, r'], st) \<and>
   cstep (wired_guard w) (arrivals sample_calls, wired_state w k)
     ([Fetched (CReview ''a'') None, Arrived (CDeleteEntry (sample_env ''AAAAAA'') ''a'')], wired_state w k)"
proof -
  let ?g = "wired_guard w" and ?d = "CDeleteEntry (sample_env ''AAAAAA'') ''a''"
  obtain r st where v: "VerifyDelete ?g (sample_env ''AAAAAA'') ''a'' (wired_state w k) = (r, st)" by fastforce
  have "ms_Get (mg_store ?g) ''a'' (gs_store (wired_state w k)) = None"
    using wired.st.get_abs [OF wired_state_fields(2), where w = w and i = "''a''" and w1 = w and k1 = k] by simp
  then have first: "cstep ?g ([] @ Arrived (CReview ''a'') # [Arrived ?d], wired_state w k)
      ([] @ Fetched (CReview ''a'') None # [Arrived ?d], wired_state w k)"
    by (intro move_at) simp_all
  have second: "cstep ?g ([Fetched (CReview ''a'') None] @ Arrived ?d # [], wired_state w k)
      ([Fetched (CReview ''a'') None] @ Done ?d (RDelete r) # [], st)"
    by (rule move_at) (simp_all add: v)
  have third: "cstep ?g ([] @ Fetched (CReview ''a'') None # [Done ?d (RDelete r)], st)
      ([] @ Done (CReview ''a'') (fetched_reply (mg_det ?g) None) # [Done ?d (RDelete r)], st)"
    by (rule move_at) simp_all
  from first second third show ?thesis
    by (intro exI [of _ "fetched_reply (mg_det ?g) None"] exI [of _ "RDelete r"] exI [of _ st])
      (auto simp: arrivals_def answered_def sample_calls_def)
qed

theorem concurrent_calls_linearize_witness:
  "\<exists>rs st. (cstep (wired_guard plain_wiring))\<^sup>*\<^sup>* (arrivals sample_calls, wired_state plain_wiring ()) (answered sample_calls rs, st) \<and>
     (\<exists>L. mset L = mset (zip sample_calls rs) \<and> legal (wired_guard plain_wiring) Map.empty L)"
proof -
  from sample_interleaving [of plain_wiring "()"] obtain r r' st mid where
    run: "(cstep (wired_guard plain_wiring))\<^sup>*\<^sup>* (mid, wired_state plain_wiring ()) (answered sample_calls [r, r'], st)"
    "(cstep (wired_guard plain_wiring))\<^sup>*\<^sup>* (arrivals sample_calls, wired_state plain_wiring ()) (mid, wired_state plain_wiring ())"
    by blast
  have "list_all finished (answered sample_calls [r, r'])" by (simp add: answered_def sample_calls_def)
  from concurrent_calls_linearize [OF run(2,1) this]
  obtain rs L1 L2 where "answered sample_calls [r, r'] = answered sample_calls rs"
    "mset (L1 @ L2) = mset (zip sample_calls rs)" "legal (wired_guard plain_wiring) Map.empty (L1 @ L2)" by blast
  with rtranclp_trans [OF run(2,1)] show ?thesis by metis
qed

text \<open>Every call is answered, whatever the schedule. No run of n concurrent calls has more than 5n pieces;
  from wherever a run stands, a continuation within that bound answers all calls; and a run can
  only stop when all are answered: no call ever waits for another, no deadlock.\<close>

theorem concurrent_calls_terminate:
  assumes "(cstep (wired_guard w) ^^ n) (arrivals cs, wired_state w k) cfg"
  shows "n \<le> 5 * length cs \<and> ((\<nexists>cfg'. cstep (wired_guard w) cfg cfg') \<longleftrightarrow> list_all finished (fst cfg)) \<and>
     (\<exists>m rs st. (cstep (wired_guard w) ^^ m) cfg (answered cs rs, st) \<and> length rs = length cs \<and> n + m \<le> 5 * length cs)"
proof -
  from wired.csteps_bound [OF assms wired.start_ok [OF wired_state_fields(2)]]
  have ok: "wired.config_ok w cs cfg" and n: "n + work cfg \<le> 5 * length cs" by (simp_all add: work_arrivals)
  from wired.csteps_complete [OF ok] obtain m ts st where m: "(cstep (wired_guard w) ^^ m) cfg (ts, st)" "m \<le> work cfg"
    "list_all finished ts" "wired.config_ok w cs (ts, st)" by blast
  from m(4) have calls: "map call_of ts = cs" by (simp add: wired.config_ok_def)
  then have "length ts = length cs" by auto
  with finished_answered [OF m(3)] calls obtain rs where "length rs = length cs" "ts = answered cs rs" by auto
  with m(1,2) n cstep_stuck [of "wired_guard w" "fst cfg" "snd cfg"] show ?thesis
    by (intro conjI exI [of _ m] exI [of _ rs] exI [of _ st]) auto
qed

theorem concurrent_calls_terminate_witness:
  "\<exists>m rs st. (cstep (wired_guard plain_wiring) ^^ m)
       ([Fetched (CReview ''a'') None, Arrived (CDeleteEntry (sample_env ''AAAAAA'') ''a'')], wired_state plain_wiring ())
       (answered sample_calls rs, st) \<and> length rs = 2 \<and> 1 + m \<le> 10"
proof -
  from sample_interleaving [of plain_wiring "()"]
  have "(cstep (wired_guard plain_wiring) ^^ 1) (arrivals sample_calls, wired_state plain_wiring ())
      ([Fetched (CReview ''a'') None, Arrived (CDeleteEntry (sample_env ''AAAAAA'') ''a'')], wired_state plain_wiring ())"
    by auto
  moreover have two: "length sample_calls = 2" by (simp add: sample_calls_def)
  ultimately show ?thesis using concurrent_calls_terminate [where n = 1 and cs = sample_calls] unfolding two by fastforce
qed

text \<open>The sequential guard is one of the interleavings, so the pieces agree with the whole operations: calls that run one after the other, as in a
  session, give the same replies and leave the same state as the pieces of the calls in turn.\<close>

theorem session_is_interleaving:
  "(cstep (wired_guard w))\<^sup>*\<^sup>* (arrivals cs, wired_state w k) (answered cs (replies w cs k), final w cs k)"
  using wired.sequential_calls [of w cs "wired_state w k" "replies w cs k" "final w cs k" "[]"]
  by (simp add: replies_def final_def session_def)

end
