(* ===== verification/Durable.thy ===== *)
theory Durable
  imports Concurrent
begin

text \<open>
  A guard over the file-backed store (MEMGUARD\_STORE=file): what its calls do while the process lives,
  when a call ends the process, and what a guard that a later process builds over the same file
  answers.

  The guard is the one of theory Wiring with \<open>file_ops\<close> as its backing. A verb that cannot load the
  snapshot panics; \<open>durable_step\<close> is a guard call with that panic as \<open>None\<close>. An error of a system
  call while saving panics in the middle of \<open>save_calls\<close>; theory Service treats it with the other ways
  in which a process dies.
\<close>

section \<open>The guard\<close>

definition durable :: "'k wiring \<Rightarrow> nat \<Rightarrow> file_state \<Rightarrow> 'k \<Rightarrow>
    (in_memory_store + file_state, inspector, 'k) memory_guard \<times>
    (in_memory_store + file_state, inspector, 'k) guard_state" where
  "durable w created fs k = assemble w (file_ops created) [Some fs] k"

definition durable_guard :: "'k wiring \<Rightarrow> nat \<Rightarrow> (in_memory_store + file_state, inspector, 'k) memory_guard" where
  "durable_guard w created = fst (durable w created fresh_path undefined)"

definition durable_state ::
  "'k wiring \<Rightarrow> nat \<Rightarrow> file_state \<Rightarrow> 'k \<Rightarrow> (in_memory_store + file_state, inspector, 'k) guard_state" where
  "durable_state w created fs k = snd (durable w created fs k)"

text \<open>What the constructor does at the start of a process: a file that does not parse stops it.\<close>

definition open_guard ::
  "'k wiring \<Rightarrow> nat \<Rightarrow> file_state \<Rightarrow> 'k \<Rightarrow>
     store_error + (in_memory_store + file_state, inspector, 'k) memory_guard \<times>
                   (in_memory_store + file_state, inspector, 'k) guard_state" where
  "open_guard w created fs k =
     (case NewFileStore fs of Some err \<Rightarrow> Inl err | None \<Rightarrow> Inr (durable w created fs k))"

definition held_map :: "in_memory_store + file_state \<Rightarrow> (string \<rightharpoonup> entry)" where
  "held_map = case_sum map_of file_abs"

definition held_inv :: "in_memory_store + file_state \<Rightarrow> bool" where
  "held_inv = case_sum wf_map file_inv"

definition held_readable :: "in_memory_store + file_state \<Rightarrow> bool" where
  "held_readable = case_sum (\<lambda>_. True) file_readable"

section \<open>Calls that panic\<close>

text \<open>Whether a call reaches a verb that cannot load: a blocked write touches no store, an accepted one
  puts; a read scans; a review gets; a deletion gets and deletes, and gets and lists again what the
  delete left.\<close>

fun call_panics ::
  "(in_memory_store + file_state, inspector, 'k) memory_guard \<Rightarrow> guard_call \<Rightarrow>
   (in_memory_store + file_state, inspector, 'k) guard_state \<Rightarrow> bool" where
  "call_panics g (CWrite env c m key) st \<longleftrightarrow>
     write_accepted g c m key (gs_baselines st) \<and> \<not> held_readable (gs_store st)"
| "call_panics g (CRead query m) st \<longleftrightarrow> \<not> held_readable (gs_store st)"
| "call_panics g (CReview i) st \<longleftrightarrow> \<not> held_readable (gs_store st)"
| "call_panics g (CDeleteEntry env i) st \<longleftrightarrow>
     \<not> held_readable (gs_store st) \<or> \<not> held_readable (ms_Delete (mg_store g) i (gs_store st))"

definition durable_step ::
  "(in_memory_store + file_state, inspector, 'k) memory_guard \<Rightarrow> guard_call \<Rightarrow>
   (in_memory_store + file_state, inspector, 'k) guard_state \<Rightarrow>
   (guard_reply \<times> (in_memory_store + file_state, inspector, 'k) guard_state) option" where
  "durable_step g c st = (if call_panics g c st then None else Some (guard_step g c st))"

fun durable_run ::
  "(in_memory_store + file_state, inspector, 'k) memory_guard \<Rightarrow> guard_call list \<Rightarrow>
   (in_memory_store + file_state, inspector, 'k) guard_state \<Rightarrow>
   (guard_reply list \<times> (in_memory_store + file_state, inspector, 'k) guard_state) option" where
  "durable_run g [] st = Some ([], st)"
| "durable_run g (c # cs) st =
     (case durable_step g c st of
        None \<Rightarrow> None
      | Some (r, st1) \<Rightarrow> map_option (\<lambda>(rs, st2). (r # rs, st2)) (durable_run g cs st1))"

section \<open>The contract\<close>

lemma durable_guard_fields [simp]:
  "mg_det (durable_guard w created) = det_of (w_detector w)"
  "mg_store (durable_guard w created) = either_ops (in_memory_ops (w_order w)) (file_ops created)"
  "mg_audit (durable_guard w created) = (if isActive (w_audit w) then ac_Sink (w_audit w) else None)"
  "mg_inspector (durable_guard w created) = map_option (\<lambda>_. wi_Inspect (w_lower w)) (w_inspector w)"
  "mg_keyPolicy (durable_guard w created) = w_policy w"
  by (simp_all add: durable_guard_def durable_def assemble_fields)

lemma durable_state_fields [simp]:
  "gs_store (durable_state w created fs k) = Inr fs"
  "gs_sink (durable_state w created fs k) = k" "gs_baselines (durable_state w created fs k) = (\<lambda>_. None)"
  by (simp_all add: durable_state_def durable_def assemble_fields) (simp add: assemble_def NewMemoryGuard_def Let_def)

lemma durable_guard_fst: "fst (durable w created fs k) = durable_guard w created"
  unfolding durable_guard_def durable_def by (simp add: assemble_def NewMemoryGuard_def WithWriteInspector_def
      WithKeyPolicy_def WithAudit_def Let_def)

interpretation durable: guard_over "durable_guard w created" held_map held_inv storable for w created
  unfolding durable_guard_def durable_def held_map_def held_inv_def
  by (rule assemble_over [OF disk.bounded_store_axioms])

lemma held_inv_readable: "held_inv s \<Longrightarrow> held_readable s"
  by (cases s) (simp_all add: held_inv_def held_readable_def file_inv_readable)

text \<open>A consistent store answers every call, and stays consistent while it can hold what is written.\<close>

lemma durable_step_total:
  assumes "held_inv (gs_store st)"
  shows "durable_step (durable_guard w created) c st = Some (guard_step (durable_guard w created) c st)"
  using held_inv_readable [OF assms] held_inv_readable [OF durable.st.delete_inv [OF assms]]
  by (cases c) (simp_all add: durable_step_def)

lemma durable_run_total:
  assumes "guard_run (durable_guard w created) cs st = (rs, st')" and "held_inv (gs_store st)"
    and "run_ok (durable_guard w created) storable cs rs"
  shows "durable_run (durable_guard w created) cs st = Some (rs, st')"
  using assms
proof (induction cs arbitrary: st rs)
  case (Cons c cs)
  obtain r st1 where step: "guard_step (durable_guard w created) c st = (r, st1)" by fastforce
  obtain rs1 where run: "guard_run (durable_guard w created) cs st1 = (rs1, st')" and rs: "rs = r # rs1"
    using Cons.prems(1) step by (auto split: prod.splits)
  from Cons.prems(3) have ok: "reply_ok (durable_guard w created) storable (c, r)"
    "run_ok (durable_guard w created) storable cs rs1" by (simp_all add: rs)
  from Cons.IH [OF run durable.step_log(1) [OF step Cons.prems(2) ok(1)] ok(2)]
  show ?case by (simp add: durable_step_total [OF Cons.prems(2)] step rs)
qed simp

text \<open>Calls keep the kind of backing.\<close>

lemma guard_step_inr:
  assumes "guard_step (durable_guard w created) c st = (r, st')" and "gs_store st = Inr fs"
  shows "\<exists>fs'. gs_store st' = Inr fs'"
proof (cases c)
  case (CWrite env t m key)
  then obtain wr where "ValidateWrite (durable_guard w created) env t m key st = (wr, st')"
    using assms(1) by (auto split: prod.splits)
  from durable.write_store [OF this] assms(2) show ?thesis by (simp add: either_ops_def)
next
  case (CDeleteEntry env i)
  with assms show ?thesis by (auto simp: VerifyDelete_def Let_def case_prod_beta either_ops_def)
qed (use assms in auto)

lemma guard_run_inr:
  "guard_run (durable_guard w created) cs st = (rs, st') \<Longrightarrow> gs_store st = Inr fs \<Longrightarrow> \<exists>fs'. gs_store st' = Inr fs'"
proof (induction cs arbitrary: st rs fs)
  case (Cons c cs)
  obtain r st1 where step: "guard_step (durable_guard w created) c st = (r, st1)" by fastforce
  obtain rs1 where run: "guard_run (durable_guard w created) cs st1 = (rs1, st')"
    using Cons.prems(1) step by (auto split: prod.splits)
  from guard_step_inr [OF step Cons.prems(2)] Cons.IH [OF run] show ?case by blast
qed simp

text \<open>A session over a file that ends with the file consistent: what the file then holds.\<close>

lemma durable_session:
  assumes "guard_run (durable_guard w created) cs (durable_state w created fs k) = (rs, st)"
    and "file_inv fs" and "run_ok (durable_guard w created) storable cs rs"
  obtains fs' where "durable_run (durable_guard w created) cs (durable_state w created fs k) = Some (rs, st)"
    and "gs_store st = Inr fs'" and "file_inv fs'"
    and "file_abs fs' = log_of (durable_guard w created) cs rs (file_abs fs)"
proof -
  have inv: "held_inv (gs_store (durable_state w created fs k))" using assms(2) by (simp add: held_inv_def)
  obtain fs' where fs': "gs_store st = Inr fs'" using guard_run_inr [OF assms(1)] by auto
  from durable.run_log [OF assms(1) inv assms(3)] have "file_inv fs'"
    "file_abs fs' = log_of (durable_guard w created) cs rs (file_abs fs)"
    by (simp_all add: fs' held_inv_def held_map_def)
  with durable_run_total [OF assms(1) inv assms(3)] fs' show thesis by (rule that)
qed

lemma file_inv_opens: "file_inv fs \<Longrightarrow> NewFileStore fs = None"
  by (auto simp: file_inv_def load_def NewFileStore_def split: sum.splits)

lemma fresh_path_inv: "file_inv fresh_path" "file_abs fresh_path = Map.empty"
  by (simp_all add: file_inv_def file_abs_def fresh_path_load rec_map_def wf_map_def)

text \<open>A guard that answers reviews and reads for the entries \<open>es\<close>.\<close>

definition serves_entries ::
  "('s, 'i, 'k) memory_guard \<Rightarrow> (string \<rightharpoonup> entry) \<Rightarrow> ('s, 'i, 'k) guard_state \<Rightarrow> bool" where
  "serves_entries g es st \<longleftrightarrow>
     (\<forall>i. ReviewQuarantine g i st = review_of (mg_det g) es i) \<and>
     (\<forall>q m. \<exists>hits. mset hits = image_mset e_content (filter_mset (readable m q) (stored es)) \<and>
        (rr_content_redacted (ValidateRead g q m st), rr_flags (ValidateRead g q m st)) =
        det_RedactPII (mg_det g) (join ''\<newline>'' hits))"

text \<open>The guard of a later process serves what the file holds.\<close>

lemma reopened:
  assumes "file_inv fs"
  shows "\<exists>st. open_guard w created fs k = Inr (durable_guard w created, st) \<and>
     serves_entries (durable_guard w created) (file_abs fs) st"
proof -
  let ?st = "durable_state w created fs k"
  have inv: "held_inv (gs_store ?st)" and abs: "held_map (Inr fs) = file_abs fs"
    using assms by (simp_all add: held_inv_def held_map_def)
  have "open_guard w created fs k = Inr (durable_guard w created, ?st)"
    using file_inv_opens [OF assms] durable_guard_fst [of w created fs k]
    by (simp add: open_guard_def durable_state_def prod_eq_iff)
  moreover have "\<exists>hits. mset hits = image_mset e_content (filter_mset (readable m q) (stored (file_abs fs))) \<and>
      (rr_content_redacted (ValidateRead (durable_guard w created) q m ?st),
       rr_flags (ValidateRead (durable_guard w created) q m ?st)) =
      det_RedactPII (mg_det (durable_guard w created)) (join ''\<newline>'' hits)" for q m
    by (rule durable.read_answer [OF inv, where w = w and created = created and m = m and query = q])
      (auto simp: abs)
  moreover have "ReviewQuarantine (durable_guard w created) i ?st = review_of (mg_det (durable_guard w created)) (file_abs fs) i" for i
    using durable.review_answer [OF inv, where w = w and created = created and i = i]
    by (simp add: review_of_def abs split: option.split)
  ultimately show ?thesis unfolding serves_entries_def by blast
qed

text \<open>A bare session of one write, for the examples.\<close>

lemma durable_bare_write:
  assumes "det_DetectInjection (det_of (w_detector w)) c = []"
    and "det_RedactPII (det_of (w_detector w)) c = (c, [])" and "w_inspector w = None"
  defines "flags \<equiv> det_DetectBorderline (det_of (w_detector w)) c"
  shows "ValidateWrite (durable_guard w created) env c m [] st =
     (\<lparr>wr_allow = True, wr_stored_id = Some (minted env),
       wr_state = (if flags = [] then ''allow'' else ''quarantine''), wr_flags = flags\<rparr>,
      st\<lparr>gs_store := ms_Put (mg_store (durable_guard w created)) (minted env)
           (entry_of_write (durable_guard w created) c m flags) (gs_store st)\<rparr>)"
proof -
  have "\<not> det_DetectInjection (mg_det (durable_guard w created)) c \<noteq> []"
    "det_RedactPII (mg_det (durable_guard w created)) c = (c, [])" using assms(1,2) by simp_all
  from durable.write_bare [OF this(1) _ this(2)] assms(3) show ?thesis by (simp add: flags_def)
qed

section \<open>Properties\<close>

text \<open>C9: Stored memory outlives the process. A session over a fresh path whose accepted entries the file
  can hold never panics. Whatever guard a later process builds over the file, the constructor
  accepts it; a review finds exactly the quarantined entries of the old session's log, and a read
  redacts exactly the log's entries that its reader may see: identity scoping and quarantine
  survive the restart.\<close>

theorem restart_keeps_entries:
  fixes w :: "'k wiring" and w' :: "'j wiring"
  assumes run: "guard_run (durable_guard w created) cs (durable_state w created fresh_path k) = (rs, st)"
    and ok: "run_ok (durable_guard w created) storable cs rs"
  defines "es \<equiv> log_of (durable_guard w created) cs rs Map.empty"
  shows "\<exists>fs st'. durable_run (durable_guard w created) cs (durable_state w created fresh_path k) = Some (rs, st) \<and>
     gs_store st = Inr fs \<and> open_guard w' created' fs k' = Inr (durable_guard w' created', st') \<and>
     (\<forall>i. ReviewQuarantine (durable_guard w' created') i st' =
        review_of (det_of (w_detector w')) es i) \<and>
     (\<forall>q m. \<exists>hits. mset hits = image_mset e_content (filter_mset (readable m q) (stored es)) \<and>
        (rr_content_redacted (ValidateRead (durable_guard w' created') q m st'),
         rr_flags (ValidateRead (durable_guard w' created') q m st')) =
        det_RedactPII (det_of (w_detector w')) (join ''\<newline>'' hits))"
proof -
  from durable_session [OF run fresh_path_inv(1) ok] obtain fs where
    live: "durable_run (durable_guard w created) cs (durable_state w created fresh_path k) = Some (rs, st)"
    and fs: "gs_store st = Inr fs" "file_inv fs" "file_abs fs = es"
    unfolding es_def fresh_path_inv(2) by blast
  from reopened [OF fs(2), of w' created' k'] live fs(1,3) show ?thesis
    unfolding serves_entries_def durable_guard_fields by metis
qed

text \<open>The sample session: a borderline write by an attested writer, which is quarantined.\<close>

definition sample_call :: guard_call where
  "sample_call = CWrite (sample_env ''AAAAAA'') borderline_text (attested_as ''spiffe://t/a'') []"

definition sample_entry :: entry where
  "sample_entry = \<lparr>e_content = borderline_text, e_boundIdentity = ''spiffe://t/a'', e_sourceClass = ''unknown'',
     e_flags = [''borderline_suspected''], e_quarantined = True\<rparr>"

lemma sample_entry_storable: "storable ''mem-414141414141'' sample_entry"
proof -
  have "valid_utf8 ''mem-414141414141''" "valid_utf8 borderline_text" "valid_utf8 ''spiffe://t/a''"
    "valid_utf8 ''unknown''" "valid_utf8 ''borderline_suspected''" by (rule valid_utf8_ascii, code_simp)+
  moreover have "length (json_encode (record_json (recordFrom ''mem-414141414141'' sample_entry))) < 300" by code_simp
  ultimately show ?thesis
    by (simp add: storable_def record_ok_def record_utf8_def maxLine_def) (simp add: recordFrom_def sample_entry_def)
qed

lemma sample_minted: "minted (sample_env ''AAAAAA'') = ''mem-414141414141''"
  by code_simp

lemma sample_stored:
  "entry_of_write (durable_guard plain_wiring created) borderline_text (attested_as ''spiffe://t/a'') [''borderline_suspected'']
     = sample_entry"
proof -
  have "boundKeyFor (Some (principalFromMap (attested_as ''spiffe://t/a''))) = ''spiffe://t/a''"
    "sourceClassFromMap (attested_as ''spiffe://t/a'') = ''unknown''" by code_simp+
  then show ?thesis by (simp add: entry_of_write_def sample_entry_def borderline_text_facts)
qed

theorem restart_keeps_entries_witness:
  "\<exists>fs st'. open_guard keyed_wiring 384 fs () = Inr (durable_guard keyed_wiring 384, st') \<and>
     ReviewQuarantine (durable_guard keyed_wiring 384) ''mem-414141414141'' st' =
       \<lparr>qr_found = True, qr_content_redacted = borderline_text, qr_flags = [''borderline_suspected'']\<rparr>"
proof -
  let ?r = "\<lparr>wr_allow = True, wr_stored_id = Some ''mem-414141414141'', wr_state = ''quarantine'',
    wr_flags = [''borderline_suspected'']\<rparr>"
  have "w_inspector plain_wiring = None" by (simp add: plain_wiring_def)
  from durable_bare_write [OF borderline_text_facts(1,2) this, of 384 "sample_env ''AAAAAA''"]
  obtain st where run: "guard_run (durable_guard plain_wiring 384) [sample_call]
      (durable_state plain_wiring 384 fresh_path ()) = ([RWrite ?r], st)"
    by (simp add: sample_call_def borderline_text_facts(3) sample_minted)
  have ok: "run_ok (durable_guard plain_wiring 384) storable [sample_call] [RWrite ?r]"
    by (simp add: run_ok_def sample_call_def sample_stored sample_entry_storable)
  have es: "log_of (durable_guard plain_wiring 384) [sample_call] [RWrite ?r] Map.empty ''mem-414141414141'' =
      Some sample_entry" by (simp add: sample_call_def sample_stored)
  have q: "e_quarantined sample_entry" "e_content sample_entry = borderline_text"
    "e_flags sample_entry = [''borderline_suspected'']" by (simp_all add: sample_entry_def)
  from restart_keeps_entries [OF run ok, where w' = keyed_wiring and created' = 384 and k' = "()"]
  obtain fs st' where "open_guard keyed_wiring 384 fs () = Inr (durable_guard keyed_wiring 384, st')"
    and "\<forall>i. ReviewQuarantine (durable_guard keyed_wiring 384) i st' =
        review_of (det_of (w_detector keyed_wiring)) (log_of (durable_guard plain_wiring 384) [sample_call] [RWrite ?r] Map.empty) i" by blast
  then show ?thesis
    by (intro exI [of _ fs] exI [of _ st'])
      (simp add: review_of_def es q borderline_text_facts(2) del: fun_upd_apply log_of_Cons)
qed

text \<open>Pins do not outlive the process. A reserved key pinned to one value refuses every other value, even
  from an attested writer, while the process lives; the guard of the next process, over the same
  file, has no pin and takes the other value.\<close>

theorem restart_forgets_pins:
  assumes "isReservedSystemKey (firstKey key)" and "Attested (principalFromMap m)"
    and "det_DetectInjection (det_of (w_detector w)) c = []"
    and "gs_baselines st (firstKey key) = Some pin"
    and "pin \<noteq> immutableBaselineHash (fst (det_RedactPII (det_of (w_detector w)) c))"
    and "open_guard w created' fs k' = Inr (g', st')"
  shows "wr_state (fst (ValidateWrite (durable_guard w created) env c m key st)) = ''block'' \<and>
         wr_allow (fst (ValidateWrite g' env c m key st'))"
proof -
  have "durable w created' fs k' = (g', st')" using assms(6) by (simp add: open_guard_def split: option.splits)
  then have "g' = fst (durable w created' fs k')" "st' = snd (durable w created' fs k')" by simp_all
  then have g': "g' = durable_guard w created'" "gs_baselines st' = (\<lambda>_. None)"
    by (simp_all only: durable_guard_fst) (simp add: durable_def assemble_fields)
  obtain r s where old: "ValidateWrite (durable_guard w created) env c m key st = (r, s)" by fastforce
  obtain r' s' where new: "ValidateWrite g' env c m key st' = (r', s')" by fastforce
  have key: "firstKey key \<noteq> []"
    using assms(1) by (auto simp: isReservedSystemKey_def reservedKeyPrefix_def has_prefix_def)
  have "\<not> write_accepted (durable_guard w created) c m key (gs_baselines st)"
    using assms(1,2,4,5) key by (simp add: write_accepted_def key_stage_def evaluateKeyPolicy_def Let_def)
  moreover have "write_accepted g' c m key (gs_baselines st')"
    using assms(1-3) key by (simp add: g' write_accepted_def key_stage_def evaluateKeyPolicy_def Let_def)
  ultimately show ?thesis
    using durable.write_response_shape [OF old] durable.write_response_shape [OF new [unfolded g']]
    by (simp add: old new [unfolded g'] g' write_state_def)
qed

theorem restart_forgets_pins_witness:
  "wr_state (fst (ValidateWrite (durable_guard plain_wiring 384) (sample_env ''AAAAAA'') borderline_text
       (attested_as ''a'') [''memguard:x'']
       ((durable_state plain_wiring 384 fresh_path ())\<lparr>gs_baselines := [''memguard:x'' \<mapsto> ''00'']\<rparr>)))
     = ''block''"
proof -
  have "isReservedSystemKey (firstKey [''memguard:x''])" "Attested (principalFromMap (attested_as ''a''))" by code_simp+
  moreover have "''00'' \<noteq> immutableBaselineHash c" for c
    by (rule notI, drule arg_cong [where f = List.length]) (simp only: immutableBaselineHash_length, simp)
  moreover have "open_guard plain_wiring 384 fresh_path () =
      Inr (durable_guard plain_wiring 384, durable_state plain_wiring 384 fresh_path ())"
    using file_inv_opens [OF fresh_path_inv(1)] durable_guard_fst [of plain_wiring 384 fresh_path "()"]
    by (simp add: open_guard_def durable_state_def prod_eq_iff)
  ultimately show ?thesis
    unfolding borderline_text_facts(2) fst_conv
    using restart_forgets_pins [OF _ _ borderline_text_facts(1), where pin = "''00''"
        and key = "[''memguard:x'']" and m = "attested_as ''a''"
        and st = "(durable_state plain_wiring 384 fresh_path ())\<lparr>gs_baselines := [''memguard:x'' \<mapsto> ''00'']\<rparr>"]
    by (simp add: firstKey_def)
qed

text \<open>C21: One accepted write can end the service for good. When the encoding of the entry it stores
  reaches the line limit, the write itself reports success, and from then on every read, review and
  deletion, of any id and by anyone, ends the process, every write that passes the gates too, and
  no later process can open the file again.\<close>

theorem oversized_write_ends_service:
  assumes "ValidateWrite (durable_guard w created) env c m key st = (r, st1)" and "wr_allow r"
    and "gs_store st = Inr fs" and "file_inv fs"
    and "record_utf8 (recordFrom (minted env) (entry_of_write (durable_guard w created) c m (wr_flags r)))"
    and "maxLine \<le> length (json_encode (record_json
           (recordFrom (minted env) (entry_of_write (durable_guard w created) c m (wr_flags r)))))"
  shows "durable_step (durable_guard w created) (CWrite env c m key) st = Some (RWrite r, st1) \<and>
     (\<forall>q m'. durable_step (durable_guard w created) (CRead q m') st1 = None) \<and>
     (\<forall>i. durable_step (durable_guard w created) (CReview i) st1 = None) \<and>
     (\<forall>env' i. durable_step (durable_guard w created) (CDeleteEntry env' i) st1 = None) \<and>
     (\<forall>env' c' m' key'. durable_step (durable_guard w created) (CWrite env' c' m' key') st1 = None \<longleftrightarrow>
        write_accepted (durable_guard w created) c' m' key' (gs_baselines st1)) \<and>
     (\<exists>fs1. gs_store st1 = Inr fs1 \<and> open_guard w' created' fs1 k' = Inl LineTooLong)"
proof -
  from oversized_put_unloadable [OF assms(4-6), of created] obtain fs1
    where fs1: "fst_Put created (minted env) (entry_of_write (durable_guard w created) c m (wr_flags r)) fs = Some fs1"
      "NewFileStore fs1 = Some LineTooLong" "load fs1 = None" by blast
  have store: "gs_store st1 = Inr fs1"
    using durable.write_store [OF assms(1)] assms(2,3) fs1(1) by (simp add: either_ops_def file_ops_def)
  then have dead: "\<not> held_readable (gs_store st1)"
    by (simp add: held_readable_def file_readable_def fs1(3))
  have "held_readable (gs_store st)"
    using assms(3,4) by (simp add: held_readable_def file_inv_readable)
  then have "durable_step (durable_guard w created) (CWrite env c m key) st = Some (RWrite r, st1)"
    using assms(1) by (simp add: durable_step_def)
  then show ?thesis
    using dead store fs1(2) by (simp add: durable_step_def open_guard_def)
qed

text \<open>A guard whose detector has no patterns, and three million less-than signs.\<close>

definition bare_wiring :: "unit wiring" where
  "bare_wiring = plain_wiring\<lparr>w_detector := RegexValue \<lparr>rd_pii = [], rd_injection = [], rd_borderline = []\<rparr>\<rparr>"

definition less_thans :: string where
  "less_thans = replicate 3000000 CHR ''<''"

lemma bare_detector:
  "det_DetectInjection (det_of (w_detector bare_wiring)) c = []"
  "det_RedactPII (det_of (w_detector bare_wiring)) c = (c, [])"
  "det_DetectBorderline (det_of (w_detector bare_wiring)) c = []"
  by (simp_all add: bare_wiring_def regex_detector_def DetectInjection_def RedactPII_def DetectBorderline_def
      matchesInjection_def list_ex_iff)

theorem oversized_write_ends_service_witness:
  "\<exists>r st. guard_step (durable_guard bare_wiring 384) (CWrite (sample_env ''AAAAAA'') less_thans Map.empty [])
       (durable_state bare_wiring 384 fresh_path ()) = (RWrite r, st) \<and> wr_state r = ''allow'' \<and>
     durable_step (durable_guard bare_wiring 384) (CDeleteEntry (sample_env ''AAAAAA'') ''mem-414141414141'') st = None \<and>
     (\<exists>fs. gs_store st = Inr fs \<and> open_guard bare_wiring 384 fs () = Inl LineTooLong)"
proof -
  let ?g = "durable_guard bare_wiring 384" and ?e = "entry_of_write (durable_guard bare_wiring 384) less_thans Map.empty []"
  have "w_inspector bare_wiring = None" by (simp add: bare_wiring_def plain_wiring_def)
  note w = durable_bare_write [OF bare_detector(1,2) this, unfolded bare_detector(3), where env = "sample_env ''AAAAAA''"
      and c = less_thans and m = Map.empty and created = 384 and st = "durable_state bare_wiring 384 fresh_path ()"]
  let ?st = "snd (ValidateWrite ?g (sample_env ''AAAAAA'') less_thans Map.empty [] (durable_state bare_wiring 384 fresh_path ()))"
  let ?r = "fst (ValidateWrite ?g (sample_env ''AAAAAA'') less_thans Map.empty [] (durable_state bare_wiring 384 fresh_path ()))"
  have r: "wr_allow ?r" "wr_flags ?r = []" "wr_state ?r = ''allow''" by (simp_all add: w)
  have e: "e_content ?e = replicate 3000000 CHR ''<''" "e_flags ?e = []"
    "e_boundIdentity ?e = boundKeyFor (Some (principalFromMap Map.empty))" "e_sourceClass ?e = sourceClassFromMap Map.empty"
    by (simp_all only: entry_of_write_def durable_guard_fields bare_detector less_thans_def entry.simps fst_conv)
  have "valid_utf8 (minted (sample_env ''AAAAAA''))" "valid_utf8 (boundKeyFor (Some (principalFromMap Map.empty)))"
    "valid_utf8 (sourceClassFromMap Map.empty)" by (rule valid_utf8_ascii, code_simp)+
  from less_than_entry [OF this [folded e(3,4)] _ e(1)]
  have big: "record_utf8 (recordFrom (minted (sample_env ''AAAAAA'')) ?e)"
    "maxLine \<le> length (json_encode (record_json (recordFrom (minted (sample_env ''AAAAAA'')) ?e)))"
    by (simp_all add: e(2) maxLine_def)
  show ?thesis
    using oversized_write_ends_service [OF prod.collapse [symmetric] r(1) durable_state_fields(1) fresh_path_inv(1),
        unfolded r(2), OF big, where w' = bare_wiring and created' = 384 and k' = "()"] r(3)
    by (intro exI [of _ ?r] exI [of _ ?st]) (simp add: case_prod_beta)
qed

end
