(* ===== verification/Service.thy ===== *)
theory Service
  imports Durable
begin

text \<open>
  The service over a file: concurrent calls, the death of the process at any moment, and what the
  next process finds. A process dies between two pieces of its calls (killed, or by the panic of a
  verb that cannot load the file), or while a piece saves: then the file is at some crash point of
  the save, as after a failing system call, which panics, or a kill in the middle of one.
\<close>

section \<open>Dying\<close>

text \<open>What the disk may hold when the process dies in a configuration. The pieces that save are the store of
  a write and a deletion of an id that is there.\<close>

inductive dies ::
  "(in_memory_store + file_state, inspector, 'k) memory_guard \<Rightarrow> nat \<Rightarrow>
   (in_memory_store + file_state, inspector, 'k) config \<Rightarrow> file_state \<Rightarrow> bool" for g created where
  between_pieces: "gs_store st = Inr fs \<Longrightarrow> dies g created (ts, st) fs"
| storing: "Inspected (CWrite env c m key) flags \<in> set ts \<Longrightarrow> gs_store st = Inr fs \<Longrightarrow> load fs = Some rs \<Longrightarrow>
     dies g created (ts, st)
       (crashed_save created (put_record (recordFrom (minted env) (entry_of_write g c m flags)) rs) n written fs)"
| deleting: "Arrived (CDeleteEntry env i) \<in> set ts \<Longrightarrow> gs_store st = Inr fs \<Longrightarrow> load fs = Some rs \<Longrightarrow>
     list_ex (\<lambda>r. fr_ID r = i) rs \<Longrightarrow>
     dies g created (ts, st) (crashed_save created (filter (\<lambda>r. fr_ID r \<noteq> i) rs) n written fs)"

inductive_cases diesE: "dies g created (ts, st) fs"

text \<open>A save that is cut off leaves the old records or the new ones.\<close>

lemma crashed_load:
  "load (crashed_save created rs n written fs) \<in> {load fs, load (save created rs fs)}"
proof -
  consider "n = 0" | "n = 1" | "n = 2" | "n = 3" | "n = 4" | "n = 5" | "6 \<le> n" by linarith
  then show ?thesis
    by cases (auto simp: crashed_save_def save_def save_calls_def take_Cons' load_def open_canonical_def split: option.split)
qed

lemma same_load: "load fs = load fs' \<Longrightarrow> file_inv fs = file_inv fs' \<and> file_abs fs = file_abs fs'"
  by (simp add: file_inv_def file_abs_def)

text \<open>So the file a dying process leaves reads like the one before the interrupted piece or like the one
  after it.\<close>

lemma dies_load:
  assumes "dies (durable_guard w created) created (ts, st) fs'"
    and "list_all (stage_ok (durable_guard w created)) ts"
  obtains (before) fs where "gs_store st = Inr fs" and "load fs' = load fs"
  | (after) ts1 st1 fs1 where "cstep (durable_guard w created) (ts, st) (ts1, st1)" and "gs_store st1 = Inr fs1"
      and "load fs' = load fs1"
  using assms(1)
proof cases
  case between_pieces
  then show thesis by (intro before) simp_all
next
  case (storing env c m key flags fs rs n written)
  let ?g = "durable_guard w created" and ?rs = "put_record (recordFrom (minted env) (entry_of_write (durable_guard w created) c m flags)) rs"
  obtain xs ys where ts: "ts = xs @ Inspected (CWrite env c m key) flags # ys"
    using storing(2) by (meson split_list)
  have "screened_ok ?g c flags" using assms(2) by (simp add: ts)
  then have e: "entry_of_write ?g c m flags = \<lparr>e_content = fst (det_RedactPII (mg_det ?g) c),
      e_boundIdentity = boundKeyFor (Some (principalFromMap m)), e_sourceClass = sourceClassFromMap m, e_flags = flags,
      e_quarantined = contains flags ''borderline_suspected''\<rparr>"
    by (simp add: entry_of_write_def screened_ok_def)
  have "stage_step ?g (Inspected (CWrite env c m key) flags) st =
      (Stored (CWrite env c m key) flags, st\<lparr>gs_store := Inr (save created ?rs fs)\<rparr>)"
    using storing(3,4) by (simp add: e minted_def either_ops_def file_ops_def fst_Put_def)
  from move_at [OF _ this, of xs ys] have "cstep ?g (ts, st)
      (xs @ Stored (CWrite env c m key) flags # ys, st\<lparr>gs_store := Inr (save created ?rs fs)\<rparr>)" by (simp add: ts)
  with crashed_load [of created ?rs n written fs] storing(1,3) before after show thesis by fastforce
next
  case (deleting env i fs rs n written)
  let ?g = "durable_guard w created" and ?rs = "filter (\<lambda>r. fr_ID r \<noteq> i) rs"
  obtain xs ys where ts: "ts = xs @ Arrived (CDeleteEntry env i) # ys"
    using deleting(2) by (meson split_list)
  obtain r st1 where v: "VerifyDelete ?g env i st = (r, st1)" by fastforce
  have st1: "gs_store st1 = Inr (save created ?rs fs)"
    using v deleting(3-5) by (auto simp: VerifyDelete_def Let_def case_prod_beta either_ops_def file_ops_def fst_Delete_def)
  have "cstep ?g (ts, st) (xs @ Done (CDeleteEntry env i) (RDelete r) # ys, st1)"
    unfolding ts by (rule move_at) (simp_all add: v)
  with crashed_load [of created ?rs n written fs] deleting(1,3) st1 before after show thesis by fastforce
qed

text \<open>What is settled, and what the next piece of each call would settle, fits the store.\<close>

definition next_fits ::
  "('s, 'i, 'k) memory_guard \<Rightarrow> (string \<Rightarrow> entry \<Rightarrow> bool) \<Rightarrow> ('s, 'i, 'k) config \<Rightarrow> bool" where
  "next_fits g ok cfg \<longleftrightarrow>
     (case cfg of (ts, st) \<Rightarrow> list_all (\<lambda>t. list_all (reply_ok g ok) (commits g (fst (stage_step g t st)))) ts)"

context guard_over
begin

lemma next_fits_now: "next_fits g ok (ts, st) \<Longrightarrow> fits (ts, st)"
proof -
  have "list_all (reply_ok g ok) (commits g t)"
    if "list_all (reply_ok g ok) (commits g (fst (stage_step g t st)))" for t
    using that stage_commits [of g t st] by auto
  then show "next_fits g ok (ts, st) \<Longrightarrow> fits (ts, st)"
    by (auto simp: next_fits_def fits_def list_all_iff)
qed

lemma next_fits_after:
  assumes "next_fits g ok (ts, st)" and "cstep g (ts, st) cfg"
  shows "fits cfg"
  using assms(2)
proof (rule cstepE)
  fix j t st'
  assume cfg: "cfg = (ts[j := t], st')" and j: "j < length ts" and step: "stage_step g (ts ! j) st = (t, st')"
  have "list_all (reply_ok g ok) (commits g (fst (stage_step g (ts ! j) st)))"
    using assms(1) j by (simp add: next_fits_def list_all_length)
  then have "list_all (reply_ok g ok) (commits g t)" by (simp only: step fst_conv)
  then have "list_all (reply_ok g ok) (commits g (ts[j := t] ! i))" if "i < length ts" for i
    using next_fits_now [OF assms(1)] that by (cases "i = j") (simp_all add: fits_nth)
  then show ?thesis by (simp add: cfg fits_nth)
qed

end

section \<open>Recovery\<close>

lemma cstep_answered:
  assumes "cstep g (ts, st) (ts', st')" and "Done call r \<in> set ts"
  shows "Done call r \<in> set ts'"
  using assms(1)
proof cases
  case (move j t)
  obtain i where i: "i < length ts" "ts ! i = Done call r" using assms(2) by (metis in_set_conv_nth)
  with move have "j \<noteq> i" by auto
  with i move(1) show ?thesis by (metis length_list_update nth_list_update_neq nth_mem)
qed

text \<open>What a later process finds, when the file was left by a state that the schedule had settled.\<close>

lemma recovered_log:
  fixes w :: "'k wiring" and w' :: "'j wiring"
  assumes reach: "(cstep (durable_guard w created))\<^sup>*\<^sup>* (arrivals cs, durable_state w created fs0 k) (ts', st')"
    and "file_inv fs0" and settled: "durable.fits w created (ts', st')"
    and store: "gs_store st' = Inr fs'" and load: "load fs = load fs'"
    and answered: "\<And>call r. Done call r \<in> set ts \<Longrightarrow> Done call r \<in> set ts'"
  shows "\<exists>L s. mset L = mset (concat (map (commits (durable_guard w created)) ts')) \<and>
     legal (durable_guard w created) (file_abs fs0) L \<and>
     (\<forall>call r. Done call r \<in> set ts \<longrightarrow> (call, r) \<in> set L) \<and>
     open_guard w' created' fs k' = Inr (durable_guard w' created', s) \<and>
     serves_entries (durable_guard w' created') (fold (log_step (durable_guard w created)) L (file_abs fs0)) s"
proof -
  let ?g = "durable_guard w created" and ?st0 = "durable_state w created fs0 k"
  have inv: "held_inv (gs_store ?st0)" using assms(2) by (simp add: held_inv_def)
  have held: "held_map (Inr x) = file_abs x" for x by (simp add: held_map_def)
  obtain L P E where ok: "durable.config_ok w created cs (ts', st')" and L: "tracked ?g held_map ?st0 (ts', st') L P E"
    using durable.csteps_tracked [OF reach durable.start_ok [OF inv] durable.start_tracked settled] by blast
  have "held_inv (Inr fs')" using ok by (simp add: durable.config_ok_def store)
  then have "file_inv fs'" by (simp add: held_inv_def)
  with same_load [OF load] have "file_inv fs" by simp
  have "file_abs fs = fold (log_step ?g) L (file_abs fs0)"
    using L same_load [OF load] by (simp add: tracked_def store held)
  with reopened [OF \<open>file_inv fs\<close>, of w' created' k'] obtain s where
    "open_guard w' created' fs k' = Inr (durable_guard w' created', s)"
    "serves_entries (durable_guard w' created') (fold (log_step ?g) L (file_abs fs0)) s" by auto
  moreover have mset: "mset L = mset (concat (map (commits ?g) ts'))" and "legal ?g (file_abs fs0) L"
    using L by (simp_all add: tracked_def held)
  moreover have "(call, r) \<in> set L" if "Done call r \<in> set ts" for call r
    using mset_eq_setD [OF mset] answered [OF that] by force
  ultimately show ?thesis by blast
qed

text \<open>No answered call is ever lost. Concurrent calls run over a file, and the process dies at any moment,
  between two pieces or with a save cut off at any of its system calls. As long as the accepted
  entries fit the file, no verb panicked before, the next process opens the file, and its guard serves
  exactly the entries of some order of the settled calls, legal for their replies, with every call
  answered so far in it: at most the one call whose save was cut off may be settled or not.\<close>

theorem crash_recovery:
  fixes w :: "'k wiring" and w' :: "'j wiring"
  assumes run: "(cstep (durable_guard w created))\<^sup>*\<^sup>* (arrivals cs, durable_state w created fs0 k) (ts, st)"
    and "file_inv fs0" and fit: "next_fits (durable_guard w created) storable (ts, st)"
    and dies: "dies (durable_guard w created) created (ts, st) fs"
  shows "held_readable (gs_store st) \<and>
     (\<exists>ts' st' L s. ((ts', st') = (ts, st) \<or> cstep (durable_guard w created) (ts, st) (ts', st')) \<and>
        mset L = mset (concat (map (commits (durable_guard w created)) ts')) \<and>
        legal (durable_guard w created) (file_abs fs0) L \<and>
        (\<forall>call r. Done call r \<in> set ts \<longrightarrow> (call, r) \<in> set L) \<and>
        open_guard w' created' fs k' = Inr (durable_guard w' created', s) \<and>
        serves_entries (durable_guard w' created') (fold (log_step (durable_guard w created)) L (file_abs fs0)) s)"
proof -
  let ?g = "durable_guard w created" and ?st0 = "durable_state w created fs0 k"
  have inv: "held_inv (gs_store ?st0)" using assms(2) by (simp add: held_inv_def)
  have now: "durable.config_ok w created cs (ts, st)"
    using durable.csteps_tracked [OF run durable.start_ok [OF inv] durable.start_tracked durable.next_fits_now [OF fit]] by blast
  then have readable: "held_readable (gs_store st)" and stages: "list_all (stage_ok ?g) ts"
    by (simp_all add: durable.config_ok_def held_inv_readable)
  from dies stages show ?thesis
  proof (cases rule: dies_load)
    case (before fs')
    note found = recovered_log [OF run assms(2) durable.next_fits_now [OF fit] before, where ts = ts and w' = w'
        and created' = created' and k' = k']
    from readable show ?thesis
      by (rule conjI, intro exI [of _ ts] exI [of _ st]) (simp only: simp_thms, rule found)
  next
    case (after ts1 st1 fs1)
    note found = recovered_log [OF rtranclp.rtrancl_into_rtrancl [OF run after(1)] assms(2) durable.next_fits_after [OF fit after(1)]
        after(2,3) cstep_answered [OF after(1)], where w' = w' and created' = created' and k' = k']
    from readable after(1) show ?thesis
      by (intro conjI exI [of _ ts1] exI [of _ st1]) (simp_all only: simp_thms, rule found)
  qed
qed

text \<open>The sample death: the save of the quarantined sample write is cut off seven bytes into its snapshot.\<close>

lemma sample_inspected:
  "(cstep (durable_guard plain_wiring created))\<^sup>*\<^sup>* (arrivals [sample_call], durable_state plain_wiring created fresh_path ())
     ([Inspected sample_call [''borderline_suspected'']], durable_state plain_wiring created fresh_path ())"
    (is "(cstep ?g)\<^sup>*\<^sup>* (_, ?st) _")
proof -
  have off: "w_inspector plain_wiring = None" by (simp add: plain_wiring_def)
  note facts = borderline_text_facts
  have "(cstep ?g)\<^sup>*\<^sup>* ([] @ Arrived sample_call # [], ?st) ([] @ Screened sample_call [''borderline_suspected''] # [], ?st)"
    by (rule moves_at [OF rtranclp.rtrancl_refl]) (simp_all add: sample_call_def facts)
  then have "(cstep ?g)\<^sup>*\<^sup>* ([] @ Arrived sample_call # [], ?st) ([] @ Keyed sample_call [''borderline_suspected''] # [], ?st)"
    by (rule moves_at) (simp_all add: sample_call_def key_stage_def firstKey_def)
  then have "(cstep ?g)\<^sup>*\<^sup>* ([] @ Arrived sample_call # [], ?st) ([] @ Inspected sample_call [''borderline_suspected''] # [], ?st)"
    by (rule moves_at) (simp_all add: sample_call_def inspect_stage_def off)
  then show ?thesis by (simp add: arrivals_def)
qed

theorem crash_recovery_witness:
  "\<exists>s. open_guard keyed_wiring 384
         (crashed_save 384 [recordFrom ''mem-414141414141'' sample_entry] 1 7 fresh_path) () =
       Inr (durable_guard keyed_wiring 384, s)"
proof -
  let ?g = "durable_guard plain_wiring 384" and ?st = "durable_state plain_wiring 384 fresh_path ()"
  let ?t = "Inspected sample_call [''borderline_suspected'']"
  have "next_fits ?g storable ([?t], ?st)"
    using sample_entry_storable by (simp add: next_fits_def sample_call_def stored_reply_def sample_minted sample_stored)
  moreover have "dies ?g 384 ([?t], ?st)
      (crashed_save 384 (put_record (recordFrom ''mem-414141414141'' sample_entry) []) 1 7 fresh_path)"
    using dies.storing [of "sample_env ''AAAAAA''" borderline_text "attested_as ''spiffe://t/a''" "[]"
        "[''borderline_suspected'']" "[?t]" ?st fresh_path "[]" ?g 384 1 7]
    by (simp add: sample_call_def sample_minted sample_stored fresh_path_load)
  ultimately show ?thesis
    using crash_recovery [OF sample_inspected fresh_path_inv(1), where w' = keyed_wiring and created' = 384 and k' = "()"]
    by fastforce
qed

end
