(* ===== verification/Cli.thy ===== *)
theory Cli
  imports Ipc Durable
begin

text \<open>
  The command line (src/main.go): the flags of the serve command as Go's flag package reads them, the
  dispatch of the commands with their exits, and the two one-shot commands over either store. Leaving
  the process with a status and a message is a value; what is printed is its bytes. The usage and
  start-up lines on stderr are left out.
\<close>

section \<open>Flags\<close>

text \<open>The flag set of serve has two string flags and exits on an error: with status 2, or 0 when help was
  asked for. The rest of the words after the first that is no flag is ignored.\<close>

datatype flag_outcome = Parsed string string | FlagExit int

text \<open>A flag's name and, after an equals sign beyond its first letter, its value.\<close>

definition flag_name :: "string \<Rightarrow> string \<times> string option" where
  "flag_name s =
     (case s of
        [] \<Rightarrow> ([], None)
      | c # rest \<Rightarrow>
          (case dropWhile (\<lambda>d. d \<noteq> CHR ''='') rest of
             [] \<Rightarrow> (s, None)
           | _ # v \<Rightarrow> (c # takeWhile (\<lambda>d. d \<noteq> CHR ''='') rest, Some v)))"

definition set_flag :: "string \<Rightarrow> string \<Rightarrow> string \<times> string \<Rightarrow> string \<times> string" where
  "set_flag name v fs = (if name = ''socket'' then (v, snd fs) else (fst fs, v))"

fun parse_flags :: "string list \<Rightarrow> string \<times> string \<Rightarrow> flag_outcome" where
  "parse_flags [] fs = Parsed (fst fs) (snd fs)"
| "parse_flags (s # args) fs =
     (if length s < 2 \<or> hd s \<noteq> CHR ''-'' then Parsed (fst fs) (snd fs)
      else if s = ''--'' then Parsed (fst fs) (snd fs)
      else
        (let body = (if s ! 1 = CHR ''-'' then drop 2 s else drop 1 s) in
         if body = [] \<or> hd body \<in> {CHR ''-'', CHR ''=''} then FlagExit 2
         else
           (let (name, value) = flag_name body in
            if name \<notin> {''socket'', ''audit-socket''} then
              FlagExit (if name \<in> {''help'', ''h''} then 0 else 2)
            else (case value of
              Some v \<Rightarrow> parse_flags args (set_flag name v fs)
            | None \<Rightarrow>
                (case args of
                   [] \<Rightarrow> FlagExit 2
                 | v # args' \<Rightarrow> parse_flags args' (set_flag name v fs))))))"

section \<open>Commands\<close>

definition arg :: "string list \<Rightarrow> nat \<Rightarrow> string" where
  "arg args i = (if i < length args then args ! i else [])"

text \<open>A one-shot command builds its guard from the environment.\<close>

datatype command =
    Serve serve_setup
  | WriteOnce detector_value store_value "inspector option" string
  | ReadOnce detector_value store_value string

definition main ::
  "(string \<Rightarrow> presidioEntity list option) \<Rightarrow> (string \<Rightarrow> file_state) \<Rightarrow> environment \<Rightarrow> string list \<Rightarrow>
   exit + command" where
  "main answers disk env args =
     (if length args < 2 then Inl (Exit 2 ''usage: memory-guard'')
      else if args ! 1 = ''serve'' then
        (case parse_flags (drop 2 args) ([], []) of
           FlagExit status \<Rightarrow> Inl (Exit status ''flag'')
         | Parsed socket auditSocket \<Rightarrow> map_sum (\<lambda>e. e) Serve (serve_command answers disk env socket auditSocket))
      else if args ! 1 = ''write'' then
        (case buildDetector answers env of
           Inl e \<Rightarrow> Inl e
         | Inr det \<Rightarrow>
             (case buildStore disk env of
                Inl e \<Rightarrow> Inl e
              | Inr store \<Rightarrow> Inr (WriteOnce det store (buildWriteInspector env) (arg args 2))))
      else if args ! 1 = ''read'' then
        (case buildDetector answers env of
           Inl e \<Rightarrow> Inl e
         | Inr det \<Rightarrow>
             (case buildStore disk env of
                Inl e \<Rightarrow> Inl e
              | Inr store \<Rightarrow> Inr (ReadOnce det store (arg args 2))))
      else Inl (Exit 2 ''unknown command:''))"

text \<open>The serve command leaves with status 1 when the listener fails, at once or later; until then its
  connections are handled.\<close>

definition run_serve :: "string option \<Rightarrow> accepted list \<Rightarrow> connection list \<times> exit option" where
  "run_serve listen_error xs =
     (case listen_and_serve listen_error xs of (cns, err) \<Rightarrow> (cns, map_option (\<lambda>_. Exit 1 ''error:'') err))"

section \<open>The guards of the commands\<close>

text \<open>The wiring that serve hands to the guard, and that of the one-shot commands.\<close>

definition serve_wiring :: "map_order \<Rightarrow> (rune \<Rightarrow> rune) \<Rightarrow> serve_setup \<Rightarrow> async_state wiring" where
  "serve_wiring ord lower s =
     \<lparr>w_order = ord, w_lower = lower, w_detector = ss_detector s, w_two_index = False,
      w_audit = ss_audit s, w_policy = ss_policy s, w_inspector = ss_inspector s\<rparr>"

definition once_wiring :: "map_order \<Rightarrow> (rune \<Rightarrow> rune) \<Rightarrow> detector_value \<Rightarrow> inspector option \<Rightarrow> unit wiring" where
  "once_wiring ord lower det insp =
     \<lparr>w_order = ord, w_lower = lower, w_detector = det, w_two_index = False,
      w_audit = \<lparr>ac_Enabled = False, ac_Sink = None\<rparr>, w_policy = zero_policy, w_inspector = insp\<rparr>"

definition once ::
  "(string \<Rightarrow> file_state) \<Rightarrow> nat \<Rightarrow> unit wiring \<Rightarrow> store_value \<Rightarrow>
   (in_memory_store + file_state, inspector, unit) memory_guard \<times>
   (in_memory_store + file_state, inspector, unit) guard_state" where
  "once disk created w store =
     assemble w (file_ops created) (case store of MemoryValue _ \<Rightarrow> [] | FileValue path \<Rightarrow> [Some (disk path)]) ()"

text \<open>\<open>json.MarshalIndent\<close> with two spaces per level, and a newline.\<close>

definition indent_line :: "nat \<Rightarrow> string" where
  "indent_line n = CHR 0x0A # replicate (2 * n) CHR 0x20"

definition indent_style :: json_style where
  "indent_style =
     \<lparr>js_esc = esc_string, js_open = indent_line, js_sep = indent_line, js_close = indent_line, js_colon = '' ''\<rparr>"

definition printJSON :: "json \<Rightarrow> string" where
  "printJSON v = json_print indent_style 0 v @ [CHR 0x0A]"

text \<open>What a one-shot command prints, and the store it leaves behind; \<open>None\<close> is a panic. The identity is
  nil, there is no key. The read command writes its query first.\<close>

definition write_command ::
  "guard_env \<Rightarrow> (in_memory_store + file_state, inspector, unit) memory_guard \<times>
                (in_memory_store + file_state, inspector, unit) guard_state \<Rightarrow> string \<Rightarrow>
   (string \<times> (in_memory_store + file_state)) option" where
  "write_command env gs text =
     (case durable_step (fst gs) (CWrite env text Map.empty []) (snd gs) of
        None \<Rightarrow> None
      | Some (r, st) \<Rightarrow> Some (printJSON (reply_json r), gs_store st))"

definition read_command ::
  "guard_env \<Rightarrow> (in_memory_store + file_state, inspector, unit) memory_guard \<times>
                (in_memory_store + file_state, inspector, unit) guard_state \<Rightarrow> string \<Rightarrow>
   (string \<times> (in_memory_store + file_state)) option" where
  "read_command env gs text =
     (case durable_step (fst gs) (CWrite env text Map.empty []) (snd gs) of
        None \<Rightarrow> None
      | Some (_, st) \<Rightarrow>
          (case durable_step (fst gs) (CRead text Map.empty) st of
             None \<Rightarrow> None
           | Some (r, st') \<Rightarrow> Some (printJSON (reply_json r), gs_store st')))"

section \<open>Properties\<close>

lemma flag_words:
  "parse_flags ((''--socket='' @ v) # args) fs = parse_flags args (v, snd fs)"
  "parse_flags (''--socket'' # v # args) fs = parse_flags args (v, snd fs)"
  "parse_flags ((''--audit-socket='' @ v) # args) fs = parse_flags args (fst fs, v)"
  "parse_flags (''--audit-socket'' # v # args) fs = parse_flags args (fst fs, v)"
  "parse_flags [''--socket''] fs = FlagExit 2"
  by (simp_all add: flag_name_def set_flag_def)

text \<open>Flags reach the command as they were given, in either order and spelling; of a repeated flag the last
  counts; a flag without its value ends the process with status 2.\<close>

lemma flags_read:
  "parse_flags [''--socket'', s, ''--audit-socket='' @ a] ([], []) = Parsed s a \<and>
   parse_flags [''--audit-socket'', a, ''--socket='' @ s] ([], []) = Parsed s a \<and>
   parse_flags [''--socket='' @ s, ''--socket'', s'] ([], []) = Parsed s' [] \<and>
   parse_flags [''--socket''] ([], []) = FlagExit 2"
  by (simp only: flag_words parse_flags.simps(1) fst_conv snd_conv simp_thms)

text \<open>What the commands print is a layout of the reply's JSON: another program reads it back.\<close>

lemma indent_fields [simp]:
  "js_esc indent_style = esc_string" "js_open indent_style = indent_line" "js_sep indent_style = indent_line"
  "js_close indent_style = indent_line" "js_colon indent_style = '' ''"
  by (simp_all add: indent_style_def)

interpretation indented: json_printer indent_style
  by unfold_locales (simp_all add: parse_json_string indent_line_def json_ws_def list_all_iff)

lemma printed_roundtrip:
  "json_ok v \<Longrightarrow> json_depth v \<le> maxNestingDepth \<Longrightarrow> json_parse (printJSON v) = Some v"
  unfolding printJSON_def by (rule indented.print_roundtrip) (simp_all add: json_ok_wf json_ws_def)

text \<open>The one-shot commands agree with the server: a write command prints, over any of its stores, the reply that
  the server would send to the same anonymous write, in another layout.\<close>

lemma write_command_prints:
  assumes "durable_step (fst gs) (CWrite env text Map.empty []) (snd gs) = Some (r, st)" and "json_ok (reply_json r)"
  shows "\<exists>out. write_command env gs text = Some (out, gs_store st) \<and>
     json_parse out = json_parse (writeJSON (reply_json r)) \<and> json_parse out = Some (reply_json r)"
proof -
  have "json_depth (reply_json r) \<le> maxNestingDepth" using reply_depth [of r] by (simp add: maxNestingDepth_def)
  with printed_roundtrip [OF assms(2)] json_line_roundtrip [OF assms(2)] assms(1) show ?thesis
    by (simp add: write_command_def writeJSON_def json_line_def del: reply_json.simps)
qed

text \<open>The guard of a one-shot command over a file.\<close>

lemma once_file: "once disk created w (FileValue path) = (durable_guard w created, durable_state w created (disk path) ())"
  using durable_guard_fst [of w created "disk path" "()"]
  by (simp add: once_def durable_def durable_state_def prod_eq_iff)

text \<open>The read command writes. Over a file, a query that is no injection and that the file can hold stays
  in the store for good, as an unbound entry under a fresh id: reading changes the memory, and every
  later reader may find what an earlier one asked for.\<close>

theorem read_command_persists_query:
  fixes lower ord det
  defines "w \<equiv> once_wiring ord lower det None"
  assumes "file_inv (disk path)" and "det_DetectInjection (det_of det) query = []"
    and "storable (minted env) (entry_of_write (durable_guard w created) query Map.empty
           (snd (det_RedactPII (det_of det) query) @ det_DetectBorderline (det_of det) query))"
  shows "\<exists>printed fs.
     read_command env (once disk created w (FileValue path)) query = Some (printed, Inr fs) \<and>
     NewFileStore fs = None \<and>
     file_abs fs = (file_abs (disk path))
       (minted env \<mapsto> entry_of_write (durable_guard w created) query Map.empty
          (snd (det_RedactPII (det_of det) query) @ det_DetectBorderline (det_of det) query))"
proof -
  let ?g = "durable_guard w created" and ?st = "durable_state w created (disk path) ()"
  let ?flags = "snd (det_RedactPII (det_of det) query) @ det_DetectBorderline (det_of det) query"
  obtain r st where w: "ValidateWrite ?g env query Map.empty [] ?st = (r, st)" by fastforce
  have det: "w_detector w = det" "w_inspector w = None" by (simp_all add: w_def once_wiring_def)
  have inv: "held_inv (gs_store ?st)" using assms(2) by (simp add: held_inv_def)
  have ks: "key_stage ?g (firstKey []) x att bs = ([], False, bs)" for x att bs
    by (simp add: key_stage_def firstKey_def)
  have ins: "inspect_stage ?g now c ctx i = ([], i)" for now c ctx i
    by (simp add: inspect_stage_def det)
  have "\<not> det_DetectInjection (mg_det ?g) query \<noteq> []" using assms(3) by (simp add: det)
  from durable.write_stored_entry [OF this ks ins, of env Map.empty ?st] w assms(3)
  have r: "wr_stored_id r = Some (minted env)" "wr_flags r = ?flags" by (auto simp: det)
  with assms(4) have ok: "reply_ok ?g storable (CWrite env query Map.empty [], RWrite r)" by simp
  note stored = durable.write_store_abs [OF w inv ok]
  obtain fs where fs: "gs_store st = Inr fs"
    using guard_step_inr [of w created "CWrite env query Map.empty []" ?st "RWrite r" st "disk path"] w by auto
  have step: "durable_step ?g (CWrite env query Map.empty []) ?st = Some (RWrite r, st)"
    using durable_step_total [OF inv] w by simp
  have "durable_step ?g (CRead query Map.empty) st = Some (RRead (ValidateRead ?g query Map.empty st), st)"
    using durable_step_total [OF stored(1)] by simp
  with step fs have "read_command env (once disk created w (FileValue path)) query =
      Some (printJSON (reply_json (RRead (ValidateRead ?g query Map.empty st))), Inr fs)"
    by (simp add: read_command_def once_file del: reply_json.simps)
  moreover have "file_inv fs" "file_abs fs = (file_abs (disk path))
      (minted env \<mapsto> entry_of_write ?g query Map.empty ?flags)"
    using stored r by (simp_all add: fs held_inv_def held_map_def)
  ultimately show ?thesis using file_inv_opens by blast
qed

definition phrase_entry :: entry where
  "phrase_entry = \<lparr>e_content = phrase, e_boundIdentity = [], e_sourceClass = ''unknown'', e_flags = [],
     e_quarantined = False\<rparr>"

lemma phrase_entry_storable: "storable ''mem-414141414141'' phrase_entry"
proof -
  have "list_all valid_utf8 [''mem-414141414141'', phrase, [], ''unknown'']"
    by (rule all_ascii_utf8) code_simp
  moreover have "length (json_encode (record_json (recordFrom ''mem-414141414141'' phrase_entry))) < 300" by code_simp
  ultimately show ?thesis
    by (simp add: storable_def record_ok_def record_utf8_def maxLine_def) (simp add: recordFrom_def phrase_entry_def)
qed

lemma phrase_stored:
  "w_detector w = NativeValue NewNativeDetector \<Longrightarrow> entry_of_write (durable_guard w created) phrase Map.empty [] = phrase_entry"
proof -
  assume w: "w_detector w = NativeValue NewNativeDetector"
  have "det_of (NativeValue NewNativeDetector) = det_of (w_detector plain_wiring)" by (simp add: plain_wiring_def)
  note facts = phrase_facts [folded this]
  have "boundKeyFor (Some (principalFromMap Map.empty)) = []" "sourceClassFromMap Map.empty = ''unknown''"
    by code_simp+
  with facts show ?thesis by (simp add: entry_of_write_def phrase_entry_def w)
qed

theorem read_command_persists_query_witness:
  "\<exists>printed fs.
     read_command (sample_env ''AAAAAA'')
       (once (\<lambda>_. fresh_path) 384 (once_wiring insertion_order (\<lambda>r. r) (NativeValue NewNativeDetector) None) (FileValue ''m'')) phrase
       = Some (printed, Inr fs) \<and> file_abs fs = [''mem-414141414141'' \<mapsto> phrase_entry]"
proof -
  let ?w = "once_wiring insertion_order (\<lambda>r. r) (NativeValue NewNativeDetector) None"
  have det: "det_of (NativeValue NewNativeDetector) = det_of (w_detector plain_wiring)" by (simp add: plain_wiring_def)
  note facts = phrase_facts [folded det]
  have e: "entry_of_write (durable_guard ?w 384) phrase Map.empty [] = phrase_entry"
    by (rule phrase_stored) (simp add: once_wiring_def)
  have "storable (minted (sample_env ''AAAAAA'')) (entry_of_write (durable_guard ?w 384) phrase Map.empty
      (snd (det_RedactPII (det_of (NativeValue NewNativeDetector)) phrase) @
       det_DetectBorderline (det_of (NativeValue NewNativeDetector)) phrase))"
    using facts by (simp add: e sample_minted phrase_entry_storable)
  from read_command_persists_query [OF _ facts(1) this, where disk = "\<lambda>_. fresh_path" and path = "''m''"]
  show ?thesis by (simp add: facts [unfolded det_of.simps] e sample_minted fresh_path_inv) blast
qed

end
