(* ===== verification/Server.thy ===== *)
theory Server
  imports Service Cli
begin

text \<open>
  The serve command as one system: the goroutines of src/ipc.go, one per connection, over one guard
  of src/guard.go, and the drain goroutine of the AsyncSink (src/audit.go) that src/main.go wires as
  its audit sink. A connection is read as a whole, its call runs in the pieces of theory
  Concurrent, its reply is written at the end; the drain goroutine moves between any two of these. A
  connection that is not yet accepted is one whose handler has not moved yet.

  Nothing in the code bounds how long a handler waits for the world outside: the read of the request and
  the write of the reply have no deadline, nor has the exchange with an analyzer process. So a
  handler may also stall at each of these, for good: \<open>Stalled\<close>. A detector call that waits for the
  detector's own mutex behind a call that hangs is one that stalls.
\<close>

section \<open>The system\<close>

datatype handler =
    Reading connection
  | Serving connection stage
  | Stalled connection "stage option"
  | Closed connection "guard_reply option"

text \<open>The pieces of a call that wait for something outside the process: those with a detector call (a
  review has one when the entry it fetched is quarantined), and the write of the reply.\<close>

fun waits_outside :: "stage \<Rightarrow> bool" where
  "waits_outside (Arrived (CWrite _ _ _ _)) = True"
| "waits_outside (Scanned _ _) = True"
| "waits_outside (Fetched _ (Some e)) = e_quarantined e"
| "waits_outside (Done _ _) = True"
| "waits_outside _ = False"

text \<open>What a closed connection was written.\<close>

fun written :: "(string \<Rightarrow> string) \<Rightarrow> handler \<Rightarrow> string option" where
  "written err_text (Closed cn (Some r)) = Some (writeJSON (reply_json r))"
| "written err_text (Closed cn None) = control_reply err_text cn"
| "written err_text _ = None"

fun hung_up :: "handler \<Rightarrow> bool" where
  "hung_up (Closed _ _) = True"
| "hung_up _ = False"

text \<open>A handler's next piece, on its own.\<close>

inductive handler_step ::
  "('s, 'i, 'k) memory_guard \<Rightarrow> handler \<Rightarrow> ('s, 'i, 'k) guard_state \<Rightarrow> handler \<Rightarrow> ('s, 'i, 'k) guard_state \<Rightarrow> bool" for g where
  control: "request_call cn = None \<Longrightarrow> handler_step g (Reading cn) st (Closed cn None) st"
| arrive: "request_call cn = Some call \<Longrightarrow> handler_step g (Reading cn) st (Serving cn (Arrived call)) st"
| piece: "\<not> finished t \<Longrightarrow> stage_step g t st = (t', st') \<Longrightarrow> handler_step g (Serving cn t) st (Serving cn t') st'"
| reply: "handler_step g (Serving cn (Done call r)) st (Closed cn (Some r)) st"
| idle: "handler_step g (Reading cn) st (Stalled cn None) st"
| hang: "waits_outside t \<Longrightarrow> handler_step g (Serving cn t) st (Stalled cn (Some t)) st"


type_synonym ('s, 'i) server = "handler list \<times> ('s, 'i, async_state) guard_state"

inductive server_step ::
  "('s, 'i, async_state) memory_guard \<Rightarrow> ('s, 'i) server \<Rightarrow> ('s, 'i) server \<Rightarrow> bool" for g where
  handle: "handler_step g h st h' st' \<Longrightarrow> server_step g (xs @ h # ys, st) (xs @ h' # ys, st')"
| drain: "async_step DrainStep (gs_sink st) k \<Longrightarrow> server_step g (hs, st) (hs, st\<lparr>gs_sink := k\<rparr>)"

section \<open>The calls of the server are an interleaving\<close>

text \<open>Where the calls of a server stand: a connection that is still to be read, or never is, counts as
  arrived.\<close>

fun stages :: "handler \<Rightarrow> stage list" where
  "stages (Reading cn) = (case request_call cn of None \<Rightarrow> [] | Some call \<Rightarrow> [Arrived call])"
| "stages (Serving cn t) = [t]"
| "stages (Stalled cn None) = (case request_call cn of None \<Rightarrow> [] | Some call \<Rightarrow> [Arrived call])"
| "stages (Stalled cn (Some t)) = [t]"
| "stages (Closed cn None) = []"
| "stages (Closed cn (Some r)) = (case request_call cn of None \<Rightarrow> [] | Some call \<Rightarrow> [Done call r])"

definition all_stages :: "handler list \<Rightarrow> stage list" where
  "all_stages hs = concat (map stages hs)"

lemma all_stages_split: "all_stages (xs @ h # ys) = all_stages xs @ stages h @ all_stages ys"
  by (simp add: all_stages_def)

fun conn_of :: "handler \<Rightarrow> connection" where
  "conn_of (Reading cn) = cn"
| "conn_of (Serving cn _) = cn"
| "conn_of (Stalled cn _) = cn"
| "conn_of (Closed cn _) = cn"

text \<open>A handler serves the call of its connection, and stalls only where it waits for the outside.\<close>

fun handler_ok :: "handler \<Rightarrow> bool" where
  "handler_ok (Reading cn) = True"
| "handler_ok (Serving cn t) \<longleftrightarrow> request_call cn = Some (call_of t)"
| "handler_ok (Stalled cn None) = True"
| "handler_ok (Stalled cn (Some t)) \<longleftrightarrow> request_call cn = Some (call_of t) \<and> waits_outside t"
| "handler_ok (Closed cn None) \<longleftrightarrow> request_call cn = None"
| "handler_ok (Closed cn (Some r)) \<longleftrightarrow> request_call cn \<noteq> None"

lemma stages_start: "all_stages (map Reading cns) = arrivals (List.map_filter request_call cns)"
  by (induction cns) (simp_all add: all_stages_def arrivals_def map_filter_simps split: option.split)

text \<open>A piece does not look at the sink.\<close>

lemma stage_step_sink:
  "fst (stage_step g t (st\<lparr>gs_sink := k\<rparr>)) = fst (stage_step g t st) \<and>
   (\<exists>k'. snd (stage_step g t (st\<lparr>gs_sink := k\<rparr>)) = (snd (stage_step g t st))\<lparr>gs_sink := k'\<rparr>)"
  by (cases "(g, t, st)" rule: stage_step.cases)
    (auto simp: Let_def case_prod_beta VerifyDelete_def intro: exI [of _ k])

lemma piece_sink:
  assumes "stage_step g t st = (t', st')"
  obtains k' where "stage_step g t (st\<lparr>gs_sink := k\<rparr>) = (t', st'\<lparr>gs_sink := k'\<rparr>)"
  using stage_step_sink [where g = g and t = t and st = st and k = k] assms by (metis fst_conv prod.collapse snd_conv)

lemma same_stages: "\<exists>k'. (cstep g)\<^sup>*\<^sup>* (ts, st\<lparr>gs_sink := k\<rparr>) (ts, st\<lparr>gs_sink := k'\<rparr>)"
  by blast

text \<open>A handler serves the call of its connection all along, over any guard.\<close>

lemma stage_call_any: "call_of (fst (stage_step g t st)) = call_of t"
  by (cases "(g, t, st)" rule: stage_step.cases) (simp_all add: Let_def case_prod_beta)

lemma handler_keeps:
  assumes "handler_step g h st h' st'" and "handler_ok h"
  shows "handler_ok h' \<and> conn_of h' = conn_of h"
  using assms(1)
proof cases
  case (piece t t' cn)
  then show ?thesis using stage_call_any [of g t st] assms(2) by simp
qed (use assms(2) in simp_all)

lemma server_keeps:
  assumes "(server_step g)\<^sup>*\<^sup>* (hs0, st0) (hs, st)" and "list_all handler_ok hs0"
  shows "list_all handler_ok hs \<and> map conn_of hs = map conn_of hs0"
  using assms(1)
proof (induction "(hs, st)" arbitrary: hs st rule: rtranclp_induct)
  case base
  then show ?case using assms(2) by blast
next
  case (step cfg)
  obtain hs1 st1 where cfg: "cfg = (hs1, st1)" by fastforce
  from step.hyps(3) [OF cfg] have ok: "list_all handler_ok hs1" "map conn_of hs1 = map conn_of hs0" by simp_all
  from step.hyps(2) [unfolded cfg] show ?case
  proof cases
    case (handle h h' xs ys)
    with ok handler_keeps [OF handle(3)] show ?thesis by auto
  qed (use ok in auto)
qed

text \<open>One step of the server is one piece of one of its calls, or none, up to the sink.\<close>

lemma handler_projects:
  assumes "handler_step g h st h' st'" and "handler_ok h"
  shows "\<exists>k'. (cstep g)\<^sup>*\<^sup>* (xs @ stages h @ ys, st\<lparr>gs_sink := k\<rparr>) (xs @ stages h' @ ys, st'\<lparr>gs_sink := k'\<rparr>)"
  using assms(1)
proof cases
  case (piece t t' cn)
  obtain k' where "stage_step g t (st\<lparr>gs_sink := k\<rparr>) = (t', st'\<lparr>gs_sink := k'\<rparr>)"
    by (rule piece_sink [OF piece(4)])
  from move_at [OF piece(3) this, of xs ys] have "(cstep g)\<^sup>*\<^sup>* (xs @ stages h @ ys, st\<lparr>gs_sink := k\<rparr>)
      (xs @ stages h' @ ys, st'\<lparr>gs_sink := k'\<rparr>)" by (simp add: piece(1,2))
  then show ?thesis by blast
next
  case control
  then have "stages h' = stages h \<and> st' = st" by simp
  then show ?thesis using same_stages by (simp only:) blast
next
  case arrive
  then have "stages h' = stages h \<and> st' = st" by simp
  then show ?thesis using same_stages by (simp only:) blast
next
  case reply
  then have "stages h' = stages h \<and> st' = st" using assms(2) by simp
  then show ?thesis using same_stages by (simp only:) blast
next
  case idle
  then have "stages h' = stages h \<and> st' = st" by simp
  then show ?thesis using same_stages by (simp only:) blast
next
  case hang
  then have "stages h' = stages h \<and> st' = st" by simp
  then show ?thesis using same_stages by (simp only:) blast
qed

lemma server_projects:
  assumes "server_step g (hs, st) (hs', st')" and "list_all handler_ok hs"
  shows "\<exists>k'. (cstep g)\<^sup>*\<^sup>* (all_stages hs, st\<lparr>gs_sink := k\<rparr>) (all_stages hs', st'\<lparr>gs_sink := k'\<rparr>)"
  using assms(1)
proof cases
  case (handle h h' xs ys)
  have "handler_ok h" using assms(2) by (simp add: handle(1))
  from handler_projects [OF handle(3) this, of "all_stages xs" "all_stages ys" k] show ?thesis
    by (simp add: handle(1,2) all_stages_split)
next
  case drain
  then show ?thesis using same_stages by auto
qed

text \<open>Any run of the server, seen as an interleaving of its calls.\<close>

lemma server_continues:
  assumes "(server_step g)\<^sup>*\<^sup>* (hs1, st1) (hs, st)" and "list_all handler_ok hs1"
  shows "\<exists>k'. (cstep g)\<^sup>*\<^sup>* (all_stages hs1, st1\<lparr>gs_sink := k\<rparr>) (all_stages hs, st\<lparr>gs_sink := k'\<rparr>)"
  using assms(1)
proof (induction "(hs, st)" arbitrary: hs st rule: rtranclp_induct)
  case base
  then show ?case by blast
next
  case (step cfg)
  obtain hs2 st2 where cfg: "cfg = (hs2, st2)" by fastforce
  from step.hyps(3) [OF cfg] obtain k2
    where run: "(cstep g)\<^sup>*\<^sup>* (all_stages hs1, st1\<lparr>gs_sink := k\<rparr>) (all_stages hs2, st2\<lparr>gs_sink := k2\<rparr>)" by blast
  have "list_all handler_ok hs2" using server_keeps [OF step.hyps(1) [unfolded cfg] assms(2)] by simp
  from server_projects [OF step.hyps(2) [unfolded cfg] this, of k2] obtain k3
    where "(cstep g)\<^sup>*\<^sup>* (all_stages hs2, st2\<lparr>gs_sink := k2\<rparr>) (all_stages hs, st\<lparr>gs_sink := k3\<rparr>)" by blast
  from rtranclp_trans [OF run this] show ?case by (rule exI)
qed

lemma readers_ok: "list_all handler_ok (map Reading cns) \<and> map conn_of (map Reading cns) = cns"
  by (simp add: list.pred_map comp_def list.pred_True)

lemma server_reaches:
  assumes "(server_step g)\<^sup>*\<^sup>* (map Reading cns, st0) (hs, st)"
  obtains k where "list_all handler_ok hs" and "map conn_of hs = cns"
    and "(cstep g)\<^sup>*\<^sup>* (arrivals (List.map_filter request_call cns), st0) (all_stages hs, st\<lparr>gs_sink := k\<rparr>)"
proof -
  from server_keeps [OF assms] readers_ok [of cns] have ok: "list_all handler_ok hs" "map conn_of hs = cns" by simp_all
  have "st0\<lparr>gs_sink := gs_sink st0\<rparr> = st0" by simp
  with server_continues [OF assms conjunct1 [OF readers_ok], of "gs_sink st0"] obtain k where
    "(cstep g)\<^sup>*\<^sup>* (arrivals (List.map_filter request_call cns), st0) (all_stages hs, st\<lparr>gs_sink := k\<rparr>)"
    by (auto simp: stages_start)
  from that [OF ok this] show thesis .
qed

text \<open>An in-process store holds whatever is written, so what the server reaches is always consistent.\<close>

lemma reached_ok:
  assumes "(cstep (wired_guard w))\<^sup>*\<^sup>* (arrivals cs, wired_state w k0) (ts, st\<lparr>gs_sink := k\<rparr>)"
  shows "list_all (stage_ok (wired_guard w)) ts \<and> stored_inv (gs_store st)"
  using wired.csteps_tracked [OF assms wired.start_ok [OF wired_state_fields(2)] wired.start_tracked wired.fits_any]
  by (simp add: wired.config_ok_def)

lemma closed_finished: "list_all hung_up hs \<Longrightarrow> list_all finished (all_stages hs)"
proof (induction hs)
  case (Cons h hs)
  then show ?case by (cases h rule: stages.cases) (auto simp: all_stages_def split: option.split)
qed (simp add: all_stages_def)

lemma closed_written:
  assumes "list_all hung_up hs" and "list_all handler_ok hs" and "length rs = length (List.map_filter request_call (map conn_of hs))"
    and "all_stages hs = answered (List.map_filter request_call (map conn_of hs)) rs"
  shows "map (written err_text) hs = reply_lines err_text (map conn_of hs) rs"
  using assms
proof (induction hs arbitrary: rs)
  case (Cons h hs)
  then obtain cn r where h: "h = Closed cn r" by (cases h) auto
  show ?case
  proof (cases r)
    case None
    with Cons h show ?thesis by (simp add: map_filter_simps all_stages_def)
  next
    case (Some x)
    with Cons.prems(2) h obtain call where call: "request_call cn = Some call" by auto
    with Cons.prems(3) h obtain y rs' where rs: "rs = y # rs'" by (cases rs) (auto simp: map_filter_simps)
    with Cons.prems(4) h Some call have "y = x" "all_stages hs = answered (List.map_filter request_call (map conn_of hs)) rs'"
      by (auto simp: map_filter_simps all_stages_def answered_def)
    with Cons h Some call rs show ?thesis by (simp add: map_filter_simps writeJSON_def json_line_def)
  qed
qed (simp add: map_filter_simps all_stages_def)

text \<open>The calls behind the stages, and what is settled of them.\<close>

lemma all_stages_calls: "list_all handler_ok hs \<Longrightarrow> map call_of (all_stages hs) = List.map_filter request_call (map conn_of hs)"
proof (induction hs)
  case (Cons h hs)
  then have "map call_of (stages h) = (case request_call (conn_of h) of None \<Rightarrow> [] | Some call \<Rightarrow> [call])"
    by (cases h rule: stages.cases) (auto split: option.split)
  with Cons show ?case by (simp add: all_stages_def map_filter_simps split: option.split)
qed (simp add: all_stages_def map_filter_simps)

lemma cstep_calls: "cstep g (ts, st) (ts', st') \<Longrightarrow> map call_of ts' = map call_of ts"
proof (erule cstepE)
  fix j t st''
  assume cfg: "(ts', st') = (ts[j := t], st'')" and step: "stage_step g (ts ! j) st = (t, st'')"
  have "call_of t = call_of (ts ! j)" using stage_call_any [of g "ts ! j" st] step by simp
  then show "map call_of ts' = map call_of ts"
    using cfg by (cases "j < length ts") (simp_all add: map_update list_update_same_conv list_update_beyond)
qed

lemma commits_calls: "mset (map fst (concat (map (commits g) ts))) \<subseteq># mset (map call_of ts)"
proof (induction ts)
  case (Cons t ts)
  have "mset (map fst (commits g t)) \<subseteq># {#call_of t#}"
    by (cases "(g, t)" rule: commits.cases) simp_all
  from subset_mset.add_mono [OF this Cons] show ?case by simp
qed simp

lemma closed_done:
  assumes "Closed cn (Some r) \<in> set hs" and "list_all handler_ok hs"
  shows "\<exists>call. request_call cn = Some call \<and> Done call r \<in> set (all_stages hs)"
  using assms by (fastforce simp: list_all_iff all_stages_def intro: bexI [of _ "Closed cn (Some r)"])

lemma dies_sink: "dies g created (ts, st) fs \<Longrightarrow> dies g created (ts, st\<lparr>gs_sink := k\<rparr>) fs"
  by (erule diesE) (auto intro: dies.intros)

section \<open>The audit trail of the server\<close>

text \<open>The dispatcher of an open sink after events E were emitted in order: those it accepted are among
  them, and all of them while they fit the buffer together.\<close>

definition dispatched :: "nat \<Rightarrow> OCSFEvent list \<Rightarrow> async_state \<Rightarrow> bool" where
  "dispatched n E k \<longleftrightarrow>
     async_inv k \<and> sy_cap k = n \<and> \<not> sy_closed k \<and> subseq (sy_accepted k) E \<and>
     (if length E \<le> n then sy_accepted k = E else True)"

lemma async_emit:
  "emitSafe (Some AsyncSink_Emit) e k =
     (if length (sy_ch k) < sy_cap k
      then k\<lparr>sy_ch := sy_ch k @ [e], sy_accepted := sy_accepted k @ [e]\<rparr> else k)"
  by (simp add: emitSafe_def AsyncSink_Emit_def)

lemma dispatched_emit:
  assumes "dispatched n E k"
  shows "dispatched n (E @ [e]) (emitSafe (Some AsyncSink_Emit) e k)"
proof (cases "length (sy_ch k) < sy_cap k")
  case True
  have "async_inv (k\<lparr>sy_ch := sy_ch k @ [e], sy_accepted := sy_accepted k @ [e]\<rparr>)"
    using async_step_inv [OF async_step.emit_ok [OF True]] assms by (simp add: dispatched_def)
  moreover have "subseq (sy_accepted k @ [e]) (E @ [e])"
    using assms by (intro list_emb_append_mono) (simp_all add: dispatched_def)
  ultimately show ?thesis using True assms by (simp add: dispatched_def async_emit)
next
  case False
  have "length (sy_ch k) \<le> length (sy_accepted k)" using assms by (simp add: dispatched_def async_inv_def)
  moreover have "length (sy_accepted k) \<le> length E" using assms list_emb_length by (auto simp: dispatched_def)
  ultimately have "\<not> length (E @ [e]) \<le> n" using False assms by (simp add: dispatched_def)
  with False assms show ?thesis by (auto simp: dispatched_def async_emit intro: subseq_rev_drop_many)
qed

lemma dispatched_emits: "dispatched n E k \<Longrightarrow> dispatched n (E @ E') (fold (emitSafe (Some AsyncSink_Emit)) E' k)"
proof (induction E' arbitrary: E k)
  case (Cons e E')
  from Cons.IH [OF dispatched_emit [OF Cons.prems]] show ?case by simp
qed simp

lemma dispatched_drain: "async_step DrainStep k k' \<Longrightarrow> dispatched n E k \<Longrightarrow> dispatched n E k'"
  using async_step_inv [of DrainStep k k'] drain_step_keeps [of k k'] by (simp add: dispatched_def)

lemma dispatched_start: "dispatched (max 1 n) [] (NewAsyncSink n)"
  by (simp add: dispatched_def NewAsyncSink_def async_inv_def in_flight_def max_def)

text \<open>What a piece emits.\<close>

lemma piece_emits:
  assumes "stage_step (wired_guard w) t st = (t', st')" and "stage_ok (wired_guard w) t" and "\<not> finished t"
    and "stored_inv (gs_store st)"
  shows "gs_sink st' = fold (emitSafe (mg_audit (wired_guard w))) (emits (wired_guard w) t') (gs_sink st)"
    and "emits (wired_guard w) t = []"
proof -
  show none: "emits (wired_guard w) t = []" using assms(3) by (cases t) simp_all
  from wired.stage_piece [OF assms(2,3,1,4)] obtain L P E where "wired.piece_ok w t st t' st' L P E"
    by (auto simp: list_all_iff)
  then show "gs_sink st' = fold (emitSafe (mg_audit (wired_guard w))) (emits (wired_guard w) t') (gs_sink st)"
    using none by (simp add: wired.piece_ok_def)
qed

text \<open>The events of the replies that a server has settled and announced so far.\<close>

definition announced :: "('s, 'i, 'k) memory_guard \<Rightarrow> handler list \<Rightarrow> OCSFEvent list" where
  "announced g hs = concat (map (emits g) (all_stages hs))"

lemma announced_split:
  "announced g (xs @ h # ys) = announced g xs @ concat (map (emits g) (stages h)) @ announced g ys"
  by (simp add: announced_def all_stages_split)

text \<open>How many steps a connection may still cost, those of the drain goroutine for its event included.\<close>

fun hrank :: "handler \<Rightarrow> nat" where
  "hrank (Reading _) = 9"
| "hrank (Serving _ t) = 1 + rank t + (if finished t then 0 else 2)"
| "hrank (Stalled _ _) = 0"
| "hrank (Closed _ _) = 0"

text \<open>What a step of a handler does to the sink.\<close>

lemma handler_sink:
  assumes "handler_step (wired_guard w) h st h' st'" and "handler_ok h"
    and "list_all (stage_ok (wired_guard w)) (stages h)" and "stored_inv (gs_store st)"
  shows "\<exists>E. gs_sink st' = fold (emitSafe (mg_audit (wired_guard w))) E (gs_sink st) \<and>
     concat (map (emits (wired_guard w)) (stages h')) = concat (map (emits (wired_guard w)) (stages h)) @ E \<and>
     hrank h' + 2 * length E < hrank h"
  using assms(1)
proof cases
  case (piece t t' cn)
  have t: "stage_ok (wired_guard w) t" using assms(3) by (simp add: piece(1))
  have "length (emits (wired_guard w) t') \<le> (if finished t' then 1 else 0)"
    by (cases t') (simp_all split: option.split)
  with stage_rank [OF t piece(3,4)] piece(3) piece_emits [OF piece(4) t piece(3) assms(4)] show ?thesis
    by (intro exI [of _ "emits (wired_guard w) t'"]) (simp add: piece(1,2) split: if_splits)
qed (use assms(2) in \<open>auto intro!: exI [of _ "[]"]\<close>)

lemma server_sink:
  assumes "server_step (wired_guard w) (hs, st) (hs', st')" and "list_all handler_ok hs"
    and "list_all (stage_ok (wired_guard w)) (all_stages hs)" and "stored_inv (gs_store st)"
  shows "\<exists>E. mset (announced (wired_guard w) hs') = mset (announced (wired_guard w) hs) + mset E \<and>
     (gs_sink st' = fold (emitSafe (mg_audit (wired_guard w))) E (gs_sink st) \<and>
        sum_list (map hrank hs') + 2 * length E < sum_list (map hrank hs) \<or>
      E = [] \<and> hs' = hs \<and> async_step DrainStep (gs_sink st) (gs_sink st'))"
  using assms(1)
proof cases
  case (handle h h' xs ys)
  have "handler_ok h" "list_all (stage_ok (wired_guard w)) (stages h)"
    using assms(2,3) by (simp_all add: handle(1) all_stages_split)
  from handler_sink [OF handle(3) this assms(4)] show ?thesis
    by (auto simp: handle(1,2) announced_split)
qed auto

text \<open>The invariant of the audit trail: events are announced in some order, the dispatcher has seen them in
  that order.\<close>

lemma server_dispatched:
  assumes "(server_step (wired_guard w))\<^sup>*\<^sup>* (map Reading cns, wired_state w (NewAsyncSink n)) (hs, st)"
    and "mg_audit (wired_guard w) = Some AsyncSink_Emit"
  shows "\<exists>E. mset E = mset (announced (wired_guard w) hs) \<and> dispatched (max 1 n) E (gs_sink st)"
  using assms(1)
proof (induction "(hs, st)" arbitrary: hs st rule: rtranclp_induct)
  case base
  have "announced (wired_guard w) (map Reading cns) = []"
    unfolding announced_def stages_start by (simp add: arrivals_def comp_def)
  then show ?case using dispatched_start [of n] by (intro exI [of _ "[]"]) simp
next
  case (step cfg)
  obtain hs1 st1 where cfg: "cfg = (hs1, st1)" by fastforce
  from step.hyps(3) [OF cfg] obtain E where E: "mset E = mset (announced (wired_guard w) hs1)"
    "dispatched (max 1 n) E (gs_sink st1)" by blast
  obtain k where ok: "list_all handler_ok hs1" "(cstep (wired_guard w))\<^sup>*\<^sup>*
      (arrivals (List.map_filter request_call cns), wired_state w (NewAsyncSink n)) (all_stages hs1, st1\<lparr>gs_sink := k\<rparr>)"
    by (rule server_reaches [OF step.hyps(1) [unfolded cfg]])
  from server_sink [OF step.hyps(2) [unfolded cfg] ok(1)] reached_ok [OF ok(2)] obtain E' where
    E': "mset (announced (wired_guard w) hs) = mset (announced (wired_guard w) hs1) + mset E'"
    "gs_sink st = fold (emitSafe (mg_audit (wired_guard w))) E' (gs_sink st1) \<or>
      E' = [] \<and> async_step DrainStep (gs_sink st1) (gs_sink st)" by blast
  have "dispatched (max 1 n) (E @ E') (gs_sink st)"
    using E'(2) dispatched_emits [OF E(2), of E'] dispatched_drain [OF _ E(2)] unfolding assms(2) by auto
  with E(1) E'(1) show ?case by (intro exI [of _ "E @ E'"]) simp
qed

section \<open>The server comes to rest\<close>










section \<open>Properties\<close>

text \<open>C5: The server answers concurrent clients as one guard would. However the handlers of the connections and
  the drain goroutine are scheduled, once every connection is closed each has been written what its
  own request calls for (an error, a ping, nothing, or the encoded reply of its call), and there
  is an order of the calls with these replies in which each reply is right for the entries stored
  at its turn and after which the store holds what the order says. The order respects time: the
  calls settled at any earlier moment are an initial part of it.\<close>

theorem server_linearizes:
  assumes "(server_step (wired_guard w))\<^sup>*\<^sup>* (map Reading cns, wired_state w k0) (mid, st1)"
    and "(server_step (wired_guard w))\<^sup>*\<^sup>* (mid, st1) (hs, st)" and "list_all hung_up hs"
  shows "\<exists>rs L1 L2. map (written err_text) hs = reply_lines err_text cns rs \<and>
     mset L1 = mset (concat (map (commits (wired_guard w)) (all_stages mid))) \<and>
     mset (L1 @ L2) = mset (zip (List.map_filter request_call cns) rs) \<and>
     length rs = length (List.map_filter request_call cns) \<and>
     legal (wired_guard w) Map.empty (L1 @ L2) \<and>
     stored_map (gs_store st) = fold (log_step (wired_guard w)) (L1 @ L2) Map.empty"
proof -
  obtain k1 where mid: "list_all handler_ok mid" "map conn_of mid = cns"
    "(cstep (wired_guard w))\<^sup>*\<^sup>* (arrivals (List.map_filter request_call cns), wired_state w k0)
       (all_stages mid, st1\<lparr>gs_sink := k1\<rparr>)" by (rule server_reaches [OF assms(1)])
  have ok: "list_all handler_ok hs" "map conn_of hs = cns" using server_keeps [OF assms(2) mid(1)] mid(2) by simp_all
  from server_continues [OF assms(2) mid(1)] obtain k2 where
    run: "(cstep (wired_guard w))\<^sup>*\<^sup>* (all_stages mid, st1\<lparr>gs_sink := k1\<rparr>) (all_stages hs, st\<lparr>gs_sink := k2\<rparr>)"
    by blast
  from wired.interleaving_done_any [OF mid(3) run wired_state_fields(2) closed_finished [OF assms(3)]]
  obtain rs L1 L2 where all: "all_stages hs = answered (List.map_filter request_call cns) rs"
    "length rs = length (List.map_filter request_call cns)"
    "mset L1 = mset (concat (map (commits (wired_guard w)) (all_stages mid)))"
    "mset (L1 @ L2) = mset (zip (List.map_filter request_call cns) rs)"
    "legal (wired_guard w) Map.empty (L1 @ L2)"
    "stored_map (gs_store st) = fold (log_step (wired_guard w)) (L1 @ L2) Map.empty"
    unfolding wired_state_fields by auto
  from closed_written [OF assms(3) ok(1), of rs err_text] all(1,2) ok(2)
  have "map (written err_text) hs = reply_lines err_text cns rs" by simp
  with all show ?thesis by blast
qed

text \<open>C6: The audit trail of the live server. With a transport configured, at any moment of any schedule, the
  events of the replies given so far, in some order, are what the dispatcher was handed; what it
  accepted is a part of that order, each event at most once, and is exactly what the transport
  was called with, what it is being called with, and what the buffer of bounded size holds. While
  no more events than the buffer can hold have been emitted, none is lost.\<close>

theorem audit_trail_delivered:
  assumes "(server_step (wired_guard w))\<^sup>*\<^sup>* (map Reading cns, wired_state w (NewAsyncSink n)) (hs, st)"
    and "w_audit w = fst (buildAuditConfig path)" and "path \<noteq> []"
  shows "\<exists>E. mset E = mset (concat (map (emits (wired_guard w)) (all_stages hs))) \<and>
     subseq (sy_forwarded (gs_sink st) @ in_flight (gs_sink st) @ sy_ch (gs_sink st)) E \<and>
     length (sy_ch (gs_sink st)) \<le> max 1 n \<and>
     (if length E \<le> max 1 n
      then sy_forwarded (gs_sink st) @ in_flight (gs_sink st) @ sy_ch (gs_sink st) = E else True)"
proof -
  have "mg_audit (wired_guard w) = Some AsyncSink_Emit"
    using assms(2,3) by (simp add: buildAuditConfig_def isActive_def)
  from server_dispatched [OF assms(1) this] obtain E where "mset E = mset (announced (wired_guard w) hs)"
    "dispatched (max 1 n) E (gs_sink st)" by blast
  then show ?thesis by (intro exI [of _ E]) (auto simp: announced_def dispatched_def async_inv_def split: if_splits)
qed


text \<open>C4: No answered client is forgotten, as long as the file can hold what is stored: the server starts
  over a consistent file (it parses, ids differ, records fit, as in the empty one), and the entry of
  every write settled so far or about to be is UTF-8 with a record shorter than the 16 MiB a line
  may have (otherwise the file no longer opens, see theory Durable). Its clients are served
  concurrently; the process dies at any moment, between two pieces of its calls or with a save cut off
  at any of its system calls, having panicked or been killed. Then there is an order of calls, each
  the request of some connection at most once, that contains every call whose reply was written, with
  that reply; every reply in it is right for the entries stored at its turn; and the next process,
  whatever its configuration, opens the file and serves exactly the entries that the order leaves.\<close>

theorem server_crash_recovery:
  fixes w :: "async_state wiring" and w' :: "'j wiring"
  assumes "(server_step (durable_guard w created))\<^sup>*\<^sup>* (map Reading cns, durable_state w created fs0 (NewAsyncSink n)) (hs, st)"
    and "file_inv fs0" and "next_fits (durable_guard w created) storable (all_stages hs, st)"
    and "dies (durable_guard w created) created (all_stages hs, st) fs"
  shows "\<exists>L s. mset (map fst L) \<subseteq># mset (List.map_filter request_call cns) \<and>
     (\<forall>cn r. Closed cn (Some r) \<in> set hs \<longrightarrow> (\<exists>call. request_call cn = Some call \<and> (call, r) \<in> set L)) \<and>
     legal (durable_guard w created) (file_abs fs0) L \<and>
     open_guard w' created' fs k' = Inr (durable_guard w' created', s) \<and>
     serves_entries (durable_guard w' created') (fold (log_step (durable_guard w created)) L (file_abs fs0)) s"
proof -
  let ?g = "durable_guard w created"
  obtain k where ok: "list_all handler_ok hs" "map conn_of hs = cns"
    and run: "(cstep ?g)\<^sup>*\<^sup>* (arrivals (List.map_filter request_call cns), durable_state w created fs0 (NewAsyncSink n))
      (all_stages hs, st\<lparr>gs_sink := k\<rparr>)" by (rule server_reaches [OF assms(1)])
  have fits: "next_fits ?g storable (all_stages hs, st\<lparr>gs_sink := k\<rparr>)"
    using assms(3) stage_step_sink [where g = ?g and st = st and k = k] by (simp add: next_fits_def)
  have dies: "dies ?g created (all_stages hs, st\<lparr>gs_sink := k\<rparr>) fs" by (rule dies_sink [OF assms(4)])
  from crash_recovery [OF run assms(2) fits dies, where w' = w' and created' = created' and k' = k']
  obtain ts' st' L s where moved: "(ts', st') = (all_stages hs, st\<lparr>gs_sink := k\<rparr>) \<or> cstep ?g (all_stages hs, st\<lparr>gs_sink := k\<rparr>) (ts', st')"
    and L: "mset L = mset (concat (map (commits ?g) ts'))" "legal ?g (file_abs fs0) L"
      "\<forall>call r. Done call r \<in> set (all_stages hs) \<longrightarrow> (call, r) \<in> set L"
    and opens: "open_guard w' created' fs k' = Inr (durable_guard w' created', s)"
      "serves_entries (durable_guard w' created') (fold (log_step ?g) L (file_abs fs0)) s" by blast
  have "map call_of ts' = List.map_filter request_call cns"
    using moved all_stages_calls [OF ok(1)] ok(2) by (auto dest: cstep_calls)
  with commits_calls [of ?g ts'] L(1) have "mset (map fst L) \<subseteq># mset (List.map_filter request_call cns)"
    by (simp add: mset_map)
  moreover have "\<exists>call. request_call cn = Some call \<and> (call, r) \<in> set L" if "Closed cn (Some r) \<in> set hs" for cn r
    using closed_done [OF that ok(1)] L(3) by blast
  ultimately show ?thesis using L(2) opens by blast
qed

text \<open>A sample run: one client asks to review an id that is not there, with a transport configured.\<close>

definition audited_wiring :: "async_state wiring" where
  "audited_wiring = \<lparr>w_order = w_order plain_wiring, w_lower = w_lower plain_wiring, w_detector = w_detector plain_wiring,
     w_two_index = False, w_audit = fst (buildAuditConfig ''/run/audit.sock''), w_policy = zero_policy, w_inspector = None\<rparr>"

definition review_connection :: connection where
  "review_connection = \<lparr>cn_env = sample_env ''AAAAAA'',
     cn_line = json_line (JObj [(''op'', JStr ''review_quarantine''), (''id'', JStr ''a'')]), cn_failed = False\<rparr>"

lemma review_connection_call: "request_call review_connection = Some (CReview ''a'')"
proof -
  have "valid_utf8 ''op''" "valid_utf8 ''review_quarantine''" "valid_utf8 ''id''" "valid_utf8 ''a''"
    by (rule valid_utf8_ascii, code_simp)+
  then have "unmarshal_map (json_line (JObj [(''op'', JStr ''review_quarantine''), (''id'', JStr ''a'')])) =
      Some (map_of (rev [(''op'', JStr ''review_quarantine''), (''id'', JStr ''a'')]))"
    by (intro unmarshal_line) (simp_all add: maxNestingDepth_def)
  moreover have "json_line v \<noteq> []" for v by (simp add: json_line_def)
  ultimately show ?thesis by (simp add: request_call_def review_connection_def str_def)
qed

lemma review_run:
  "(server_step (wired_guard w) ^^ 4) (map Reading [review_connection], wired_state w k)
     ([Closed review_connection (Some (fetched_reply (mg_det (wired_guard w)) None))], wired_state w k)"
proof -
  let ?g = "wired_guard w" and ?st = "wired_state w k"
  have none: "ms_Get (either_ops (in_memory_ops (w_order w)) (two_index_ops (w_order w))) ''a'' (gs_store ?st) = None"
    using wired.st.get_abs [OF wired_state_fields(2), where w = w and i = "''a''" and w1 = w and k1 = k] by simp
  have step: "server_step ?g ([h], ?st) ([h'], ?st)" if "handler_step ?g h ?st h' ?st" for h h'
    using server_step.handle [OF that, of "[]" "[]"] by simp
  let ?r = "fetched_reply (mg_det ?g) None"
  have s1: "server_step ?g (map Reading [review_connection], ?st) ([Serving review_connection (Arrived (CReview ''a''))], ?st)"
    using step [OF handler_step.arrive [OF review_connection_call]] by simp
  have s2: "server_step ?g ([Serving review_connection (Arrived (CReview ''a''))], ?st)
      ([Serving review_connection (Fetched (CReview ''a'') None)], ?st)"
    by (rule step, rule handler_step.piece) (simp_all add: none)
  have s3: "server_step ?g ([Serving review_connection (Fetched (CReview ''a'') None)], ?st)
      ([Serving review_connection (Done (CReview ''a'') ?r)], ?st)"
    by (rule step, rule handler_step.piece) simp_all
  have s4: "server_step ?g ([Serving review_connection (Done (CReview ''a'') ?r)], ?st)
      ([Closed review_connection (Some ?r)], ?st)"
    by (rule step, rule handler_step.reply)
  have "(server_step ?g ^^ Suc (Suc (Suc (Suc 0)))) (map Reading [review_connection], ?st)
      ([Closed review_connection (Some ?r)], ?st)"
    by (rule relpowp_Suc_I [where P = "server_step ?g"], rule relpowp_Suc_I [where P = "server_step ?g"],
        rule relpowp_Suc_I [where P = "server_step ?g"], rule relpowp_Suc_I [where P = "server_step ?g"],
        rule relpowp_0_I) (rule s1 s2 s3 s4)+
  then show ?thesis by (simp only: numeral_eq_Suc pred_numeral_simps BitM.simps)
qed

theorem server_linearizes_witness:
  "\<exists>r L. written (\<lambda>t. t) (Closed review_connection (Some (fetched_reply (mg_det (wired_guard audited_wiring)) None))) =
       Some (json_line (reply_json r)) \<and> mset L = mset [(CReview ''a'', r)] \<and> legal (wired_guard audited_wiring) Map.empty L"
proof -
  have run: "(server_step (wired_guard audited_wiring))\<^sup>*\<^sup>* (map Reading [review_connection], wired_state audited_wiring (NewAsyncSink 256))
     ([Closed review_connection (Some (fetched_reply (mg_det (wired_guard audited_wiring)) None))], wired_state audited_wiring (NewAsyncSink 256))"
    by (rule relpowp_imp_rtranclp [OF review_run])
  from server_linearizes [OF rtranclp.rtrancl_refl run, of "\<lambda>t. t"] obtain rs L1 L2 where
    out: "map (written (\<lambda>t. t)) [Closed review_connection (Some (fetched_reply (mg_det (wired_guard audited_wiring)) None))] =
      reply_lines (\<lambda>t. t) [review_connection] rs"
    and "mset (L1 @ L2) = mset (zip (List.map_filter request_call [review_connection]) rs)"
    and len: "length rs = length (List.map_filter request_call [review_connection])"
    and "legal (wired_guard audited_wiring) Map.empty (L1 @ L2)" by auto
  moreover from len obtain r where "rs = [r]"
    by (auto simp: map_filter_simps review_connection_call length_Suc_conv)
  ultimately show ?thesis
    by (intro exI [of _ r] exI [of _ "L1 @ L2"]) (simp add: map_filter_simps review_connection_call del: written.simps)
qed

theorem audit_trail_delivered_witness:
  "\<exists>E. mset E = mset (concat (map (emits (wired_guard audited_wiring)) [Done (CReview ''a'') (fetched_reply (mg_det (wired_guard audited_wiring)) None)])) \<and>
     subseq (sy_forwarded (gs_sink (wired_state audited_wiring (NewAsyncSink 256)))) E"
proof -
  have "w_audit audited_wiring = fst (buildAuditConfig ''/run/audit.sock'')" by (simp add: audited_wiring_def)
  from audit_trail_delivered [OF relpowp_imp_rtranclp [OF review_run] this]
  obtain E where "mset E = mset (concat (map (emits (wired_guard audited_wiring)) (all_stages
      [Closed review_connection (Some (fetched_reply (mg_det (wired_guard audited_wiring)) None))])))"
    "subseq (sy_forwarded (gs_sink (wired_state audited_wiring (NewAsyncSink 256))) @
       in_flight (gs_sink (wired_state audited_wiring (NewAsyncSink 256))) @
       sy_ch (gs_sink (wired_state audited_wiring (NewAsyncSink 256)))) E" by auto
  then show ?thesis
    by (intro exI [of _ E]) (auto simp: all_stages_def review_connection_call dest: list_emb_appendD)
qed


text \<open>A sample death: the server over a new file is killed while it saves the phrase that a client sent, seven bytes
  into the snapshot.\<close>

definition write_connection :: connection where
  "write_connection = \<lparr>cn_env = sample_env ''AAAAAA'',
     cn_line = json_line (JObj [(''op'', JStr ''validate_write''), (''entry'', JStr phrase)]), cn_failed = False\<rparr>"

abbreviation phrase_call :: guard_call where
  "phrase_call \<equiv> CWrite (sample_env ''AAAAAA'') phrase Map.empty [[]]"

lemma write_connection_call: "request_call write_connection = Some phrase_call"
proof -
  have "valid_utf8 ''op''" "valid_utf8 ''validate_write''" "valid_utf8 ''entry''" "valid_utf8 phrase"
    by (rule valid_utf8_ascii, code_simp)+
  then have "unmarshal_map (json_line (JObj [(''op'', JStr ''validate_write''), (''entry'', JStr phrase)])) =
      Some (map_of (rev [(''op'', JStr ''validate_write''), (''entry'', JStr phrase)]))"
    by (intro unmarshal_line) (simp_all add: maxNestingDepth_def)
  moreover have "json_line v \<noteq> []" for v by (simp add: json_line_def)
  ultimately show ?thesis by (simp add: request_call_def write_connection_def str_def as_map_def)
qed

lemma audited_fields [simp]:
  "w_detector audited_wiring = NativeValue NewNativeDetector" "w_inspector audited_wiring = None"
  by (simp_all add: audited_wiring_def plain_wiring_def)

lemma piece_at:
  assumes "(server_step g)\<^sup>*\<^sup>* cfg ([Serving cn t], st)" and "\<not> finished t" and "stage_step g t st = (t', st')"
  shows "(server_step g)\<^sup>*\<^sup>* cfg ([Serving cn t'], st')"
proof -
  have "server_step g ([] @ Serving cn t # [], st) ([] @ Serving cn t' # [], st')"
    by (intro server_step.handle handler_step.piece assms(2,3))
  with assms(1) show ?thesis by (simp add: rtranclp.rtrancl_into_rtrancl)
qed

lemma phrase_run:
  "(server_step (durable_guard audited_wiring created))\<^sup>*\<^sup>*
     (map Reading [write_connection], durable_state audited_wiring created fresh_path k)
     ([Serving write_connection (Inspected phrase_call [])], durable_state audited_wiring created fresh_path k)"
    (is "(server_step ?g)\<^sup>*\<^sup>* (_, ?st) _")
proof -
  have det: "det_of (NativeValue NewNativeDetector) = det_of (w_detector plain_wiring)" by (simp add: plain_wiring_def)
  note facts = phrase_facts [folded det, unfolded det_of.simps]
  have "server_step ?g ([] @ Reading write_connection # [], ?st) ([] @ Serving write_connection (Arrived phrase_call) # [], ?st)"
    by (intro server_step.handle handler_step.arrive write_connection_call)
  then have "(server_step ?g)\<^sup>*\<^sup>* (map Reading [write_connection], ?st) ([Serving write_connection (Arrived phrase_call)], ?st)"
    by (intro r_into_rtranclp) simp
  then have "(server_step ?g)\<^sup>*\<^sup>* (map Reading [write_connection], ?st) ([Serving write_connection (Screened phrase_call [])], ?st)"
    by (rule piece_at) (simp_all add: facts)
  then have "(server_step ?g)\<^sup>*\<^sup>* (map Reading [write_connection], ?st) ([Serving write_connection (Keyed phrase_call [])], ?st)"
    by (rule piece_at) (simp_all add: key_stage_def firstKey_def)
  then show ?thesis by (rule piece_at) (simp_all add: inspect_stage_def)
qed

theorem server_crash_recovery_witness:
  "\<exists>s. open_guard keyed_wiring 384
         (crashed_save 384 [recordFrom ''mem-414141414141'' phrase_entry] 1 7 fresh_path) () =
       Inr (durable_guard keyed_wiring 384, s)"
proof -
  let ?g = "durable_guard audited_wiring 384" and ?st = "durable_state audited_wiring 384 fresh_path (NewAsyncSink 256)"
  let ?hs = "[Serving write_connection (Inspected phrase_call [])]"
  have stages: "all_stages ?hs = [Inspected phrase_call []]" by (simp add: all_stages_def)
  have e: "entry_of_write ?g phrase Map.empty [] = phrase_entry" by (rule phrase_stored) simp
  have "next_fits ?g storable (all_stages ?hs, ?st)"
    using phrase_entry_storable by (simp add: stages next_fits_def stored_reply_def sample_minted e)
  moreover have "dies ?g 384 (all_stages ?hs, ?st)
      (crashed_save 384 (put_record (recordFrom ''mem-414141414141'' phrase_entry) []) 1 7 fresh_path)"
    using dies.storing [of "sample_env ''AAAAAA''" phrase Map.empty "[[]]" "[]" "all_stages ?hs" ?st fresh_path "[]" ?g 384 1 7]
    by (simp add: stages sample_minted e fresh_path_load)
  ultimately show ?thesis
    using server_crash_recovery [OF phrase_run fresh_path_inv(1), where w' = keyed_wiring and created' = 384 and k' = "()"]
    by fastforce
qed

end
