(* ===== verification/Sidecar.thy ===== *)
theory Sidecar
  imports Presidio FileStore Transport Float64
begin

text \<open>
  The bytes between the composite detector (src/detector\_presidio.go) and its analyzer process
  (src/presidio/sidecar.py): the request line, the readiness line and the response as the detector
  decodes them, and the loop of the process, whose JSON library escapes and spaces differently. The
  analyzer inside the process is a third-party engine and an argument, and so is the reading half of
  Python's JSON library, of which the properties assume only that it reads what Go writes.
\<close>

section \<open>The detector's side\<close>

definition analyze_request :: "string \<Rightarrow> string" where
  "analyze_request t = json_line (JObj [(''op'', JStr ''analyze''), (''text'', JStr t)])"

text \<open>Numbers into an int field (a literal with a fraction or an exponent is an error, and so is one out of
  range) and into a float64 field.\<close>

definition parse_int64 :: "string \<Rightarrow> int option" where
  "parse_int64 lit =
     (if \<not> int_literal lit then None
      else
        (let n = (if hd lit = CHR ''-'' then - dec_val (tl lit) else dec_val lit)
         in if - (2 ^ 63) \<le> n \<and> n < 2 ^ 63 then Some n else None))"

definition parse_float64 :: "string \<Rightarrow> rat option" where
  "parse_float64 lit =
     (if literal_value lit < float_overflow
      then Some (if hd lit = CHR ''-'' then - fl (literal_value lit) else fl (literal_value lit))
      else None)"

definition into_number :: "(string \<Rightarrow> 'n option) \<Rightarrow> json \<Rightarrow> 'n \<Rightarrow> 'n option" where
  "into_number parse v old = (case v of JNum lit \<Rightarrow> parse lit | JNull \<Rightarrow> Some old | _ \<Rightarrow> None)"

definition zero_entity :: presidioEntity where
  "zero_entity = \<lparr>pe_Type = [], pe_Start = 0, pe_End = 0, pe_Score = 0\<rparr>"

text \<open>Fields are found under case folding, later members win, null leaves a field as it is. A value of a wrong
  type anywhere is an error in the end.\<close>

definition entity_field :: "string \<times> json \<Rightarrow> presidioEntity \<Rightarrow> presidioEntity option" where
  "entity_field kv e =
     (let k = fold_name (fst kv); v = snd kv in
      if k = ''type'' then map_option (\<lambda>s. e\<lparr>pe_Type := s\<rparr>) (into_string v (pe_Type e))
      else if k = ''start'' then map_option (\<lambda>n. e\<lparr>pe_Start := n\<rparr>) (into_number parse_int64 v (pe_Start e))
      else if k = ''end'' then map_option (\<lambda>n. e\<lparr>pe_End := n\<rparr>) (into_number parse_int64 v (pe_End e))
      else if k = ''score'' then map_option (\<lambda>x. e\<lparr>pe_Score := x\<rparr>) (into_number parse_float64 v (pe_Score e))
      else Some e)"

fun entity_fields :: "(string \<times> json) list \<Rightarrow> presidioEntity \<Rightarrow> presidioEntity option" where
  "entity_fields [] e = Some e"
| "entity_fields (kv # kvs) e = (case entity_field kv e of None \<Rightarrow> None | Some e' \<Rightarrow> entity_fields kvs e')"

definition decode_entity :: "json \<Rightarrow> presidioEntity \<Rightarrow> presidioEntity option" where
  "decode_entity v e = (case v of JObj ms \<Rightarrow> entity_fields ms e | JNull \<Rightarrow> Some e | _ \<Rightarrow> None)"

text \<open>The decoder stores an array into the elements a slice already has, those between its length and its
  capacity included, so a repeated key merges into what an earlier one left.\<close>

fun decode_entities :: "json list \<Rightarrow> presidioEntity list \<Rightarrow> presidioEntity list option" where
  "decode_entities [] old = Some []"
| "decode_entities (v # vs) old =
     (case decode_entity v (if old = [] then zero_entity else hd old) of
        None \<Rightarrow> None
      | Some e \<Rightarrow> map_option ((#) e) (decode_entities vs (tl old)))"

record presidioResponse =
  ps_Entities :: "presidioEntity list"
  ps_spare :: "presidioEntity list"
  ps_Error :: string

definition zero_response :: presidioResponse where
  "zero_response = \<lparr>ps_Entities = [], ps_spare = [], ps_Error = []\<rparr>"

definition response_field :: "string \<times> json \<Rightarrow> presidioResponse \<Rightarrow> presidioResponse option" where
  "response_field kv r =
     (let k = fold_name (fst kv); v = snd kv; old = ps_Entities r @ ps_spare r in
      if k = ''entities'' then
        (case v of
           JNull \<Rightarrow> Some (r\<lparr>ps_Entities := [], ps_spare := []\<rparr>)
         | JArr vs \<Rightarrow>
             map_option (\<lambda>es. r\<lparr>ps_Entities := es, ps_spare := (if es = [] then [] else drop (length es) old)\<rparr>)
               (decode_entities vs old)
         | _ \<Rightarrow> None)
      else if k = ''error'' then map_option (\<lambda>s. r\<lparr>ps_Error := s\<rparr>) (into_string v (ps_Error r))
      else Some r)"

fun response_fields :: "(string \<times> json) list \<Rightarrow> presidioResponse \<Rightarrow> presidioResponse option" where
  "response_fields [] r = Some r"
| "response_fields (kv # kvs) r = (case response_field kv r of None \<Rightarrow> None | Some r' \<Rightarrow> response_fields kvs r')"

definition decode_response :: "string \<Rightarrow> presidioResponse option" where
  "decode_response line =
     (case json_parse line of
        Some (JObj ms) \<Rightarrow> response_fields ms zero_response
      | Some JNull \<Rightarrow> Some zero_response
      | _ \<Rightarrow> None)"

text \<open>\<open>ReadString\<close> on what the process has written: a line with its newline, or an error when the bytes end
  before one.\<close>

definition read_line :: "string \<Rightarrow> string option" where
  "read_line out =
     (if CHR 0x0A \<in> set out then Some (takeWhile (\<lambda>c. c \<noteq> CHR 0x0A) out @ [CHR 0x0A]) else None)"

definition exchange_reply :: "bool \<Rightarrow> string \<Rightarrow> sidecar_reply" where
  "exchange_reply written out =
     (if \<not> written then WriteFails
      else (case read_line out of
        None \<Rightarrow> ReadFails
      | Some line \<Rightarrow>
          (case decode_response (trim_space line) of
             None \<Rightarrow> Undecodable
           | Some r \<Rightarrow> Answer (ps_Entities r) (ps_Error r))))"

text \<open>Spawning went well; what the first line makes of it.\<close>

definition ready_outcome :: "string \<Rightarrow> start_outcome" where
  "ready_outcome out =
     (case read_line out of
        None \<Rightarrow> ReadinessReadFails
      | Some line \<Rightarrow>
          (case unmarshal_map (trim_space line) of
             None \<Rightarrow> ReadinessGarbled
           | Some ready \<Rightarrow> if ready ''ready'' = Some (JBool True) then ProcessReady else NotReady))"

section \<open>The process's side\<close>

text \<open>Python's \<open>json.dumps\<close>: ASCII only, a space after commas and colons. A rune beyond the basic plane is a
  surrogate pair.\<close>

definition py_rune :: "rune \<Rightarrow> string" where
  "py_rune r =
     (if r = 0x22 then [backslash, quote_char]
      else if r = 0x5C then [backslash, backslash]
      else if r = 0x08 then [backslash, CHR ''b'']
      else if r = 0x0C then [backslash, CHR ''f'']
      else if r = 0x0A then [backslash, CHR ''n'']
      else if r = 0x0D then [backslash, CHR ''r'']
      else if r = 0x09 then [backslash, CHR ''t'']
      else if 32 \<le> r \<and> r \<le> 126 then [byte_of r]
      else if r < 0x10000 then u_escape r
      else u_escape (0xD800 + (r - 0x10000) div 1024) @ u_escape (0xDC00 + (r - 0x10000) mod 1024))"

definition py_escape :: "string \<Rightarrow> string" where
  "py_escape s = concat (map py_rune (runes s))"

definition python_style :: json_style where
  "python_style = \<lparr>js_esc = py_escape, js_open = (\<lambda>_. []), js_sep = (\<lambda>_. '' ''), js_close = (\<lambda>_. []), js_colon = '' ''\<rparr>"

definition py_reply :: "json \<Rightarrow> string" where
  "py_reply v = json_print python_style 0 v @ [CHR 0x0A]"

text \<open>A result of the analyzer. The score is rounded to four decimals and held in ten-thousandths; as a float
  its decimals are printed without trailing zeros, at least one of them.\<close>

record analyzer_result =
  ar_type :: string
  ar_start :: int
  ar_end :: int
  ar_score :: int

definition score_digits :: "int \<Rightarrow> string" where
  "score_digits k = map digit_char [k div 1000 mod 10, k div 100 mod 10, k div 10 mod 10, k mod 10]"

definition score_decimals :: "int \<Rightarrow> string" where
  "score_decimals k =
     (let ds = rev (dropWhile (\<lambda>c. c = CHR ''0'') (rev (score_digits k))) in if ds = [] then ''0'' else ds)"

definition py_score :: "int \<Rightarrow> string" where
  "py_score k = nat_dec (k div 10000) @ CHR ''.'' # score_decimals k"

definition result_json :: "analyzer_result \<Rightarrow> json" where
  "result_json r = JObj
     [(''type'', JStr (ar_type r)), (''start'', JNum (int_dec (ar_start r))), (''end'', JNum (int_dec (ar_end r))),
      (''score'', JNum (py_score (ar_score r)))]"

text \<open>One turn of the loop: a blank line is skipped, an object is answered, anything else that is JSON makes
  the process die (\<open>req.get\<close>). \<open>Inl\<close> is an exception's text; \<open>op_repr\<close> prints an unknown operation.\<close>

datatype py_action = Skips | Writes string | Dies

definition py_strip :: "string \<Rightarrow> string" where
  "py_strip s =
     (let ws = space_seqs @ [[CHR 0x1C], [CHR 0x1D], [CHR 0x1E], [CHR 0x1F]]
      in rev (strip_left (map rev ws) (rev (strip_left ws s))))"

definition py_error :: "string \<Rightarrow> py_action" where
  "py_error msg = Writes (py_reply (JObj [(''error'', JStr msg)]))"

definition sidecar_turn ::
  "(string \<Rightarrow> string + json) \<Rightarrow> (string \<Rightarrow> string + analyzer_result list) \<Rightarrow> (json option \<Rightarrow> string) \<Rightarrow> string \<Rightarrow> py_action" where
  "sidecar_turn loads analyzer op_repr raw =
     (let line = py_strip raw in
      if line = [] then Skips
      else (case loads line of
        Inl exc \<Rightarrow> py_error (''bad json: '' @ exc)
      | Inr (JObj ms) \<Rightarrow>
          (let req = map_of (rev ms); op_value = req ''op'' in
           if op_value = Some (JStr ''ping'') then Writes (py_reply (JObj [(''ok'', JBool True)]))
           else if op_value \<noteq> Some (JStr ''analyze'') then py_error (''unknown op: '' @ op_repr op_value)
           else (case (case req ''text'' of None \<Rightarrow> JStr [] | Some t \<Rightarrow> t) of
             JStr t \<Rightarrow>
               (case analyzer t of
                  Inl exc \<Rightarrow> py_error (''analyze failed: '' @ exc)
                | Inr rs \<Rightarrow> Writes (py_reply (JObj [(''entities'', JArr (map result_json rs))])))
           | _ \<Rightarrow> py_error ''text must be a string''))
      | Inr _ \<Rightarrow> Dies))"

text \<open>What the process writes first, after importing the engine or failing to.\<close>

definition sidecar_banner :: "string option \<Rightarrow> string" where
  "sidecar_banner import_error =
     py_reply (case import_error of
        None \<Rightarrow> JObj [(''ready'', JBool True)]
      | Some exc \<Rightarrow> JObj [(''error'', JStr (''presidio import failed: '' @ exc))])"

section \<open>Python's strings are read back\<close>

definition scalar_rune :: "rune \<Rightarrow> bool" where
  "scalar_rune r \<longleftrightarrow> 0 \<le> r \<and> r \<le> 0x10FFFF \<and> \<not> (0xD800 \<le> r \<and> r < 0xE000)"

lemma scalar_error: "scalar_rune rune_error"
  by (simp add: scalar_rune_def rune_error_def)

lemma decode2_scalar: "0xC2 \<le> b \<Longrightarrow> b \<le> 0xDF \<Longrightarrow> scalar_rune (fst (decode2 b bs))"
  by (cases bs) (auto simp: decode2_def rune_error_def cont_byte_def scalar_rune_def)

lemma decode3_scalar:
  assumes "0xE0 \<le> b" and "b \<le> 0xEF"
  shows "scalar_rune (fst (decode3 b bs))"
proof (cases "\<exists>x y zs. bs = x # y # zs \<and> (if b = 0xE0 then 0xA0 else 0x80) \<le> x \<and>
    x \<le> (if b = 0xED then 0x9F else 0xBF) \<and> cont_byte y")
  case True
  then obtain x y zs where bs: "bs = x # y # zs" and x: "0x80 \<le> x" "x \<le> (if b = 0xED then 0x9F else 0xBF)"
    and ok: "(if b = 0xE0 then 0xA0 else 0x80) \<le> x" "0x80 \<le> y" "y \<le> 0xBF" "cont_byte y"
    by (auto simp: cont_byte_def split: if_splits)
  then have r: "fst (decode3 b bs) = (b - 0xE0) * 4096 + (x - 0x80) * 64 + (y - 0x80)" by (simp add: decode3_def)
  consider "b < 0xED" | "b = 0xED" | "0xED < b" by linarith
  then show ?thesis
  proof cases
    case 2
    then show ?thesis using assms x ok(2,3) unfolding r scalar_rune_def by simp
  qed (use assms x ok(2,3) in \<open>simp_all add: r scalar_rune_def\<close>)
next
  case False
  then have "fst (decode3 b bs) = rune_error" by (cases bs; cases "tl bs") (auto simp: decode3_def)
  then show ?thesis by (simp add: scalar_error)
qed

lemma decode4_scalar:
  assumes "0xF0 \<le> b" and "b \<le> 0xF4"
  shows "scalar_rune (fst (decode4 b bs))"
proof (cases "\<exists>w x y zs. bs = w # x # y # zs \<and> (if b = 0xF0 then 0x90 else 0x80) \<le> w \<and>
    w \<le> (if b = 0xF4 then 0x8F else 0xBF) \<and> cont_byte x \<and> cont_byte y")
  case True
  then obtain w x y zs where bs: "bs = w # x # y # zs" and ok: "(if b = 0xF0 then 0x90 else 0x80) \<le> w"
    "w \<le> (if b = 0xF4 then 0x8F else 0xBF)" "cont_byte x" "cont_byte y" by blast
  then have "fst (decode4 b bs) = (b - 0xF0) * 262144 + (w - 0x80) * 4096 + (x - 0x80) * 64 + (y - 0x80)"
    by (simp add: decode4_def)
  with ok assms show ?thesis by (cases "b = 0xF0"; cases "b = 0xF4") (simp_all add: scalar_rune_def cont_byte_def)
next
  case False
  then have "fst (decode4 b bs) = rune_error"
    by (cases bs; cases "tl bs"; cases "tl (tl bs)") (auto simp: decode4_def)
  then show ?thesis by (simp add: scalar_error)
qed

lemma decode_rune_scalar: "scalar_rune (fst (decode_rune c s))"
  using byte_val_range [of c]
  by (simp add: decode_rune_def Let_def decode2_scalar decode3_scalar decode4_scalar scalar_error) (simp add: scalar_rune_def)

lemma runes_scalar: "list_all scalar_rune (runes s)"
proof (induction s rule: runes.induct)
  case (2 c s)
  obtain r n where dec: "decode_rune c s = (r, n)" by fastforce
  with decode_rune_scalar [of c s] 2 [OF dec [symmetric] refl] show ?case by (simp add: runes.simps(2))
qed simp

lemma hex4_u:
  assumes "0 \<le> r" and "r < 65536"
  shows "hex4 (hex_byte (byte_of (r div 256)) @ hex_byte (byte_of (r mod 256)) @ s) = Some (r, s)"
proof -
  have hi: "byte_val (byte_of (r div 256) :: char) = r div 256" using assms by (simp add: mod_pos_pos_trivial)
  have lo: "byte_val (byte_of (r mod 256) :: char) = r mod 256" by simp
  show ?thesis unfolding hex4_bytes hi lo by simp
qed

lemma byte_of_neq: "0 \<le> r \<Longrightarrow> r < 256 \<Longrightarrow> r \<noteq> byte_val c \<Longrightarrow> byte_of r \<noteq> c"
proof
  assume "0 \<le> r" "r < 256" "r \<noteq> byte_val c" "byte_of r = c"
  have "byte_val (byte_of r :: char) = r" using \<open>0 \<le> r\<close> \<open>r < 256\<close> by (simp add: mod_pos_pos_trivial)
  with \<open>r \<noteq> byte_val c\<close> \<open>byte_of r = c\<close> show False by simp
qed

lemma parse_str_py_rune:
  assumes "scalar_rune r"
  shows "parse_str (py_rune r @ s) = map_option (apfst ((@) (encode_rune r))) (parse_str s)"
proof -
  have range: "0 \<le> r" "r \<le> 0x10FFFF" "\<not> (0xD800 \<le> r \<and> r < 0xE000)" using assms by (simp_all add: scalar_rune_def)
  let ?short = "{0x22, 0x5C, 0x08, 0x0C, 0x0A, 0x0D, 0x09} :: int set"
  consider (short) "r \<in> ?short" | (plain) "32 \<le> r" "r \<le> 126" "r \<notin> ?short"
    | (unit) "r \<notin> ?short" "\<not> (32 \<le> r \<and> r \<le> 126)" "r < 0x10000" | (pair) "0x10000 \<le> r" by linarith
  then show ?thesis
  proof cases
    case short
    have "byte_of 0x22 = quote_char" "byte_of 0x5C = backslash" "byte_of 0x08 = CHR 0x08" "byte_of 0x0C = CHR 0x0C"
      "byte_of 0x0A = CHR 0x0A" "byte_of 0x0D = CHR 0x0D" "byte_of 0x09 = CHR 0x09" by code_simp+
    with short show ?thesis
      by (auto simp: py_rune_def parse_str_escape parse_escape_def encode_rune_width(1))
  next
    case plain
    have b: "byte_val (byte_of r :: char) = r" using plain by (simp add: mod_pos_pos_trivial)
    have "byte_of r \<noteq> quote_char" "byte_of r \<noteq> backslash"
      using plain by (intro byte_of_neq; simp)+
    moreover have "py_rune r = [byte_of r]" using plain by (simp add: py_rune_def)
    ultimately show ?thesis using b plain
      by (simp add: parse_str.simps(2) decode_rune_ascii encode_rune_width(1))
  next
    case unit
    then have "py_rune r = u_escape r" by (auto simp: py_rune_def)
    with unit range parse_str_u_escape [of r s] show ?thesis by auto
  next
    case pair
    define hi lo where "hi = 0xD800 + (r - 0x10000) div 1024" and "lo = 0xDC00 + (r - 0x10000) mod 1024"
    have hi: "0xD800 \<le> hi" "hi < 0xDC00" using pair range by (auto simp: hi_def)
    have lo: "0xDC00 \<le> lo" "lo < 0xE000" by (simp_all add: lo_def)
    have "(hi - 0xD800) * 1024 + (lo - 0xDC00) + 0x10000 = r"
      using div_mult_mod_eq [of "r - 0x10000" 1024] by (simp add: hi_def lo_def)
    moreover have "low_surrogate (u_escape lo @ s) = Some (lo, s)"
      using lo hex4_u [of lo s] by (simp add: low_surrogate_def u_escape_def)
    moreover have "py_rune r = u_escape hi @ u_escape lo" using pair by (simp add: py_rune_def hi_def lo_def)
    moreover have "hex4 (hex_byte (byte_of (hi div 256)) @ hex_byte (byte_of (hi mod 256)) @ x) = Some (hi, x)" for x
      using hi by (intro hex4_u) auto
    ultimately have "parse_escape (CHR ''u'' # hex_byte (byte_of (hi div 256)) @ hex_byte (byte_of (hi mod 256)) @ u_escape lo @ s) =
        Some (encode_rune r, s)"
      using hi by (simp add: parse_escape_def)
    then show ?thesis
      by (simp add: \<open>py_rune r = u_escape hi @ u_escape lo\<close> u_escape_def [of hi] parse_str_escape)
  qed
qed

lemma parse_py_escape: "parse_str (py_escape s @ quote_char # rest) = Some (sanitize s, rest)"
proof -
  have "parse_str (concat (map py_rune rs) @ quote_char # rest) = Some (concat (map encode_rune rs), rest)"
    if "list_all scalar_rune rs" for rs
    using that by (induction rs) (simp_all add: parse_str_py_rune)
  from this [OF runes_scalar] show ?thesis by (simp add: py_escape_def sanitize_def)
qed

lemma py_rune_no_newline: "CHR 0x0A \<notin> set (py_rune r)"
proof (cases "32 \<le> r \<and> r \<le> 126")
  case True
  then have "byte_of r \<noteq> CHR 0x0A" by (intro byte_of_neq) simp_all
  with True show ?thesis by (simp add: py_rune_def)
qed (use hex_byte_no_newline in \<open>auto simp: py_rune_def u_escape_def\<close>)

lemma python_fields [simp]:
  "js_esc python_style = py_escape" "js_open python_style n = []" "js_sep python_style n = '' ''"
  "js_close python_style n = []" "js_colon python_style = '' ''"
  by (simp_all add: python_style_def)

interpretation python: line_printer python_style
proof unfold_locales
  show "valid_utf8 s \<Longrightarrow> parse_str (js_esc python_style s @ quote_char # rest) = Some (s, rest)" for s rest
    using parse_py_escape [of s rest] by (simp add: valid_utf8_def)
  show "CHR 0x0A \<notin> set (js_esc python_style s)" for s
    using py_rune_no_newline by (simp add: py_escape_def)
qed (simp_all add: json_ws_def)

section \<open>Python's numbers are read back\<close>

lemma dec_val_snoc: "dec_val (ds @ [c]) = 10 * dec_val ds + (byte_val c - 48)"
  by (simp add: dec_val_def)

lemma dec_val_zeros: "dec_val (ds @ replicate j CHR ''0'') = dec_val ds * 10 ^ j"
proof (induction j)
  case (Suc j)
  have "ds @ replicate (Suc j) CHR ''0'' = (ds @ replicate j CHR ''0'') @ [CHR ''0'']"
    by (simp add: replicate_append_same)
  then show ?case by (simp only: dec_val_snoc Suc) simp
qed simp

lemma parse_int64_int_dec:
  assumes "- (2 ^ 63) \<le> n" and "n < 2 ^ 63"
  shows "parse_int64 (int_dec n) = Some n"
proof (cases "n < 0")
  case True
  with assms show ?thesis using int_literal_int_dec [of n] by (simp add: parse_int64_def int_dec_def dec_val_nat_dec)
next
  case False
  then have "hd (nat_dec n) \<noteq> CHR ''-''" using nat_dec_unsigned [of n "tl (nat_dec n)"] by (metis nat_dec_nonempty list.collapse not_less)
  with False assms show ?thesis
    using int_literal_int_dec [of n] by (simp add: parse_int64_def int_dec_def dec_val_nat_dec)
qed

text \<open>A literal of digits, a point and digits.\<close>

lemma digit_run:
  "list_all digit_byte ds \<Longrightarrow> takeWhile digit_byte ds = ds"
  "list_all digit_byte ds \<Longrightarrow> dropWhile digit_byte ds = []"
  "list_all digit_byte ds \<Longrightarrow> takeWhile digit_byte (ds @ CHR ''.'' # r) = ds"
  "list_all digit_byte ds \<Longrightarrow> dropWhile digit_byte (ds @ CHR ''.'' # r) = CHR ''.'' # r"
proof -
  have point: "\<not> digit_byte CHR ''.''" by code_simp
  show "list_all digit_byte ds \<Longrightarrow> takeWhile digit_byte (ds @ CHR ''.'' # r) = ds"
    "list_all digit_byte ds \<Longrightarrow> dropWhile digit_byte (ds @ CHR ''.'' # r) = CHR ''.'' # r"
    by (induction ds) (simp_all add: point)
  show "list_all digit_byte ds \<Longrightarrow> takeWhile digit_byte ds = ds" "list_all digit_byte ds \<Longrightarrow> dropWhile digit_byte ds = []"
    by (induction ds) simp_all
qed

lemma digits_first: "list_all digit_byte w \<Longrightarrow> w \<noteq> [] \<Longrightarrow> hd w \<noteq> CHR ''-''"
  using digit_byte_facts by (cases w) auto

lemma literal_value_decimal:
  assumes "w \<noteq> []" and "list_all digit_byte w" and "list_all digit_byte ds"
  shows "literal_value (w @ CHR ''.'' # ds) = of_int (dec_val (w @ ds)) / 10 ^ length ds"
proof -
  have "digits_int = dec_val" by (simp add: fun_eq_iff digits_int_def dec_val_def)
  then show ?thesis
    unfolding literal_value_def Let_def
    using assms digits_first [OF assms(2,1)]
    by (simp only: digit_run hd_append2 append_is_Nil_conv) (simp add: digit_run)
qed

lemma number_literal_decimal:
  assumes "w \<noteq> []" and "list_all digit_byte w" and "ds \<noteq> []" and "list_all digit_byte ds"
    and "\<not> (hd w = CHR ''0'' \<and> tl w \<noteq> [])"
  shows "number_literal (w @ CHR ''.'' # ds)"
proof -
  have "span_digits (w @ CHR ''.'' # ds) = Some (w, CHR ''.'' # ds)" "span_digits ds = Some (ds, [])"
    using assms(1,3) by (simp_all add: span_digits_def Let_def digit_run assms(2,4) del: takeWhile_append2 dropWhile_append2)
  then show ?thesis
    using assms(1,5) digits_first [OF assms(2,1)]
    by (simp add: number_literal_def parse_number_def num_frac_def num_exp_def)
qed

lemma strip_zeros:
  obtains j where "ds = rev (dropWhile (\<lambda>c. c = CHR ''0'') (rev ds)) @ replicate j CHR ''0''"
proof -
  let ?z = "takeWhile (\<lambda>c. c = CHR ''0'') (rev ds)"
  have "ds = rev (dropWhile (\<lambda>c. c = CHR ''0'') (rev ds)) @ rev ?z"
    by (metis rev_append rev_rev_ident takeWhile_dropWhile_id)
  moreover have "?z = replicate (length ?z) CHR ''0''"
    by (rule replicate_eqI) (auto dest: set_takeWhileD)
  then have "rev ?z = replicate (length ?z) CHR ''0''" by (metis rev_replicate)
  ultimately show thesis using that by metis
qed

lemma score_digits_value: "0 \<le> k \<Longrightarrow> dec_val (nat_dec (k div 10000) @ score_digits k) = k"
proof -
  assume k: "0 \<le> k"
  have d: "k div 10000 = k div 10 div 10 div 10 div 10" "k div 1000 = k div 10 div 10 div 10" "k div 100 = k div 10 div 10"
    by (simp_all flip: zdiv_zmult2_eq)
  have "dec_val (nat_dec (k div 10000) @ score_digits k) =
      10 * (10 * (10 * (10 * (k div 10000) + k div 1000 mod 10) + k div 100 mod 10) + k div 10 mod 10) + k mod 10"
    using k by (simp add: dec_val_def score_digits_def digit_char_val)
      (simp flip: dec_val_def add: dec_val_nat_dec pos_imp_zdiv_nonneg_iff)
  also have "\<dots> = k" unfolding d by (simp add: mult_div_mod_eq)
  finally show ?thesis .
qed

lemma score_decimals_value:
  assumes "0 \<le> k"
  shows "dec_val (nat_dec (k div 10000) @ score_decimals k) * 10 ^ 4 = k * 10 ^ length (score_decimals k)"
proof -
  let ?w = "nat_dec (k div 10000)" and ?s = "rev (dropWhile (\<lambda>c. c = CHR ''0'') (rev (score_digits k)))"
  obtain j where j: "score_digits k = ?s @ replicate j CHR ''0''" by (rule strip_zeros)
  have k: "dec_val (?w @ ?s) * 10 ^ j = k"
    using score_digits_value [OF assms] dec_val_zeros [of "?w @ ?s" j] j by (metis append_assoc)
  have len: "length ?s + j = 4" using arg_cong [OF j, of length] by (simp add: score_digits_def)
  show ?thesis
  proof (cases "?s = []")
    case True
    with len have "j = 4" by simp
    moreover have "score_decimals k = ''0''" "dec_val (?w @ ''0'') = 10 * dec_val ?w"
      using True dec_val_snoc [of ?w "CHR ''0''"] by (simp_all add: score_decimals_def)
    ultimately show ?thesis using k True by simp
  next
    case False
    have "(10 :: int) ^ 4 = 10 ^ j * 10 ^ length ?s" using len by (metis power_add add.commute)
    moreover have "score_decimals k = ?s" unfolding score_decimals_def Let_def by (rule if_not_P [OF False])
    ultimately show ?thesis using k by (metis mult.assoc)
  qed
qed

lemma score_decimals_digits: "list_all digit_byte (score_decimals k) \<and> score_decimals k \<noteq> []"
proof -
  have "list_all digit_byte (score_digits k)" by (simp add: score_digits_def digit_char_digit)
  then have "list_all digit_byte (rev (dropWhile (\<lambda>c. c = CHR ''0'') (rev (score_digits k))))"
    by (auto simp: list_all_iff dest: set_dropWhileD)
  moreover have "digit_byte CHR ''0''" by code_simp
  ultimately show ?thesis by (simp add: score_decimals_def Let_def)
qed

lemma py_score_literal:
  assumes "0 \<le> k"
  shows "number_literal (py_score k)" and "literal_value (py_score k) = of_int k / 10000"
proof -
  let ?w = "nat_dec (k div 10000)" and ?ds = "score_decimals k"
  have q: "0 \<le> k div 10000" using assms by (simp add: pos_imp_zdiv_nonneg_iff)
  have "tl (nat_dec 0) = []" by code_simp
  then have "\<not> (hd ?w = CHR ''0'' \<and> tl ?w \<noteq> [])" using q nat_dec_first [of "k div 10000"] by (cases "k div 10000 = 0") auto
  with number_literal_decimal [OF _ nat_dec_digits [OF q]] score_decimals_digits
  show "number_literal (py_score k)" by (simp add: py_score_def)
  have "literal_value (py_score k) = of_int (dec_val (?w @ ?ds)) / 10 ^ length ?ds"
    using literal_value_decimal [OF _ nat_dec_digits [OF q], of "?ds"] score_decimals_digits [of k] by (simp add: py_score_def)
  moreover have "of_int (dec_val (?w @ ?ds)) * 10 ^ 4 = (of_int k * 10 ^ length ?ds :: rat)"
    using arg_cong [OF score_decimals_value [OF assms], of "of_int :: int \<Rightarrow> rat"] by simp
  then have "(of_int (dec_val (?w @ ?ds)) :: rat) = of_int k * 10 ^ length ?ds / 10 ^ 4" by (simp add: eq_divide_eq)
  ultimately show "literal_value (py_score k) = of_int k / 10000" by simp
qed

lemma parse_float64_score:
  assumes "0 \<le> k" and "k \<le> 10000"
  shows "parse_float64 (py_score k) = Some (fl (of_int k / 10000))"
proof -
  have "(of_int k / 10000 :: rat) \<le> 1" using assms by simp
  moreover have "(1 :: rat) < float_overflow" by (simp add: float_overflow_def)
  ultimately have "(of_int k / 10000 :: rat) < float_overflow" by (rule le_less_trans)
  moreover have "hd (py_score k) \<noteq> CHR ''-''"
    using nat_dec_unsigned [of "k div 10000" "tl (nat_dec (k div 10000))"] assms(1)
    by (auto simp: py_score_def pos_imp_zdiv_nonneg_iff) (metis nat_dec_nonempty list.collapse)
  ultimately show ?thesis
    unfolding parse_float64_def py_score_literal(2) [OF assms(1)] by (simp only: if_True if_False)
qed

section \<open>Lines between the two processes\<close>

lemma strip_line:
  assumes "lead_seq ws (CHR 0x7B # s @ [CHR 0x7D, CHR 0x0A]) = None" and "lead_seq (map rev ws) (CHR 0x0A # CHR 0x7D # rev s @ [CHR 0x7B]) = Some [CHR 0x0A]"
    and "lead_seq (map rev ws) (CHR 0x7D # rev s @ [CHR 0x7B]) = None"
  shows "rev (strip_left (map rev ws) (rev (strip_left ws (CHR 0x7B # s @ [CHR 0x7D, CHR 0x0A])))) = CHR 0x7B # s @ [CHR 0x7D]"
proof -
  have "strip_left ws (CHR 0x7B # s @ [CHR 0x7D, CHR 0x0A]) = CHR 0x7B # s @ [CHR 0x7D, CHR 0x0A]"
    by (rule strip_left_none [OF assms(1)])
  moreover have "strip_left (map rev ws) (CHR 0x0A # CHR 0x7D # rev s @ [CHR 0x7B]) = CHR 0x7D # rev s @ [CHR 0x7B]"
    using strip_left_none [OF assms(3)] by (subst strip_left.simps) (simp add: assms(2))
  ultimately show ?thesis by simp
qed

lemma trim_line: "trim_space (CHR 0x7B # s @ [CHR 0x7D, CHR 0x0A]) = CHR 0x7B # s @ [CHR 0x7D]"
  unfolding trim_space_def by (rule strip_line) (simp_all add: lead_seq_def space_seqs_def ascii_spaces_def)

lemma py_strip_line: "py_strip (CHR 0x7B # s @ [CHR 0x7D, CHR 0x0A]) = CHR 0x7B # s @ [CHR 0x7D]"
  unfolding py_strip_def Let_def by (rule strip_line) (simp_all add: lead_seq_def space_seqs_def ascii_spaces_def)

lemma print_object:
  assumes "ms \<noteq> []"
  obtains s where "json_print st n (JObj ms) = CHR 0x7B # s @ [CHR 0x7D]"
  using assms by simp

lemma read_line_one: "CHR 0x0A \<notin> set l \<Longrightarrow> read_line (l @ [CHR 0x0A]) = Some (l @ [CHR 0x0A])"
  by (induction l) (auto simp: read_line_def)

text \<open>A reply of the process, as the detector gets to see it.\<close>

lemma py_reply_line:
  assumes "json_wf (JObj ms)" and "ms \<noteq> []" and "json_depth (JObj ms) \<le> maxNestingDepth"
  obtains line where "read_line (py_reply (JObj ms)) = Some line" and "json_parse (trim_space line) = Some (JObj ms)"
proof
  let ?v = "json_print python_style 0 (JObj ms)"
  show "read_line (py_reply (JObj ms)) = Some (py_reply (JObj ms))"
    unfolding py_reply_def by (rule read_line_one [OF python.print_one_line [OF json_wf_one_line [OF assms(1)]]])
  obtain s where "?v = CHR 0x7B # s @ [CHR 0x7D]" by (rule print_object [OF assms(2)])
  then have "trim_space (py_reply (JObj ms)) = ?v" using trim_line [of s] by (simp add: py_reply_def)
  with python.print_roundtrip [OF assms(1,3), of "[]" 0] show "json_parse (trim_space (py_reply (JObj ms))) = Some (JObj ms)"
    by simp
qed

lemma exchange_py_reply:
  assumes "json_wf (JObj ms)" and "ms \<noteq> []" and "json_depth (JObj ms) \<le> maxNestingDepth"
  shows "exchange_reply True (py_reply (JObj ms)) =
     (case response_fields ms zero_response of None \<Rightarrow> Undecodable | Some r \<Rightarrow> Answer (ps_Entities r) (ps_Error r))"
  by (rule py_reply_line [OF assms]) (simp add: exchange_reply_def decode_response_def)

lemma protocol_names:
  "fold_name ''type'' = ''type''" "fold_name ''start'' = ''start''" "fold_name ''end'' = ''end''"
  "fold_name ''score'' = ''score''" "fold_name ''entities'' = ''entities''" "fold_name ''error'' = ''error''"
  "list_all valid_utf8 [''type'', ''start'', ''end'', ''score'', ''entities'', ''error'', ''ready'', ''op'', ''text'', ''analyze'']"
  by ((rule all_ascii_utf8)?, code_simp)+

text \<open>What the analyzer reports, as the detector holds it.\<close>

definition result_ok :: "analyzer_result \<Rightarrow> bool" where
  "result_ok r \<longleftrightarrow>
     valid_utf8 (ar_type r) \<and> - (2 ^ 63) \<le> ar_start r \<and> ar_start r < 2 ^ 63 \<and>
     - (2 ^ 63) \<le> ar_end r \<and> ar_end r < 2 ^ 63 \<and> 0 \<le> ar_score r \<and> ar_score r \<le> 10000"

definition reported :: "analyzer_result \<Rightarrow> presidioEntity" where
  "reported r = \<lparr>pe_Type = ar_type r, pe_Start = ar_start r, pe_End = ar_end r, pe_Score = fl (of_int (ar_score r) / 10000)\<rparr>"

lemma decode_reported: "result_ok r \<Longrightarrow> decode_entity (result_json r) e = Some (reported r)"
  by (simp add: result_ok_def result_json_def decode_entity_def entity_field_def protocol_names into_string_def
      into_number_def parse_int64_int_dec parse_float64_score reported_def)

lemma decode_all_reported: "list_all result_ok rs \<Longrightarrow> decode_entities (map result_json rs) old = Some (map reported rs)"
  by (induction rs arbitrary: old) (simp_all add: decode_reported)

lemma result_json_wf: "result_ok r \<Longrightarrow> json_wf (result_json r)"
  using protocol_names(7)
  by (simp add: result_json_def result_ok_def int_number_literal int_literal_int_dec py_score_literal(1))

lemma fold_max_le: "list_all (\<lambda>x. x \<le> n) xs \<Longrightarrow> m \<le> n \<Longrightarrow> fold max xs m \<le> (n :: nat)"
  by (induction xs arbitrary: m) simp_all

lemma results_depth: "json_depth (JObj [(''entities'', JArr (map result_json rs))]) \<le> maxNestingDepth"
proof -
  have "fold max (map json_depth (map result_json rs)) 0 \<le> 1"
    by (rule fold_max_le) (simp_all add: list_all_iff result_json_def)
  then show ?thesis by (simp add: maxNestingDepth_def comp_def)
qed

section \<open>Properties\<close>

text \<open>C32: The detector and its analyzer process understand each other. For any UTF-8 text, the process answers the
  detector's request, and the detector then redacts with exactly the results the
  analyzer reported on exactly that text: types and offsets unchanged, each score the binary64
  nearest to its four decimals. When the analyzer raises, the detector falls back to the native
  redaction and goes on speaking to the process. The first line of the process starts the detector.
  Python's reader is assumed to read the objects that Go's encoder writes.\<close>

theorem sidecar_protocol:
  assumes "\<And>ms. json_ok (JObj ms) \<Longrightarrow> json_depth (JObj ms) = 1 \<Longrightarrow> loads (json_encode (JObj ms)) = Inr (JObj ms)"
    and "valid_utf8 t" and "case analyzer t of Inl exc \<Rightarrow> valid_utf8 (''analyze failed: '' @ exc) | Inr rs \<Rightarrow> list_all result_ok rs"
    and "s \<in> {fresh_sidecar, running_sidecar}"
  shows "\<exists>out. sidecar_turn loads analyzer op_repr (analyze_request t) = Writes out \<and>
     presidio_call d (ready_outcome (sidecar_banner None)) (exchange_reply True out) t s =
       (presidio_RedactPII d (case analyzer t of Inl _ \<Rightarrow> None | Inr rs \<Rightarrow> Some (map reported rs)) t, running_sidecar)"
proof -
  let ?req = "[(''op'', JStr ''analyze''), (''text'', JStr t)]"
  obtain body where body: "json_encode (JObj ?req) = CHR 0x7B # body @ [CHR 0x7D]"
    by (rule print_object [of ?req compact_style 0]) (simp_all only: print_compact list.distinct not_False_eq_True)
  then have "py_strip (analyze_request t) = json_encode (JObj ?req)"
    using py_strip_line [of body] by (simp add: analyze_request_def json_line_def)
  moreover have "loads (json_encode (JObj ?req)) = Inr (JObj ?req)"
    by (rule assms(1)) (use assms(2) protocol_names(7) in simp_all)
  ultimately have turn: "sidecar_turn loads analyzer op_repr (analyze_request t) =
      (case analyzer t of Inl exc \<Rightarrow> py_error (''analyze failed: '' @ exc)
       | Inr rs \<Rightarrow> Writes (py_reply (JObj [(''entities'', JArr (map result_json rs))])))"
    by (simp add: sidecar_turn_def body)
  have "ready_outcome (sidecar_banner None) = ProcessReady"
    by (rule py_reply_line [of "[(''ready'', JBool True)]"])
      (use protocol_names(7) in \<open>simp_all add: maxNestingDepth_def sidecar_banner_def ready_outcome_def unmarshal_map_def\<close>)
  then have call: "presidio_call d (ready_outcome (sidecar_banner None)) (Answer es err) t s =
      (presidio_RedactPII d (if err = [] then Some es else None) t, running_sidecar)" for es err
    using assms(4) by (auto simp: presidio_call_def analyze_def startLocked_def fresh_sidecar_def running_sidecar_def)
  show ?thesis
  proof (cases "analyzer t")
    case (Inl exc)
    with assms(3) protocol_names(7) have "exchange_reply True (py_reply (JObj [(''error'', JStr (''analyze failed: '' @ exc))])) =
        Answer [] (''analyze failed: '' @ exc)"
      by (subst exchange_py_reply)
        (simp_all add: maxNestingDepth_def response_field_def protocol_names into_string_def zero_response_def)
    moreover have "sidecar_turn loads analyzer op_repr (analyze_request t) =
        Writes (py_reply (JObj [(''error'', JStr (''analyze failed: '' @ exc))]))" by (simp add: turn Inl py_error_def)
    ultimately show ?thesis by (simp add: call Inl)
  next
    case (Inr rs)
    with assms(3) have ok: "list_all result_ok rs" by simp
    then have "json_wf (JObj [(''entities'', JArr (map result_json rs))])"
      using protocol_names(7) result_json_wf by (auto simp: list_all_iff)
    from exchange_py_reply [OF this _ results_depth]
    have "exchange_reply True (py_reply (JObj [(''entities'', JArr (map result_json rs))])) = Answer (map reported rs) []"
      by (simp add: response_field_def protocol_names zero_response_def decode_all_reported [OF ok])
    moreover have "sidecar_turn loads analyzer op_repr (analyze_request t) =
        Writes (py_reply (JObj [(''entities'', JArr (map result_json rs))]))" by (simp add: turn Inr)
    ultimately show ?thesis by (simp add: call Inr)
  qed
qed

definition sample_analyzer :: "string \<Rightarrow> string + analyzer_result list" where
  "sample_analyzer t = Inr [\<lparr>ar_type = ''PERSON'', ar_start = 6, ar_end = 14, ar_score = 8500\<rparr>]"

definition sample_loads :: "string \<Rightarrow> string + json" where
  "sample_loads line = (case json_parse line of None \<Rightarrow> Inl ''Expecting value'' | Some v \<Rightarrow> Inr v)"

theorem sidecar_protocol_witness:
  "\<exists>out. sidecar_turn sample_loads sample_analyzer (\<lambda>_. []) (analyze_request ''I met Jane Roe today'') = Writes out \<and>
     presidio_call default_presidio (ready_outcome (sidecar_banner None)) (exchange_reply True out)
       ''I met Jane Roe today'' fresh_sidecar = ((''I met <PERSON> today'', [''pii:PERSON'']), running_sidecar)"
proof -
  have loads: "sample_loads (json_encode (JObj ms)) = Inr (JObj ms)" if "json_ok (JObj ms)" "json_depth (JObj ms) = 1" for ms
    using json_roundtrip [OF that(1)] that(2) by (simp add: sample_loads_def maxNestingDepth_def)
  have words: "valid_utf8 ''I met Jane Roe today''" "valid_utf8 ''PERSON''"
    by (rule valid_utf8_ascii, code_simp)+
  have ok: "case sample_analyzer ''I met Jane Roe today'' of Inl exc \<Rightarrow> valid_utf8 (''analyze failed: '' @ exc)
      | Inr rs \<Rightarrow> list_all result_ok rs"
    using words(2) by (simp add: sample_analyzer_def result_ok_def)
  have "presidio_RedactPII default_presidio
      (Some [reported \<lparr>ar_type = ''PERSON'', ar_start = 6, ar_end = 14, ar_score = 8500\<rparr>]) ''I met Jane Roe today'' =
      (''I met <PERSON> today'', [''pii:PERSON''])" by code_simp
  with sidecar_protocol [of sample_loads "''I met Jane Roe today''" sample_analyzer fresh_sidecar "\<lambda>_. []" default_presidio,
      OF loads words(1) ok] show ?thesis by (simp add: sample_analyzer_def)
qed

end
