(* ===== verification/Spec2Isabelle.thy ===== *)
theory Spec2Isabelle
  imports Session Ipc Transport Keys Glob Residue Float64 Service Server Sidecar
begin

text \<open>
  Verification library of memory-guard, a gate in front of an agent's memory: every write, read,
  review and deletion of the memory goes through it (src/*.go).

  \<^bold>\<open>The program.\<close> A client sends one JSON object per connection (src/ipc.go). A write is scanned for
  injection and borderline phrases and redacted (src/detector.go, src/detector\_presidio.go); an
  injection is blocked, a write under a named key is checked against the key policy (src/keys.go,
  src/keys\_config.go), behavioral inspectors add flags (src/self\_reinforcement.go,
  src/detector\_size.go), and the redacted text is stored under a random id, bound to the identity that
  the claims attest (src/principal.go), quarantined when it was borderline. A read answers what is
  bound to the reader or shared, a review answers one quarantined entry, a deletion proves absence
  and scans the surviving entries for residue (src/residue.go). Detections are emitted as audit
  events (src/audit.go, src/audit\_trail\_sink.go). The guard (src/guard.go) ties these together over a
  store (src/store.go, src/store\_file.go); src/main.go wires them.

  \<^bold>\<open>Theories, in the order they build on each other.\<close>
  \<^item> Prelude: bytes and runes, trimming, joining, splitting, decimal and hex, lemma collections.
  \<^item> Regexp: the regular expressions of RE2 that the code uses, leftmost-first, with
    replacement; Glob: path.Match; Utf8 and Json: sanitizing, json.Marshal, json.Unmarshal with their
    round trip under any layout (locale \<open>json_printer\<close>); Float64: binary64 rounding. They model the parts of Go's library the code relies on.
  \<^item> Principal: claims, binding key, reader key, provenance. Sha256: the two hashes.
  \<^item> Store: the store interface as the locale \<open>bounded_store\<close> (a backing keeps its contract under
    puts of what it can hold) and its extension \<open>memory_store\<close> (it can hold everything), and the two
    in-process backings; a Go map is an association list, its iteration order a parameter. FileStore:
    the JSONL log with its system calls, where a panic is a value, as a \<open>bounded_store\<close>.
  \<^item> Keys: the key policy and its configuration. Detector: the detector interface as the locale
    \<open>detector_seam\<close>, the patterns, redaction, the decode path. Presidio: the composite detector over
    an external process; Sidecar: the bytes between the two, and the process's loop. AuditEvents: events, sinks (locale \<open>audit_sink_contract\<close>), the asynchronous
    dispatch as a step relation. Transport: the transport's exchange, events as JSON. Inspectors: both behavioral
    detectors and their combination (locale \<open>write_inspector\<close>). Residue: the residue scan.
  \<^item> Guard: the guard over any detector, store, sink and inspector; its client lemmas are
    proved once, in the locale \<open>guard_over\<close>, from the contracts of the three interfaces;
    \<open>guard_seams\<close> is the case of a store that can hold everything.
  \<^item> Wiring: the factories and the builder chain; \<open>wired_guard\<close> is every guard over an
    in-process backing, and interprets \<open>guard_seams\<close>. Session: whole runs, views, events.
  \<^item> Concurrent: the calls of src/guard.go cut where they hold or leave the mutex, and their
    interleavings. Durable: the guard over a file, which interprets \<open>guard_over\<close>; its panics, and
    the guard of a later process over the same file. Service: both together, and the file that a
    process leaves when it dies at any moment. Ipc: listening, the request loop, the reply types. Cli: flags,
    dispatch, the one-shot commands. Server: the serve command as one system, its concurrent
    connections over one guard and the drain goroutine of its audit sink. This theory: the
    properties of whole sessions.

  \<^bold>\<open>Correspondence.\<close> Definitions keep the names of the source; a struct is a record, a sum of cases
  a datatype, a method of a struct a function from its state to its result and new state. Time,
  randomness, map order and Unicode tables are arguments (\<open>guard_env\<close>, \<open>map_order\<close>,
  \<open>residue_env\<close>), so the properties hold for all of them. Nil and empty slices of flags are one value.

  \<^bold>\<open>What is shown.\<close>
  \<^item> Here: the verdict of a write on every branch; what the store holds after any session, as a
    refinement of a log of its calls and as an invariant of each entry; what a read, a review and a
    deletion answer, exactly; that a read answers alike whether or not the writes bound to others
    were ever made (two sessions compared; attested writes under reserved keys, whose baselines are
    shared on purpose, and deletions, which take no identity, are common to both); that auditing
    never changes a reply, misses no event and hands the sink no content; that baselines are pinned.
  \<^item> Composition: concurrent calls linearize, and include the sequential session as one schedule; the
    server linearizes as its clients see it, its audit trail loses nothing that fits the buffer, and
    it comes to rest with every connection closed but those that wait for good for their client or for a
    detector call; over a file, no client that was answered is forgotten when the process dies,
    even in the middle of a save, and a session answers alike after a restart, both as long as every
    entry is UTF-8 and its record fits a line of 16 MiB (what happens otherwise is shown too); every
    request reaches the guard as its client meant it and every reply is recovered from its line, has the
    type of its operation, and never breaks the framing; serve starts only on a valid configuration.
  \<^item> Per component: refinement of the abstract map by all three backings and of the abstract
    log by both inspectors, policy verdicts, redaction and decode bounds, the composite detector's
    text as the native redaction with further parts replaced, residue verdicts
    independent of backing and order, delivery of the asynchronous sink, crash atomicity and round trip
    of the file, round trips of events and number words, the protocol of the
    detector and its analyzer process.
  \<^item> Behavior that a comment or a document describes otherwise, or that loses data, as theorems on
    concrete inputs: silent detections, quarantined baselines, colliding ids, disclosure by deletion,
    an oversized write that ends the service, pins lost at a restart, a read command that writes, names
    that code-point offsets leave in the clear, torn placeholders, dropped provenance, wrap-around.

  \<^bold>\<open>Bounds and fuel.\<close> Regular expressions are matched by a function that terminates on every input
  (iterations of a star must consume). The JSON parser runs on fuel 2 n + 1 for n bytes, which lemma
  \<open>parse_fuel\<close> shows never to run out, under Go's nesting limit of 10000. Number words are
  64-bit words. Float64 arithmetic leaves out overflow, which counts and sizes cannot reach. Sizes in
  the source (decode limits, windows, buffer capacities, the line limit of 16 MiB) are the source's.
  A run of n concurrent calls has at most 5 n pieces, one of n connections with the drain goroutine at
  most 9 n steps.

  \<^bold>\<open>Not modelled.\<close> Which system call of a save fails and why (disk full, permissions): a failing
  one panics, and what the disk then holds is a crash point of \<open>crashed_save\<close>. A power loss that undoes
  a synced write or a rename. The two locks of a combined inspector are taken as one. Removing a stale
  socket file and its permissions in serve, lines on stderr, the clock behind the transport's deadline.
  The aliasing of a returned flag slice with the stored one, which only an in-process caller that
  writes into a reply could see. The fused multiply-add that Go may use on some processors in
  \<open>meanStddev\<close>; NaN and infinite thresholds. Detector calls are functions of the text: the mutex of
  the composite detector and its untimed read of the process appear only as handlers that stall
  (theory Server), and a process that dies in the middle of a session only in the one-call properties
  of theory Presidio. The engine inside the analyzer process is a parameter, and to the guard so are
  the answers of the process and where talking to it fails.
\<close>

section \<open>Sessions\<close>

text \<open>C1: The verdict of a write, in any state of any wired guard. The write is blocked exactly when
  the detector reports an injection or the named-key policy rejects it; otherwise it is accepted,
  and then it is quarantined exactly when the detector reports borderline content. Neither the PII
  flags nor the flags of the policy or of the behavioral inspectors ever change that. Only an
  accepted write has an id, the minted one, and only an accepted write changes the store, to
  which it adds its redaction under that id.\<close>

theorem write_gate_verdict:
  "case ValidateWrite (wired_guard w) env c m key st of (r, st') \<Rightarrow>
     (let g = wired_guard w; accepted = write_accepted g c m key (gs_baselines st) in
      wr_allow r = accepted \<and>
      wr_state r = (if \<not> accepted then ''block''
                    else if det_DetectBorderline (det_of (w_detector w)) c \<noteq> [] then ''quarantine'' else ''allow'') \<and>
      wr_stored_id r = (if accepted then Some (''mem-'' @ randHex 6 (ge_rand env)) else None) \<and>
      gs_store st' = (if accepted
        then ms_Put (mg_store g) (minted env) (entry_of_write g c m (wr_flags r)) (gs_store st)
        else gs_store st))"
proof -
  obtain r st' where v: "ValidateWrite (wired_guard w) env c m key st = (r, st')" by fastforce
  from wired.write_response_shape [OF v] wired.write_store [OF v] show ?thesis
    by (simp add: v write_state_def minted_def)
qed

text \<open>C10: Everything in the store is the redaction of a text that passed the injection gate, is
  quarantined exactly when that text is borderline, carries the borderline flag exactly then and the
  injection flag never, and has one of the five provenance values. This holds after any session, over
  either backing, under any detector, policy, inspector and audit configuration.\<close>

theorem stored_entries_wf:
  "ran (stored_map (gs_store (final w cs k))) \<subseteq> {e. entry_wf (det_of (w_detector w)) e}"
proof -
  obtain rs where run: "guard_run (wired_guard w) cs (wired_state w k) = (rs, final w cs k)"
    by (metis final_def session_def prod.collapse)
  from wired.run_wf_any [OF run] show ?thesis by auto
qed

text \<open>C8: The guard refines its log. After any session, the store holds exactly what the calls and
  their replies say (an accepted write puts its entry under the id it was told, a deletion removes
  its id, reads and reviews do nothing), the sink has been handed exactly the events of the
  session in order, and the registry is the policy's fold over the keyed writes that reached it.\<close>

theorem guard_refines_log:
  "stored_map (gs_store (final w cs k)) = log_of (wired_guard w) cs (replies w cs k) Map.empty \<and>
   gs_sink (final w cs k) = fold (emitSafe (if isActive (w_audit w) then ac_Sink (w_audit w) else None))
     (run_events (wired_guard w) cs (replies w cs k)) k \<and>
   gs_baselines (final w cs k) = run_policy (w_policy w) (policy_writes (wired_guard w) cs) (\<lambda>_. None) \<and>
   length (replies w cs k) = length cs"
  using session_facts [of w cs k] by (simp add: logged_def)

text \<open>C12: A read answers exactly the readable entries. Whatever the session before, the answer is the
  second redaction of the newline-joined contents of the stored entries that contain the query,
  are not quarantined, and are bound to the shared scope or to the reader's own key (its subject when
  it is attested with one, the key of unbound entries otherwise), each entry exactly once, in some
  order; the flags are those of that redaction.\<close>

theorem read_exact:
  "\<exists>hits. mset hits = image_mset e_content (filter_mset (readable m q) (stored (logged w cs k))) \<and>
     ValidateRead (wired_guard w) q m (final w cs k) =
       \<lparr>rr_allow = True,
        rr_content_redacted = fst (det_RedactPII (det_of (w_detector w)) (join ''\<newline>'' hits)),
        rr_flags = snd (det_RedactPII (det_of (w_detector w)) (join ''\<newline>'' hits))\<rparr>"
  by (rule wired.read_answer [OF session_facts(1), where w = w and m = m and query = q and cs1 = cs and k1 = k])
    (auto simp: session_facts)

text \<open>C13: A review answers exactly the quarantined entries. A review by id after any session finds an entry
  if and only if one is stored under that id and is quarantined; it answers the second redaction of
  its content and the stored flags. For an absent id and for an allowed entry the answer is the same,
  found = false with nothing of the entry. (Reads leave quarantined entries out, but a
  deletion's residue summary can quote one, as shown below.)\<close>

theorem review_exact:
  "ReviewQuarantine (wired_guard w) i (final w cs k) =
     (case logged w cs k i of
        Some e \<Rightarrow>
          if e_quarantined e
          then \<lparr>qr_found = True, qr_content_redacted = fst (det_RedactPII (det_of (w_detector w)) (e_content e)),
                qr_flags = e_flags e\<rparr>
          else \<lparr>qr_found = False, qr_content_redacted = [], qr_flags = []\<rparr>
      | None \<Rightarrow> \<lparr>qr_found = False, qr_content_redacted = [], qr_flags = []\<rparr>)"
  unfolding wired.review_answer [OF session_facts(1)] session_facts(2)
  by (simp split: option.split)

text \<open>C11: Deletion is exact. After any session, deleting an id confirms, removes that id and nothing
  else, answers the hash of the id with the content that was stored (empty when there was none),
  and reports residue exactly when some other stored entry is a hit of the deleted content, in
  whichever index and backing; the summary is present exactly with residue.\<close>

theorem verify_delete_exact:
  "case VerifyDelete (wired_guard w) env i (final w cs k) of (r, st') \<Rightarrow>
     dr_confirmed r \<and>
     stored_map (gs_store st') = (logged w cs k)(i := None) \<and>
     dr_deletion_hash r = deletionHash i (case logged w cs k i of None \<Rightarrow> [] | Some e \<Rightarrow> e_content e) \<and>
     (dr_residue_detected r \<longleftrightarrow>
        (\<exists>e j e'. logged w cs k i = Some e \<and> trim_space (e_content e) \<noteq> [] \<and>
           j \<noteq> i \<and> logged w cs k j = Some e' \<and>
           survivor_hit (ge_unicode env) (trim_space (e_content e)) (e_content e'))) \<and>
     (dr_residue_summary r \<noteq> None \<longleftrightarrow> dr_residue_detected r)"
proof -
  obtain r st' where d: "VerifyDelete (wired_guard w) env i (final w cs k) = (r, st')" by fastforce
  have "dr_residue_summary r \<noteq> None \<longleftrightarrow> dr_residue_detected r"
    using d by (auto simp: VerifyDelete_def Let_def case_prod_beta split: if_splits)
  with wired.delete_result [OF d session_facts(1)] wired.delete_residue [OF d session_facts(1)]
  show ?thesis by (simp add: d session_facts)
qed

text \<open>C15: Auditing fails open and is invisible. Replacing the audit configuration by any other (off,
  on, a sink that fails, panics, drops, or keeps state of its own) changes no reply of any
  session and nothing of the store, the inspector's history or the baselines.\<close>

theorem audit_fails_open:
  "replies (w\<lparr>w_audit := cfg\<rparr>) cs k = replies w cs k' \<and>
   core (final (w\<lparr>w_audit := cfg\<rparr>) cs k) = core (final w cs k')"
  using session_audit [where w = w and cs = cs] by blast

text \<open>C24: Immutable baselines through the guard. After any session, the baseline of a key is the
  hash of the redacted content of the first keyed write that passed the injection gate and was
  entitled to establish it, when the policy makes the key immutable, and absent otherwise: no later
  write, review, read or deletion moves it.\<close>

theorem guard_baseline_is_first_write:
  "gs_baselines (final w cs k) key =
     (if key_immutable (w_policy w) key
      then map_option (\<lambda>(k, c, att). immutableBaselineHash c)
             (List.find (establishes key) (policy_writes (wired_guard w) cs))
      else None)"
  by (simp add: session_facts run_policy_first)

text \<open>C2: No read reveals what is not for the reader: noninterference between two sessions. Take any session
  whose minted ids differ, and the session in which the calls hidden from a reader were never made:
  all writes, allowed, quarantined or rejected, that are bound to a key this reader may not see, but
  for the attested ones under a reserved key (memguard:...), which pin a baseline for everybody. A
  read with any query after the one session and after the other answers the redaction of the same
  contents, as a multiset: those of the readable entries that the second session stored. So no
  hidden write, at whatever point, adds, hides or changes anything in what the reader is told, be
  it through the store, the policy's registry or the inspector's history. Deletions take no
  identity and are kept in both sessions.\<close>

theorem read_noninterference:
  assumes "distinct (reply_ids (replies w cs k))"
  shows "\<exists>hits hits'. mset hits = mset hits' \<and>
     mset hits' = image_mset e_content (filter_mset (readable m q)
       (stored (logged w (filter (\<lambda>c. \<not> hidden_from m c) cs) k'))) \<and>
     ValidateRead (wired_guard w) q m (final w cs k) = read_of (det_of (w_detector w)) hits \<and>
     ValidateRead (wired_guard w) q m (final w (filter (\<lambda>c. \<not> hidden_from m c) cs) k') =
       read_of (det_of (w_detector w)) hits'"
proof -
  let ?purged = "filter (\<lambda>c. \<not> hidden_from m c) cs"
  obtain hits where hits: "ValidateRead (wired_guard w) q m (final w cs k) = read_of (det_of (w_detector w)) hits"
    "mset hits = image_mset e_content (filter_mset (readable m q) (stored (stored_map (gs_store (final w cs k)))))"
    by (rule read_final [of m q w cs k])
  obtain hits' where hits': "ValidateRead (wired_guard w) q m (final w ?purged k') = read_of (det_of (w_detector w)) hits'"
    "mset hits' = image_mset e_content (filter_mset (readable m q) (stored (stored_map (gs_store (final w ?purged k')))))"
    by (rule read_final [of m q w ?purged k'])
  have "shown m (stored_map (gs_store (final w cs k))) = shown m (stored_map (gs_store (final w ?purged k')))"
    using purged_session [OF assms] by (simp add: alike_def)
  then have "mset hits = mset hits'"
    by (simp add: hits hits' stored_shown wired.st.finite_abs [OF session_facts(1)])
  with hits hits' show ?thesis by (intro exI [of _ hits] exI [of _ hits']) (simp add: session_facts(2))
qed

text \<open>Bob's entry is not in Alice's answer, whatever it says: she reads as if the session were empty.\<close>

theorem read_noninterference_witness:
  "\<exists>hits hits'. mset hits = mset hits' \<and>
     ValidateRead (wired_guard plain_wiring) [] (attested_as ''alice'')
       (final plain_wiring [CWrite (sample_env ''aaaaaa'') ''hi'' (attested_as ''bob'') []] ()) =
       read_of (det_of (w_detector plain_wiring)) hits \<and>
     ValidateRead (wired_guard plain_wiring) [] (attested_as ''alice'') (final plain_wiring [] ()) =
       read_of (det_of (w_detector plain_wiring)) hits'"
proof -
  let ?cs = "[CWrite (sample_env ''aaaaaa'') ''hi'' (attested_as ''bob'') []]"
  obtain r where r: "replies plain_wiring ?cs () = [r]"
    using session_facts(4) [of plain_wiring ?cs "()"] by (auto simp: length_Suc_conv)
  have "distinct (reply_ids (replies plain_wiring ?cs ()))" by (simp add: r split: option.split)
  note ni = read_noninterference [OF this, where m = "attested_as ''alice''" and q = "[]" and k' = "()"]
  have "hidden_from (attested_as ''alice'') (hd ?cs)" by (simp add: hidden_from_def) code_simp
  with ni show ?thesis by auto
qed

text \<open>The exception is real. A reserved key has one baseline for all identities: what Bob, attested, writes
  under memguard:x is bound to his own key, which Alice may not see, yet it is the baseline that
  every later write under memguard:x is held to, hers included.\<close>

lemma reserved_pin_is_shared:
  "let bob = CWrite (sample_env ''aaaaaa'') ''hi'' (attested_as ''bob'') [''memguard:x'']
   in boundKeyFor (Some (principalFromMap (attested_as ''bob''))) \<notin> set (visible_keys (attested_as ''alice'')) \<and>
      gs_baselines (final plain_wiring [bob] ()) ''memguard:x'' = Some (immutableBaselineHash ''hi'') \<and>
      gs_baselines (final plain_wiring [] ()) ''memguard:x'' = None"
proof -
  let ?bob = "CWrite (sample_env ''aaaaaa'') ''hi'' (attested_as ''bob'') [''memguard:x'']"
  have "boundKeyFor (Some (principalFromMap (attested_as ''bob''))) \<notin> set (visible_keys (attested_as ''alice''))"
    by code_simp
  moreover have writes: "policy_writes (wired_guard plain_wiring) [?bob] = [(''memguard:x'', ''hi'', True)]" by code_simp
  have immutable: "key_immutable (w_policy plain_wiring) ''memguard:x''" by code_simp
  have entitled: "establishes ''memguard:x'' (''memguard:x'', ''hi'', True)" by code_simp
  have "gs_baselines (final plain_wiring [?bob] ()) ''memguard:x'' = Some (immutableBaselineHash ''hi'')"
    unfolding session_facts(5) writes by (rule single_baseline [OF immutable entitled])
  moreover have "gs_baselines (final plain_wiring [] ()) ''memguard:x'' = None"
    by (simp add: final_def session_def)
  ultimately show ?thesis unfolding Let_def by blast
qed

text \<open>C14: Audit events carry no content. Whatever calls a session makes and under any detector, the external
  one included, every event that the guard hands to its sink (a collecting sink keeps them all) is
  built, field by field, from constants, labels of the fixed vocabulary and their count, a clock
  reading, the id a write's caller was told, one of the provenance values and the hash a deletion's
  caller was told: no text written, stored or deleted appears in it.\<close>

theorem audit_events_content_free:
  "let audited = w\<lparr>w_audit := \<lparr>ac_Enabled = True, ac_Sink = Some CollectingSink\<rparr>\<rparr>
   in list_all (content_free (w_detector w) (replies audited cs []) (call_times cs))
        (gs_sink (final audited cs []))"
proof -
  let ?audited = "w\<lparr>w_audit := \<lparr>ac_Enabled = True, ac_Sink = Some CollectingSink\<rparr>\<rparr>"
  have "gs_sink (final ?audited cs []) = run_events (wired_guard ?audited) cs (replies ?audited cs [])"
    unfolding session_facts(3) by (simp add: isActive_def fold_collecting)
  then show ?thesis
    using run_events_content_free [of _ ?audited cs "[]"] by (auto simp: list_all_iff Let_def)
qed

text \<open>The audit trail is complete and in order. A collecting sink ends up with exactly the events
  of the session (one per injection rejection, per accepted write with PII flags and per
  deletion), a channel of capacity n with the first n of them; the same events whatever sink is
  configured.\<close>

theorem audit_trail_complete:
  "gs_sink (final (w\<lparr>w_audit := \<lparr>ac_Enabled = True, ac_Sink = Some CollectingSink\<rparr>\<rparr>) cs []) =
     run_events (wired_guard w) cs (replies w cs k) \<and>
   gs_sink (final (w\<lparr>w_audit := \<lparr>ac_Enabled = True, ac_Sink = Some (ChannelSink n)\<rparr>\<rparr>) cs []) =
     take n (run_events (wired_guard w) cs (replies w cs k))"
  by (simp add: session_facts(3) isActive_def run_events_audit fold_collecting fold_channel
      session_audit(1) [where w = w and cs = cs and k' = k])

text \<open>C18: Writers read their own writes. A write answered "allow" after any session, by an identity
  whose subject does not spell the shared marker, is in the next read by the same identity for
  any query that occurs in its redaction: bound to the subject, to the shared scope or to nobody,
  the reader's keys cover it.\<close>

theorem write_then_read:
  assumes "ValidateWrite (wired_guard w) env c m key (final w cs k) = (r, st')" and "wr_state r = ''allow''"
    and "Subject (principalFromMap m) \<noteq> sharedScopeKey"
    and "str_contains (fst (det_RedactPII (det_of (w_detector w)) c)) q"
  shows "\<exists>hits. fst (det_RedactPII (det_of (w_detector w)) c) \<in> set hits \<and>
     ValidateRead (wired_guard w) q m st' =
       \<lparr>rr_allow = True,
        rr_content_redacted = fst (det_RedactPII (det_of (w_detector w)) (join ''\<newline>'' hits)),
        rr_flags = snd (det_RedactPII (det_of (w_detector w)) (join ''\<newline>'' hits))\<rparr>"
proof -
  let ?e = "entry_of_write (wired_guard w) c m (wr_flags r)"
  note shape = wired.write_response_shape [OF assms(1)]
  have ok: "wr_allow r" "\<not> e_quarantined ?e" "wr_stored_id r = Some (minted env)"
    using shape assms(2) by (auto simp: write_state_def entry_of_write_def split: if_splits)
  have inv: "stored_inv (gs_store st')" and log: "stored_map (gs_store st') (minted env) = Some ?e"
    using wired.write_store_abs_any [OF assms(1) session_facts(1)] ok(3) by simp_all
  have "readable m q ?e"
    using assms(3,4) ok(2) own_key_visible by (simp add: readable_def entry_of_write_def)
  moreover have "?e \<in># stored (stored_map (gs_store st'))"
    using log set_stored [OF wired.st.finite_abs [OF inv]] by (metis ranI)
  ultimately have e: "e_content ?e \<in># image_mset e_content (filter_mset (readable m q) (stored (stored_map (gs_store st'))))"
    by auto
  obtain hits where hits: "mset hits = image_mset e_content (filter_mset (readable m q) (stored (stored_map (gs_store st'))))"
    and ans: "ValidateRead (wired_guard w) q m st' =
      \<lparr>rr_allow = True, rr_content_redacted = fst (det_RedactPII (mg_det (wired_guard w)) (join ''\<newline>'' hits)),
       rr_flags = snd (det_RedactPII (mg_det (wired_guard w)) (join ''\<newline>'' hits))\<rparr>"
    by (rule wired.read_answer [OF inv])
  from e have "e_content ?e \<in> set hits" unfolding hits [symmetric] by simp
  with ans show ?thesis by (auto simp: entry_of_write_def)
qed

theorem write_then_read_witness:
  "\<exists>hits. phrase \<in> set hits \<and>
     rr_content_redacted (ValidateRead (wired_guard plain_wiring) phrase (attested_as ''alice'')
       (snd (ValidateWrite (wired_guard plain_wiring) (sample_env ''aaaaaa'') phrase (attested_as ''alice'') []
         (final plain_wiring [] ())))) =
     fst (det_RedactPII (det_of (w_detector plain_wiring)) (join ''\<newline>'' hits))"
proof -
  obtain r st' where v: "ValidateWrite (wired_guard plain_wiring) (sample_env ''aaaaaa'') phrase
      (attested_as ''alice'') [] (final plain_wiring [] ()) = (r, st')" by fastforce
  have "wr_state r = ''allow''" using v by (auto simp: plain_write phrase_facts)
  moreover have "Subject (principalFromMap (attested_as ''alice'')) \<noteq> sharedScopeKey" "str_contains phrase phrase"
    by code_simp+
  ultimately show ?thesis
    using write_then_read [OF v, of phrase] by (auto simp: v phrase_facts)
qed

section \<open>Behavior to know about\<close>

text \<open>A quarantined write pins an immutable baseline. The policy runs before the quarantine routing
  and registers the baseline of a first write whatever becomes of it: borderline content that no
  reader may see is the reference that every later, clean write under the key is measured against.\<close>

theorem quarantined_write_pins_baseline:
  "let cs = [CWrite (sample_env ''aaaaaa'') borderline_text (attested_as ''bob'') [''cfg'']]
   in map wr_state (write_replies (replies keyed_wiring cs ())) = [''quarantine''] \<and>
      gs_baselines (final keyed_wiring cs ()) ''cfg'' = Some (immutableBaselineHash borderline_text)"
proof -
  let ?cs = "[CWrite (sample_env ''aaaaaa'') borderline_text (attested_as ''bob'') [''cfg'']]"
  have writes: "policy_writes (wired_guard keyed_wiring) ?cs = [(''cfg'', borderline_text, True)]" by code_simp
  have immutable: "key_immutable (w_policy keyed_wiring) ''cfg''" by code_simp
  have entitled: "establishes ''cfg'' (''cfg'', borderline_text, True)" by code_simp
  have pinned: "gs_baselines (final keyed_wiring ?cs ()) ''cfg'' = Some (immutableBaselineHash borderline_text)"
    unfolding session_facts(5) writes by (rule single_baseline [OF immutable entitled])
  have "write_accepted (wired_guard keyed_wiring) borderline_text (attested_as ''bob'') [''cfg''] bs" for bs
  proof -
    have "\<not> isReservedSystemKey (firstKey [''cfg''])" by code_simp
    moreover have "det_DetectInjection (det_of (w_detector keyed_wiring)) borderline_text = []"
      by (simp add: borderline_text_facts)
    ultimately show ?thesis by (intro write_accepted_unreserved)
  qed
  moreover have "det_DetectBorderline (det_of (w_detector keyed_wiring)) borderline_text \<noteq> []"
    by (simp add: borderline_text_facts)
  ultimately have "map wr_state (write_replies (replies keyed_wiring ?cs ())) = [''quarantine'']"
    by (simp only: single_write_state write_state_def wired_guard_fields) simp
  with pinned show ?thesis unfolding Let_def by (rule conjI [rotated])
qed

text \<open>A repeated id overwrites. Ids are 48 random bits and are not checked against the store: when
  the generator repeats itself, the second writer is told "allow" and takes the id of the first
  writer's entry, which is gone, although it belonged to another identity.\<close>

theorem id_collision_overwrites:
  "let cs = [CWrite (sample_env ''aaaaaa'') ''hi'' (attested_as ''alice'') [],
             CWrite (sample_env ''aaaaaa'') ''ho'' (attested_as ''bob'') []];
       es = logged plain_wiring cs ()
   in map (\<lambda>r. (wr_state r, wr_stored_id r)) (write_replies (replies plain_wiring cs ())) =
        [(''allow'', Some ''mem-616161616161''), (''allow'', Some ''mem-616161616161'')] \<and>
      map_option (\<lambda>e. (e_content e, e_boundIdentity e)) (es ''mem-616161616161'') = Some (''ho'', ''bob'')"
  by code_simp

text \<open>Two detections leave no audit event. A write rejected by the named-key policy and a write
  quarantined as borderline (without PII) are told to the caller only: their sessions emit nothing.\<close>

theorem silent_detections:
  "let c1 = CWrite (sample_env ''aaaaaa'') ''hi'' Map.empty [''memguard:x''];
       c2 = CWrite (sample_env ''bbbbbb'') borderline_text (attested_as ''bob'') [];
       told = (\<lambda>c. map (\<lambda>r. (wr_state r, wr_flags r)) (write_replies (replies plain_wiring [c] ())));
       emitted = (\<lambda>c. run_events (wired_guard plain_wiring) [c] (replies plain_wiring [c] ()))
   in told c1 = [(''block'', [protectedKeyViolationFlag])] \<and> emitted c1 = [] \<and>
      told c2 = [(''quarantine'', [borderline_suspected])] \<and> emitted c2 = []"
proof -
  let ?c1 = "CWrite (sample_env ''aaaaaa'') ''hi'' Map.empty [''memguard:x'']"
  let ?c2 = "CWrite (sample_env ''bbbbbb'') borderline_text (attested_as ''bob'') []"
  have r1: "replies plain_wiring [?c1] () = [RWrite \<lparr>wr_allow = False, wr_stored_id = None, wr_state = ''block'',
      wr_flags = [protectedKeyViolationFlag]\<rparr>]" by code_simp
  have r2: "replies plain_wiring [?c2] () = [RWrite \<lparr>wr_allow = True, wr_stored_id = Some (minted (sample_env ''bbbbbb'')),
      wr_state = ''quarantine'', wr_flags = [borderline_suspected]\<rparr>]"
    by (simp add: replies_def session_def plain_write borderline_text_facts)
  have "det_DetectInjection (det_of (w_detector plain_wiring)) ''hi'' = []" by code_simp
  then show ?thesis
    unfolding Let_def r1 r2
    by (simp add: write_replies_def map_filter_simps write_event_def borderline_text_facts)
qed

text \<open>Quarantined content leaves through a deletion. Bob's borderline entry is invisible to every
  read, but deleting an entry that shares a phrase with it answers a summary that quotes it, to a
  caller who names neither Bob nor the quarantined id; the deleted content itself is restated too.\<close>

theorem delete_discloses_quarantined:
  "let cs = [CWrite (sample_env ''aaaaaa'') phrase (attested_as ''alice'') [],
             CWrite (sample_env ''bbbbbb'') borderline_text (attested_as ''bob'') []];
       (r, st) = VerifyDelete (wired_guard plain_wiring) (sample_env []) (minted (sample_env ''aaaaaa''))
                   (final plain_wiring cs ())
   in map wr_state (write_replies (replies plain_wiring cs ())) = [''allow'', ''quarantine''] \<and>
      dr_residue_summary r = Some (''verbatim residue of deleted content survives in index '' @
        [CHR 0x22] @ ''primary'' @ [CHR 0x22] @ '', entry '' @ [CHR 0x22] @ ''pretend this never happened'' @
        [CHR 0x22] @ '': '' @ [CHR 0x22] @ ''never happened'' @ [CHR 0x22])"
proof -
  let ?g = "wired_guard plain_wiring"
  let ?i = "minted (sample_env ''aaaaaa'')" and ?j = "minted (sample_env ''bbbbbb'')"
  let ?cs = "[CWrite (sample_env ''aaaaaa'') phrase (attested_as ''alice'') [],
              CWrite (sample_env ''bbbbbb'') borderline_text (attested_as ''bob'') []]"
  let ?st = "final plain_wiring ?cs ()"
  let ?d = "entry_of_write ?g phrase (attested_as ''alice'') []"
  let ?e = "entry_of_write ?g borderline_text (attested_as ''bob'') [borderline_suspected]"
  have states: "map wr_state (write_replies (replies plain_wiring ?cs ())) = [''allow'', ''quarantine'']"
    by (simp add: replies_def session_def plain_write borderline_text_facts phrase_facts write_replies_def map_filter_simps)
  have ids: "?i \<noteq> ?j" by code_simp
  have store: "gs_store ?st = Inl [(?i, ?d), (?j, ?e)]"
    using ids by (simp add: final_def session_def plain_write borderline_text_facts phrase_facts plain_store
        either_ops_def im_defs)
  have d: "ms_Get (mg_store ?g) ?i (gs_store ?st) = Some ?d"
    by (simp add: store either_ops_def im_defs)
  have e: "ms_AllByIndex (mg_store ?g) (ms_Delete (mg_store ?g) ?i (gs_store ?st)) = [(primaryIndexName, [?e])]"
  proof -
    have "iterate (w_order plain_wiring) [?j] = [?j]"
      using mset_iterate [of "w_order plain_wiring" "[?j]"] by (simp flip: mset_single_iff_right)
    with ids show ?thesis by (simp add: store either_ops_def im_defs range_map_def map_filter_simps)
  qed
  have c: "e_content ?d = phrase" "e_content ?e = borderline_text"
    by (simp_all add: entry_of_write_def phrase_facts borderline_text_facts)
  have "trim_space phrase = phrase" "phrase \<noteq> []" "str_contains borderline_text phrase" by code_simp+
  then have "dr_residue_summary (fst (VerifyDelete ?g (sample_env []) ?i ?st)) =
      Some (residueSummaryInIndex ascii_env ''verbatim'' primaryIndexName (survivorRef ascii_env borderline_text) phrase)"
    using delete_summary [OF d e, of phrase "sample_env []"] unfolding c by (simp add: sample_env_def)
  also have "residueSummaryInIndex ascii_env ''verbatim'' primaryIndexName (survivorRef ascii_env borderline_text) phrase =
      ''verbatim residue of deleted content survives in index '' @ [CHR 0x22] @ ''primary'' @ [CHR 0x22] @ '', entry '' @
      [CHR 0x22] @ ''pretend this never happened'' @ [CHR 0x22] @ '': '' @ [CHR 0x22] @ ''never happened'' @ [CHR 0x22]"
    by code_simp
  finally show ?thesis using states unfolding Let_def case_prod_beta by (intro conjI)
qed

section \<open>The command line\<close>

text \<open>C38: The serve command starts only on a configuration it fully understands. It reaches a guard
  exactly when a socket is given, the detector's name is one of the three, the store is the
  in-memory one or a file whose path is given and whose content parses, and both pattern lists
  are well formed; anything else exits with status 2.\<close>

theorem serve_fails_closed:
  "(\<exists>s. serve_command answers disk env socket auditSocket = Inr s) =
     (socket \<noteq> [] \<and>
      detectorBackend env \<in> set [BackendNative, BackendRegex, BackendPresidio] \<and>
      (if storeBackend env = StoreMemory then True
       else storeBackend env = StoreFile \<and> storePath env \<noteq> [] \<and> NewFileStore (disk (storePath env)) = None) \<and>
      first_malformed (env ''MEMGUARD_PROTECTED_KEYS'') = None \<and>
      first_malformed (env ''MEMGUARD_IMMUTABLE_KEYS'') = None) \<and>
   (case serve_command answers disk env socket auditSocket of Inl (Exit status msg) \<Rightarrow> status = 2 | Inr s \<Rightarrow> True)"
proof -
  have nonempty: "detectorBackend env \<noteq> []" "storeBackend env \<noteq> []"
    by (auto simp: detectorBackend_def storeBackend_def BackendNative_def StoreMemory_def)
  have names: "BackendNative \<noteq> []" "StoreFile \<noteq> StoreMemory"
    by (simp_all add: BackendNative_def StoreFile_def StoreMemory_def)
  have det: "(\<exists>d. buildDetector answers env = Inr d) =
      (detectorBackend env \<in> set [BackendNative, BackendRegex, BackendPresidio])"
    using nonempty by (auto simp: buildDetector_def NewDetectorFromConfig_def)
  have store: "(\<exists>s. buildStore disk env = Inr s) = (if storeBackend env = StoreMemory then True
       else storeBackend env = StoreFile \<and> storePath env \<noteq> [] \<and> NewFileStore (disk (storePath env)) = None)"
    using nonempty names(2) by (auto simp: buildStore_def NewStoreFromConfig_def split: option.split)
  have policy: "(\<exists>p. buildKeyPolicy env = Inr p) =
      (first_malformed (env ''MEMGUARD_PROTECTED_KEYS'') = None \<and> first_malformed (env ''MEMGUARD_IMMUTABLE_KEYS'') = None)"
    by (auto simp: buildKeyPolicy_def NewKeyPolicyFromConfig_eq split: option.split)
  have two: "\<And>e. buildDetector answers env = Inl e \<Longrightarrow> e = Exit 2 ''detector:''"
    "\<And>e. buildStore disk env = Inl e \<Longrightarrow> e = Exit 2 ''store:''"
    "\<And>e. buildKeyPolicy env = Inl e \<Longrightarrow> e = Exit 2 ''key-policy:''"
    by (auto simp: buildDetector_def buildStore_def buildKeyPolicy_def split: sum.splits)
  show ?thesis
    unfolding det [symmetric] store [symmetric] policy [symmetric] serve_command_def Let_def case_prod_beta
    by (cases "buildDetector answers env"; cases "buildStore disk env"; cases "buildKeyPolicy env")
      (auto dest: two split: sum.splits exit.splits)
qed

end
